(* ===== verification/Prelude.thy ===== *)
theory Prelude
  imports Main "HOL-Library.Word" "HOL-Library.Sublist" "HOL-Library.Code_Target_Numeral"
begin

text \<open>
  What the components share: the outcome of a C call that may fail to return normally, the
  allocation sites of the value layer, C strings as lists of non-zero characters with the
  \<open>string.h\<close> functions the program calls (\<open>strstr\<close>, \<open>isspace\<close>, pointer bumps as
  \<^term>\<open>drop\<close>), and the generic lemmas on lists the components use.
\<close>

named_theorems outcome_simps "equations of the outcome combinators"
named_theorems cstr_simps "equations of the C string functions on closed and symbolic strings"
named_theorems value_simps "equations of the accessors of monitors and monitor values"

section \<open>Outcomes\<close>

text \<open>
  A C call returns a value or does not: it runs for ever, writes or reads outside an object,
  or dereferences a null pointer. Every function of the model in which the code can do one of
  these returns a \<open>fault + 'a\<close>.
\<close>

datatype fault =
    Hangs             \<comment> \<open>the loop never ends\<close>
  | Buffer_overflow   \<comment> \<open>a write past the end of a buffer\<close>
  | Out_of_bounds     \<comment> \<open>an index outside an array\<close>
  | Null_deref        \<comment> \<open>a null pointer is read through\<close>
  | Bad_member        \<comment> \<open>the inactive member of a union is read\<close>
  | Use_after_free    \<comment> \<open>a block is used or released after its release\<close>
  | Uninitialised     \<comment> \<open>an object is read before it has a value\<close>

type_synonym 'a outcome = "fault + 'a"

definition obind :: "'a outcome \<Rightarrow> ('a \<Rightarrow> 'b outcome) \<Rightarrow> 'b outcome" where
  "obind x f = (case x of Inl e \<Rightarrow> Inl e | Inr a \<Rightarrow> f a)"

lemma obind_simps [simp, outcome_simps]:
  "obind (Inl e) f = Inl e"
  "obind (Inr a) f = f a"
  by (simp_all add: obind_def)

lemma obind_Inr_iff: "obind x f = Inr b \<longleftrightarrow> (\<exists>a. x = Inr a \<and> f a = Inr b)"
  by (cases x) simp_all

lemma obind_cong [fundef_cong]:
  "x = y \<Longrightarrow> (\<And>a. y = Inr a \<Longrightarrow> f a = g a) \<Longrightarrow> obind x f = obind y g"
  by (cases y) simp_all

definition ok :: "'a outcome \<Rightarrow> bool" where
  "ok x \<longleftrightarrow> (case x of Inl _ \<Rightarrow> False | Inr _ \<Rightarrow> True)"

lemma ok_simps [simp, outcome_simps]:
  "ok (Inl e) = False"
  "ok (Inr a) = True"
  by (simp_all add: ok_def)

lemma ok_iff: "ok x \<longleftrightarrow> (\<exists>a. x = Inr a)"
  by (cases x) simp_all

text \<open>A computation of \<^term>\<open>None\<close> is one that does not return.\<close>

definition returned :: "'a option \<Rightarrow> 'a outcome" where
  "returned x = (case x of None \<Rightarrow> Inl Hangs | Some a \<Rightarrow> Inr a)"

lemma returned_simps [simp, outcome_simps]:
  "returned None = Inl Hangs"
  "returned (Some a) = Inr a"
  by (simp_all add: returned_def)

section \<open>C strings\<close>

text \<open>
  A C string is the list of its characters before the terminating zero, so the pointer
  \<open>s + n\<close> is \<^term>\<open>drop n s\<close> and \<open>strlen\<close> is \<^term>\<open>length\<close>. A byte buffer that a library
  filled may hold a zero inside: \<open>c_str\<close> is the string a reader sees in it.
\<close>

definition c_str :: "char list \<Rightarrow> string" where
  "c_str b = takeWhile (\<lambda>c. c \<noteq> CHR 0x00) b"

text \<open>\<open>strstr(haystack, needle)\<close>: the suffix that starts at the first occurrence.\<close>

fun strstr :: "string \<Rightarrow> string \<Rightarrow> string option" where
  "strstr [] needle = (if needle = [] then Some [] else None)"
| "strstr (c # cs) needle =
     (if prefix needle (c # cs) then Some (c # cs) else strstr cs needle)"

text \<open>\<open>isspace\<close> in the C locale.\<close>

definition is_space :: "char \<Rightarrow> bool" where
  "is_space c \<longleftrightarrow> c = CHR '' '' \<or> (9 \<le> (of_char c :: nat) \<and> (of_char c :: nat) \<le> 13)"

lemma c_str_idem [simp, cstr_simps]: "c_str (c_str b) = c_str b"
  by (simp add: c_str_def takeWhile_idem)

lemma c_str_Nil [simp, cstr_simps]: "c_str [] = []"
  by (simp add: c_str_def)

lemma length_c_str: "length (c_str b) \<le> length b"
  by (simp add: c_str_def length_takeWhile_le)

lemma c_str_no_nul: "CHR 0x00 \<notin> set (c_str b)"
  using set_takeWhileD by (fastforce simp: c_str_def)

lemma c_str_same: "CHR 0x00 \<notin> set s \<Longrightarrow> c_str s = s"
  unfolding c_str_def by (rule takeWhile_eq_all_conv [THEN iffD2]) auto

lemma strstr_empty [simp, cstr_simps]: "strstr s [] = Some s"
  by (cases s) simp_all

lemma strstr_Some_prefix: "strstr s n = Some r \<Longrightarrow> prefix n r"
  by (induction s) (auto split: if_splits)

lemma strstr_Some_suffix: "strstr s n = Some r \<Longrightarrow> suffix r s"
proof (induction s)
  case (Cons c cs)
  then show ?case by (auto split: if_splits intro: suffix_ConsI)
qed (auto split: if_splits)

lemma strstr_Some_length: "strstr s n = Some r \<Longrightarrow> length n \<le> length r \<and> length r \<le> length s"
  using strstr_Some_prefix strstr_Some_suffix
  by (metis prefix_length_le suffix_length_le)

lemma strstr_self: "prefix n s \<Longrightarrow> strstr s n = Some s"
  by (cases s) simp_all

lemma strstr_rest_shorter:
  "strstr s n = Some r \<Longrightarrow> n \<noteq> [] \<Longrightarrow> length (drop (length n) r) < length s"
  by (cases n) (auto dest!: strstr_Some_length)

text \<open>A token without the first character of the separator holds no separator.\<close>

lemma strstr_skip:
  assumes "hd sep \<notin> set t" and "sep \<noteq> []"
  shows "strstr (t @ sep @ u) sep = Some (sep @ u)"
  using assms
proof (induction t)
  case Nil
  then show ?case by (simp add: strstr_self)
next
  case (Cons c t)
  then show ?case by (cases sep) auto
qed

lemma strstr_absent:
  assumes "hd sep \<notin> set t" and "sep \<noteq> []"
  shows "strstr t sep = None"
  using assms
proof (induction t)
  case (Cons c t)
  then show ?case by (cases sep) auto
qed simp

section \<open>Reference splitting\<close>

text \<open>
  The suffixes of a string at which its tokens begin, for a non-empty separator: the string
  itself and the suffix after every separator, found from the left without overlap.
\<close>

function token_starts :: "string \<Rightarrow> string \<Rightarrow> string list" where
  "token_starts sep s =
     (case strstr s sep of
        None \<Rightarrow> [s]
      | Some r \<Rightarrow> if sep = [] then [s] else s # token_starts sep (drop (length sep) r))"
  by pat_completeness auto
termination
  by (relation "measure (\<lambda>(sep, s). length s)") (auto dest: strstr_rest_shorter)

declare token_starts.simps [simp del]

fun join :: "string \<Rightarrow> string list \<Rightarrow> string" where
  "join sep [] = []"
| "join sep [t] = t"
| "join sep (t # u # ts) = t @ sep @ join sep (u # ts)"

lemma token_starts_None: "strstr s sep = None \<Longrightarrow> token_starts sep s = [s]"
  by (simp add: token_starts.simps)

lemma token_starts_Some:
  "strstr s sep = Some r \<Longrightarrow> sep \<noteq> [] \<Longrightarrow>
     token_starts sep s = s # token_starts sep (drop (length sep) r)"
  by (subst token_starts.simps) simp

lemma token_starts_nonempty: "token_starts sep s \<noteq> []"
  by (subst token_starts.simps) (simp split: option.splits)

lemma token_starts_join_Cons:
  assumes "hd sep \<notin> set t" and "sep \<noteq> []"
  shows "token_starts sep (join sep (t # u # ts)) =
           join sep (t # u # ts) # token_starts sep (join sep (u # ts))"
  using token_starts_Some [OF strstr_skip [OF assms] assms(2), of "join sep (u # ts)"] by simp

lemma length_token_starts_join:
  assumes "sep \<noteq> []" and "\<forall>t \<in> set ts. hd sep \<notin> set t" and "ts \<noteq> []"
  shows "length (token_starts sep (join sep ts)) = length ts"
  using assms
proof (induction sep ts rule: join.induct)
  case (2 sep t)
  then show ?case by (simp add: token_starts_None strstr_absent)
next
  case (3 sep t u ts)
  then show ?case by (simp add: token_starts_join_Cons del: join.simps(3))
qed simp

end
