(* ===== verification/Containers.thy ===== *)
theory Containers
  imports Prelude "HOL-Library.While_Combinator"
begin

text \<open>
  The two containers every component uses: \<open>struct rb_array\<close> (src/rb_array.h, src/rb_array.c), a
  fixed-capacity array of pointers, and the \<open>TAILQ\<close> of src/rb_message_list.h, a queue drained
  from its head. Each has a locale that states what its clients rely on, with the lemmas about
  their loops proved from the contract alone, and an interpretation on the model of the code.
\<close>

section \<open>The contract of a bounded array\<close>

locale bounded_array =
  fixes fresh :: "nat \<Rightarrow> 'arr"
    and is_full :: "'arr \<Rightarrow> bool"
    and add :: "'arr \<Rightarrow> 'e \<Rightarrow> 'arr outcome"
    and contents :: "'arr \<Rightarrow> 'e list"
    and capacity :: "'arr \<Rightarrow> nat"
    and wf :: "'arr \<Rightarrow> bool"
  assumes wf_fresh: "wf (fresh n)"
    and contents_fresh: "contents (fresh n) = []"
    and capacity_fresh: "capacity (fresh n) = n"
    and within_capacity: "wf a \<Longrightarrow> length (contents a) \<le> capacity a"
    and full_iff: "wf a \<Longrightarrow> is_full a \<longleftrightarrow> length (contents a) = capacity a"
    and add_full: "wf a \<Longrightarrow> is_full a \<Longrightarrow> add a e = Inr a"
    and add_room: "wf a \<Longrightarrow> \<not> is_full a \<Longrightarrow>
      \<exists>b. add a e = Inr b \<and> wf b \<and> capacity b = capacity a \<and> contents b = contents a @ [e]"
begin

definition add_all :: "'arr outcome \<Rightarrow> 'e list \<Rightarrow> 'arr outcome" where
  "add_all r es = foldl (\<lambda>r e. obind r (\<lambda>a. add a e)) r es"

lemma add_all_Nil [simp]: "add_all r [] = r"
  by (simp add: add_all_def)

lemma add_all_Cons: "add_all r (e # es) = add_all (obind r (\<lambda>a. add a e)) es"
  by (simp add: add_all_def)

lemma add_all_Inl [simp]: "add_all (Inl f) es = Inl f"
  by (induction es) (simp_all add: add_all_Cons)

text \<open>Filling keeps the elements in order while there is room, and drops the rest.\<close>

lemma add_all_contents:
  assumes "wf a"
  shows "\<exists>b. add_all (Inr a) es = Inr b \<and> wf b \<and> capacity b = capacity a
           \<and> contents b = contents a @ take (capacity a - length (contents a)) es"
  using assms
proof (induction es arbitrary: a)
  case (Cons e es)
  show ?case
  proof (cases "is_full a")
    case True
    have "length (contents a) = capacity a" using Cons.prems True by (simp add: full_iff)
    then show ?thesis
      using Cons.IH [OF Cons.prems] True Cons.prems by (simp add: add_all_Cons add_full)
  next
    case False
    then obtain c where c: "add a e = Inr c" "wf c" "capacity c = capacity a" "contents c = contents a @ [e]"
      using add_room Cons.prems by blast
    have "length (contents a) < capacity a"
      using False Cons.prems full_iff within_capacity by (simp add: le_neq_implies_less)
    then have "capacity a - length (contents a) = Suc (capacity a - Suc (length (contents a)))"
      by simp
    then show ?thesis using Cons.IH [OF c(2)] c by (simp add: add_all_Cons)
  qed
qed simp

lemma add_all_fresh:
  "length es \<le> n \<Longrightarrow> \<exists>b. add_all (Inr (fresh n)) es = Inr b \<and> wf b \<and> capacity b = n \<and> contents b = es"
  using add_all_contents [OF wf_fresh, of n es] by (simp add: contents_fresh capacity_fresh)

end

section \<open>rb_array\<close>

text \<open>\<open>elms\<close> is the flexible array member as \<open>calloc\<close> allocated it, null pointers included.\<close>

record 'a rb_array =
  arr_size :: nat
  arr_count :: nat
  elms :: "'a option list"

definition rb_array_fresh :: "nat \<Rightarrow> 'a rb_array" where
  "rb_array_fresh n = \<lparr>arr_size = n, arr_count = 0, elms = replicate n None\<rparr>"

text \<open>\<open>mem\<close> says whether \<open>calloc\<close> succeeds.\<close>

definition rb_array_new :: "bool \<Rightarrow> nat \<Rightarrow> 'a rb_array option" where
  "rb_array_new mem n = (if mem then Some (rb_array_fresh n) else None)"

definition rb_array_full :: "'a rb_array \<Rightarrow> bool" where
  "rb_array_full a \<longleftrightarrow> arr_size a = arr_count a"

definition rb_array_add :: "'a rb_array \<Rightarrow> 'a option \<Rightarrow> 'a rb_array outcome" where
  "rb_array_add a e =
     (if rb_array_full a then Inr a
      else if arr_count a < length (elms a)
      then Inr (a\<lparr>elms := (elms a)[arr_count a := e], arr_count := Suc (arr_count a)\<rparr>)
      else Inl Out_of_bounds)"

text \<open>\<open>array->elms[i]\<close>, read and written without a bounds check.\<close>

definition elm_at :: "'a rb_array \<Rightarrow> nat \<Rightarrow> 'a option outcome" where
  "elm_at a i = (if i < length (elms a) then Inr (elms a ! i) else Inl Out_of_bounds)"

definition set_elm :: "'a rb_array \<Rightarrow> nat \<Rightarrow> 'a option \<Rightarrow> 'a rb_array outcome" where
  "set_elm a i e =
     (if i < length (elms a) then Inr (a\<lparr>elms := (elms a)[i := e]\<rparr>) else Inl Out_of_bounds)"

definition rb_array_wf :: "'a rb_array \<Rightarrow> bool" where
  "rb_array_wf a \<longleftrightarrow> arr_size a = length (elms a) \<and> arr_count a \<le> arr_size a"

definition rb_array_contents :: "'a rb_array \<Rightarrow> 'a option list" where
  "rb_array_contents a = take (arr_count a) (elms a)"

interpretation rb_arr: bounded_array rb_array_fresh rb_array_full rb_array_add
  rb_array_contents arr_size rb_array_wf
proof (unfold_locales, goal_cases)
  case (7 a e)
  then have "arr_count a < length (elms a)"
    by (auto simp: rb_array_wf_def rb_array_full_def)
  with 7 show ?case
    by (auto simp: rb_array_add_def rb_array_wf_def rb_array_contents_def take_Suc_conv_app_nth
        take_update_cancel)
qed (auto simp: rb_array_fresh_def rb_array_wf_def rb_array_contents_def rb_array_full_def
    rb_array_add_def)

lemma rb_array_new_Some [simp]: "rb_array_new True n = Some (rb_array_fresh n)"
  by (simp add: rb_array_new_def)

lemma elm_at_contents:
  "rb_array_wf a \<Longrightarrow> i < arr_count a \<Longrightarrow> elm_at a i = Inr (rb_array_contents a ! i)"
  by (auto simp: rb_array_wf_def elm_at_def rb_array_contents_def)

lemma set_elm_wf:
  "rb_array_wf a \<Longrightarrow> i < arr_count a \<Longrightarrow>
     \<exists>b. set_elm a i e = Inr b \<and> rb_array_wf b \<and> arr_count b = arr_count a \<and> arr_size b = arr_size a
       \<and> rb_array_contents b = (rb_array_contents a)[i := e]"
  by (auto simp: rb_array_wf_def set_elm_def rb_array_contents_def take_update_swap)

lemma length_rb_array_contents [simp]: "rb_array_wf a \<Longrightarrow> length (rb_array_contents a) = arr_count a"
  by (auto simp: rb_array_wf_def rb_array_contents_def)

section \<open>The contract of a queue that is drained from its head\<close>

locale drained_queue =
  fixes nil :: 'q
    and push :: "'q \<Rightarrow> 'm \<Rightarrow> 'q"
    and is_empty :: "'q \<Rightarrow> bool"
    and first :: "'q \<Rightarrow> 'm"
    and remove :: "'q \<Rightarrow> 'm \<Rightarrow> 'q"
    and items :: "'q \<Rightarrow> 'm list"
  assumes items_nil: "items nil = []"
    and items_push: "items (push q m) = items q @ [m]"
    and empty_iff: "is_empty q \<longleftrightarrow> items q = []"
    and empty_nil: "is_empty q \<Longrightarrow> q = nil"
    and items_first: "items q = m # ms \<Longrightarrow> first q = m"
    and items_remove_first: "items q = m # ms \<Longrightarrow> items (remove q m) = ms"
begin

text \<open>The loop \<open>while (!empty(q)) { m = first(q); remove(q, m); send(m); }\<close>.\<close>

definition drain :: "('s \<Rightarrow> 'm \<Rightarrow> 's) \<Rightarrow> 'q \<times> 's \<Rightarrow> ('q \<times> 's) option" where
  "drain send = while_option (\<lambda>(q, s). \<not> is_empty q)
     (\<lambda>(q, s). let m = first q in (remove q m, send s m))"

text \<open>It ends, empties the queue and hands every item over once, oldest first.\<close>

lemma drain_eq: "drain send (q, s) = Some (nil, foldl send s (items q))"
proof (induction "items q" arbitrary: q s)
  case Nil
  then have "is_empty q" by (simp add: empty_iff)
  with empty_nil Nil show ?case
    unfolding drain_def by (subst while_option_unfold) auto
next
  case (Cons m ms)
  then have "\<not> is_empty q" "first q = m" "items (remove q m) = ms"
    by (metis empty_iff list.distinct(1), metis items_first, metis items_remove_first)
  then have "drain send (q, s) = drain send (remove q m, send s m)"
    unfolding drain_def by (subst while_option_unfold) (simp add: Let_def)
  also have "\<dots> = Some (nil, foldl send (send s m) ms)"
    using Cons.hyps(1) \<open>items (remove q m) = ms\<close> by metis
  finally show ?case using Cons.hyps(2) by (metis foldl_Cons)
qed

end

section \<open>rb_message_list\<close>

text \<open>
  A \<open>TAILQ\<close> of message arrays: insertion at the tail, removal of a given element, and the element
  at its head. \<open>TAILQ_FIRST\<close> of an empty queue is null; the loops never ask for it.
\<close>

type_synonym 'm tailq = "'m list"

definition rb_message_list_init :: "'m tailq" where
  "rb_message_list_init = []"

definition rb_message_list_push :: "'m tailq \<Rightarrow> 'm \<Rightarrow> 'm tailq" where
  "rb_message_list_push q m = q @ [m]"

definition rb_message_list_remove :: "'m tailq \<Rightarrow> 'm \<Rightarrow> 'm tailq" where
  "rb_message_list_remove q m = remove1 m q"

definition rb_message_list_empty :: "'m tailq \<Rightarrow> bool" where
  "rb_message_list_empty q \<longleftrightarrow> q = []"

definition rb_message_list_first :: "'m tailq \<Rightarrow> 'm" where
  "rb_message_list_first q = hd q"

interpretation msg_list: drained_queue rb_message_list_init rb_message_list_push
  rb_message_list_empty rb_message_list_first rb_message_list_remove "\<lambda>q. q"
  by unfold_locales
    (auto simp: rb_message_list_init_def rb_message_list_push_def rb_message_list_empty_def
      rb_message_list_first_def rb_message_list_remove_def)

end
