(* ===== verification/CDouble.thy ===== *)
theory CDouble
  imports Prelude
begin

text \<open>
  The C type \<open>double\<close> as the program uses it: IEEE 754 binary64 with round to nearest, ties to
  even, the value of a finite double being \<open>(-1)^s * m * 2^e\<close>. The operations are the ones of
  the source: conversion from an integer, \<open>+\<close>, \<open>/\<close>, \<open>isnormal\<close>, and the cast to
  \<open>int64_t\<close>. The two results the C standard leaves to the platform (the sign of a new NaN, an
  out-of-range cast) are the ones of x86-64. The lemmas show where the arithmetic is exact.
\<close>

datatype double =
    NaN bool              \<comment> \<open>sign bit\<close>
  | Inf bool
  | Fin bool nat int      \<comment> \<open>sign, significand, exponent\<close>

type_synonym int64 = "64 word"
type_synonym time_t = "64 word"

section \<open>Rounding a ratio\<close>

fun bitlen :: "nat \<Rightarrow> nat" where
  "bitlen n = (if n = 0 then 0 else Suc (bitlen (n div 2)))"

declare bitlen.simps [simp del]

text \<open>\<open>2 ^ k \<le> n / d\<close>, for any integer \<open>k\<close>.\<close>

definition pow2_le :: "nat \<Rightarrow> nat \<Rightarrow> int \<Rightarrow> bool" where
  "pow2_le n d k = (if 0 \<le> k then d * 2 ^ nat k \<le> n else d \<le> n * 2 ^ nat (- k))"

text \<open>The floor of the binary logarithm of \<open>n / d\<close>.\<close>

definition ilog2 :: "nat \<Rightarrow> nat \<Rightarrow> int" where
  "ilog2 n d = (let k = int (bitlen n) - int (bitlen d) in if pow2_le n d k then k else k - 1)"

text \<open>\<open>n / d\<close> to the nearest integer, ties to even.\<close>

definition div_rne :: "nat \<Rightarrow> nat \<Rightarrow> nat" where
  "div_rne n d =
     (let q = n div d; r = n mod d
      in if 2 * r < d \<or> (2 * r = d \<and> even q) then q else Suc q)"

definition fl_ratio :: "bool \<Rightarrow> nat \<Rightarrow> nat \<Rightarrow> double" where
  "fl_ratio s n d =
     (if n = 0 then Fin s 0 (-1074)
      else
        let e = max (-1074) (ilog2 n d - 52);
            q = (if 0 \<le> e then div_rne n (d * 2 ^ nat e) else div_rne (n * 2 ^ nat (- e)) d);
            m = (if q = 2 ^ 53 then 2 ^ 52 else q);
            e' = (if q = 2 ^ 53 then e + 1 else e)
        in if 971 < e' then Inf s else Fin s m e')"

definition fl_scaled :: "bool \<Rightarrow> nat \<Rightarrow> int \<Rightarrow> double" where
  "fl_scaled s n e =
     (if 0 \<le> e then fl_ratio s (n * 2 ^ nat e) 1 else fl_ratio s n (2 ^ nat (- e)))"

section \<open>The operations\<close>

definition fl_of_int :: "int \<Rightarrow> double" where
  "fl_of_int z = fl_ratio (z < 0) (nat \<bar>z\<bar>) 1"

definition signed_sig :: "bool \<Rightarrow> nat \<Rightarrow> int" where
  "signed_sig s m = (if s then - int m else int m)"

fun fl_add :: "double \<Rightarrow> double \<Rightarrow> double" where
  "fl_add (NaN s) y = NaN s"
| "fl_add x (NaN s) = NaN s"
| "fl_add (Inf s) (Inf t) = (if s = t then Inf s else NaN True)"
| "fl_add (Inf s) y = Inf s"
| "fl_add x (Inf t) = Inf t"
| "fl_add (Fin s m e) (Fin t n f) =
     (let g = min e f;
          z = signed_sig s m * 2 ^ nat (e - g) + signed_sig t n * 2 ^ nat (f - g)
      in if z = 0 then Fin (s \<and> t) 0 (-1074) else fl_scaled (z < 0) (nat \<bar>z\<bar>) g)"

fun fl_div :: "double \<Rightarrow> double \<Rightarrow> double" where
  "fl_div (NaN s) y = NaN s"
| "fl_div x (NaN s) = NaN s"
| "fl_div (Inf s) (Inf t) = NaN True"
| "fl_div (Inf s) (Fin t n f) = Inf (s \<noteq> t)"
| "fl_div (Fin s m e) (Inf t) = Fin (s \<noteq> t) 0 (-1074)"
| "fl_div (Fin s m e) (Fin t n f) =
     (if n = 0 then (if m = 0 then NaN True else Inf (s \<noteq> t))
      else let g = min e f
           in fl_ratio (s \<noteq> t) (m * 2 ^ nat (e - g)) (n * 2 ^ nat (f - g)))"

text \<open>\<open>isnormal\<close> of \<open>math.h\<close>: not zero, subnormal, infinite or NaN.\<close>

fun isnormal :: "double \<Rightarrow> bool" where
  "isnormal (Fin s m e) = (2 ^ 52 \<le> m)"
| "isnormal x = False"

text \<open>\<open>(int64_t) x\<close>: truncation, and \<open>INT64_MIN\<close> where the value does not fit.\<close>

definition int64_min :: int where
  "int64_min = - (2 ^ 63)"

fun fl_to_int64 :: "double \<Rightarrow> int64" where
  "fl_to_int64 (Fin s m e) =
     (let a = (if 0 \<le> e then m * 2 ^ nat e else m div 2 ^ nat (- e));
          z = signed_sig s a
      in if int64_min \<le> z \<and> z < 2 ^ 63 then word_of_int z else word_of_int int64_min)"
| "fl_to_int64 x = word_of_int int64_min"

definition fl_zero :: double where
  "fl_zero = Fin False 0 (-1074)"

section \<open>The binary logarithm\<close>

lemma bitlen_bounds: "n \<noteq> 0 \<Longrightarrow> 2 ^ (bitlen n - 1) \<le> n \<and> n < 2 ^ bitlen n"
proof (induction n rule: bitlen.induct)
  case (1 n)
  show ?case
  proof (cases "n div 2 = 0")
    case True
    with 1(2) have "n = 1" by simp
    then show ?thesis by (simp add: bitlen.simps)
  next
    case False
    with 1 have IH: "2 ^ (bitlen (n div 2) - 1) \<le> n div 2" "n div 2 < 2 ^ bitlen (n div 2)"
      by auto
    from False have pos: "bitlen (n div 2) \<noteq> 0" by (subst bitlen.simps) simp
    then obtain b where b: "bitlen (n div 2) = Suc b" by (cases "bitlen (n div 2)") auto
    from 1(2) b have "bitlen n = Suc (Suc b)" by (subst bitlen.simps) simp
    with IH b show ?thesis by auto
  qed
qed

lemma bitlen_0 [simp]: "bitlen 0 = 0"
  by (simp add: bitlen.simps)

lemma bitlen_Suc_0 [simp]: "bitlen (Suc 0) = 1" "bitlen 1 = 1"
  by (simp_all add: bitlen.simps)

lemma bitlen_pos: "n \<noteq> 0 \<Longrightarrow> 0 < bitlen n"
  by (subst bitlen.simps) simp

lemma pow2_le_int: "0 \<le> k + int j \<Longrightarrow> pow2_le n d k \<longleftrightarrow> d * 2 ^ nat (k + int j) \<le> n * 2 ^ j"
proof (cases "0 \<le> k")
  case True
  then have "nat (k + int j) = nat k + j" by simp
  with True show ?thesis by (simp add: pow2_le_def power_add)
next
  case False
  assume "0 \<le> k + int j"
  with False have "j = nat (k + int j) + nat (- k)" by simp
  then have *: "(2::nat) ^ j = 2 ^ nat (k + int j) * 2 ^ nat (- k)" by (metis power_add)
  have "d * 2 ^ nat (k + int j) \<le> n * 2 ^ j \<longleftrightarrow>
      2 ^ nat (k + int j) * d \<le> 2 ^ nat (k + int j) * (n * 2 ^ nat (- k))"
    by (simp only: * mult_ac)
  also have "\<dots> \<longleftrightarrow> d \<le> n * 2 ^ nat (- k)" by (subst mult_le_cancel1) simp
  finally show ?thesis using False by (simp add: pow2_le_def)
qed

lemma pow2_le_mono:
  assumes "pow2_le n d k" and "l \<le> k"
  shows "pow2_le n d l"
proof -
  define j where "j = nat (- l)"
  have l: "0 \<le> l + int j" and k: "0 \<le> k + int j" using assms(2) by (simp_all add: j_def)
  have "d * 2 ^ nat (l + int j) \<le> d * 2 ^ nat (k + int j)"
    using assms(2) by (intro mult_le_mono2 power_increasing) auto
  with assms(1) show ?thesis
    unfolding pow2_le_int [OF k] pow2_le_int [OF l] by (rule le_trans [rotated])
qed

lemma pow2_le_scale: "0 < c \<Longrightarrow> pow2_le (n * c) (d * c) k = pow2_le n d k"
  by (simp add: pow2_le_def mult.assoc mult.left_commute [of c] mult.commute [of _ c])

lemma ilog2_spec:
  assumes "n \<noteq> 0" and "d \<noteq> 0"
  shows "pow2_le n d (ilog2 n d)" and "\<not> pow2_le n d (ilog2 n d + 1)"
proof -
  define a b where "a = bitlen n" and "b = bitlen d"
  have n: "2 ^ (a - 1) \<le> n" "n < 2 ^ a" and d: "2 ^ (b - 1) \<le> d" "d < 2 ^ b" and pos: "0 < a" "0 < b"
    using bitlen_bounds bitlen_pos assms by (auto simp: a_def b_def)
  have lo: "pow2_le n d (int a - int b - 1)"
  proof -
    have "d * 2 ^ (a - 1) \<le> 2 ^ b * n" using d n by (intro mult_le_mono) auto
    then show ?thesis using pos by (simp add: pow2_le_int [of _ b] mult.commute nat_diff_distrib)
  qed
  have hi: "\<not> pow2_le n d (int a - int b + 1)"
  proof -
    have "n * 2 ^ b < 2 ^ a * 2 ^ b" using n by simp
    also have "\<dots> = 2 * 2 ^ (b - 1) * 2 ^ a" using pos by (cases b) (simp_all add: mult.commute)
    also have "\<dots> \<le> d * 2 ^ (a + 1)" using d(1) by (simp add: mult.commute)
    finally have "\<not> d * 2 ^ (a + 1) \<le> n * 2 ^ b" by simp
    moreover have "nat (int a - int b + 1 + int b) = a + 1" by simp
    ultimately show ?thesis by (subst pow2_le_int [of _ b]) simp_all
  qed
  show "pow2_le n d (ilog2 n d)"
    using lo by (simp add: ilog2_def Let_def a_def b_def)
  show "\<not> pow2_le n d (ilog2 n d + 1)"
    using hi by (simp add: ilog2_def Let_def a_def b_def)
qed

lemma ilog2_unique:
  assumes "n \<noteq> 0" and "d \<noteq> 0" and "pow2_le n d k" and "\<not> pow2_le n d (k + 1)"
  shows "ilog2 n d = k"
proof (rule ccontr)
  assume "ilog2 n d \<noteq> k"
  then consider "ilog2 n d + 1 \<le> k" | "k + 1 \<le> ilog2 n d" by linarith
  then show False
    using ilog2_spec [OF assms(1,2)] assms(3,4) pow2_le_mono by cases blast+
qed

lemma ilog2_scale: "n \<noteq> 0 \<Longrightarrow> d \<noteq> 0 \<Longrightarrow> 0 < c \<Longrightarrow> ilog2 (n * c) (d * c) = ilog2 n d"
  by (rule ilog2_unique) (auto simp: pow2_le_scale ilog2_spec)

lemma div_rne_scale: "0 < c \<Longrightarrow> div_rne (n * c) (d * c) = div_rne n d"
proof -
  assume c: "0 < c"
  have "(n * c) div (d * c) = n div d" "(n * c) mod (d * c) = (n mod d) * c"
    using c by (simp_all add: mult_mod_left)
  moreover have "2 * ((n mod d) * c) < d * c \<longleftrightarrow> 2 * (n mod d) < d"
    using c by (simp flip: mult.assoc)
  moreover have "2 * ((n mod d) * c) = d * c \<longleftrightarrow> 2 * (n mod d) = d"
    using c by (simp flip: mult.assoc)
  ultimately show ?thesis by (simp add: div_rne_def Let_def)
qed

lemma div_rne_exact: "0 < d \<Longrightarrow> div_rne (q * d) d = q"
  by (simp add: div_rne_def)

section \<open>Exact results\<close>

lemma fl_ratio_scale:
  assumes "0 < c" and "0 < d"
  shows "fl_ratio s (n * c) (d * c) = fl_ratio s n d"
proof (cases "n = 0")
  case False
  have log: "ilog2 (n * c) (d * c) = ilog2 n d"
    using False assms by (simp add: ilog2_scale)
  have a: "div_rne (n * c) (d * c * 2 ^ j) = div_rne n (d * 2 ^ j)" for j
    using div_rne_scale [OF assms(1), of n "d * 2 ^ j"] by (simp add: mult_ac)
  have b: "div_rne (n * c * 2 ^ j) (d * c) = div_rne (n * 2 ^ j) d" for j
    using div_rne_scale [OF assms(1), of "n * 2 ^ j" d] by (simp add: mult_ac)
  have "n * c \<noteq> 0" using False assms by simp
  then show ?thesis
    unfolding fl_ratio_def log a b by (simp only: False if_False)
qed (simp add: fl_ratio_def)

lemma fl_scaled_shift: "fl_scaled s (n * 2 ^ j) e = fl_scaled s n (e + int j)"
proof (cases "0 \<le> e")
  case True
  then have "nat (e + int j) = nat e + j" by simp
  with True show ?thesis by (simp add: fl_scaled_def power_add mult_ac)
next
  case neg: False
  show ?thesis
  proof (cases "0 \<le> e + int j")
    case True
    with neg have "j = nat (e + int j) + nat (- e)" by simp
    then have *: "n * 2 ^ j = (n * 2 ^ nat (e + int j)) * 2 ^ nat (- e)"
      by (metis power_add mult.assoc)
    from True neg show ?thesis
      using fl_ratio_scale [of "2 ^ nat (- e)" 1 s "n * 2 ^ nat (e + int j)"]
      unfolding fl_scaled_def * by simp
  next
    case False
    with neg have "nat (- e) = nat (- (e + int j)) + j" by simp
    then have "(2::nat) ^ nat (- e) = 2 ^ nat (- (e + int j)) * 2 ^ j"
      by (simp add: power_add)
    with False neg show ?thesis
      using fl_ratio_scale [of "2 ^ j" "2 ^ nat (- (e + int j))" s n]
      by (simp add: fl_scaled_def)
  qed
qed

lemma ilog2_normal:
  assumes "2 ^ 52 \<le> m" and "m < 2 ^ 53"
  shows "ilog2 (m * 2 ^ j) 1 = int j + 52" and "ilog2 m (2 ^ j) = 52 - int j"
proof -
  have up: "m * c < 2 ^ 53 * c" and lo: "2 ^ 52 * c \<le> m * c" if "0 < c" for c :: nat
    using assms that by simp_all
  show "ilog2 (m * 2 ^ j) 1 = int j + 52"
  proof (rule ilog2_unique)
    show "pow2_le (m * 2 ^ j) 1 (int j + 52)"
      using lo [of "2 ^ j"] by (simp add: pow2_le_def nat_add_distrib power_add)
    show "\<not> pow2_le (m * 2 ^ j) 1 (int j + 52 + 1)"
      using up [of "2 ^ j"] by (simp add: pow2_le_def nat_add_distrib power_add)
  qed (use assms in auto)
  show "ilog2 m (2 ^ j) = 52 - int j"
  proof (rule ilog2_unique)
    show "pow2_le m (2 ^ j) (52 - int j)"
      using lo [of "2 ^ j"] by (subst pow2_le_int [of _ j]) (simp_all add: mult.commute)
    show "\<not> pow2_le m (2 ^ j) (52 - int j + 1)"
      using up [of "2 ^ j"] by (subst pow2_le_int [of _ j]) (simp_all add: mult.commute)
  qed (use assms in auto)
qed

lemma fl_scaled_normal:
  assumes "2 ^ 52 \<le> m" and "m < 2 ^ 53" and "-1074 \<le> e" and "e \<le> 971"
  shows "fl_scaled s m e = Fin s m e"
proof (cases "0 \<le> e")
  case True
  then show ?thesis
    using assms div_rne_exact [of "2 ^ nat e" m] ilog2_normal(1) [OF assms(1,2), of "nat e"]
    by (simp add: fl_scaled_def fl_ratio_def Let_def)
next
  case False
  then show ?thesis
    using assms div_rne_exact [of "2 ^ nat (- e)" m] ilog2_normal(2) [OF assms(1,2), of "nat (- e)"]
    by (simp add: fl_scaled_def fl_ratio_def Let_def)
qed

lemma fl_ratio_one: "fl_ratio s n 1 = fl_scaled s n 0" "fl_ratio s n (Suc 0) = fl_scaled s n 0"
  by (simp_all add: fl_scaled_def)

lemma fl_scaled_0 [simp]: "fl_scaled s 0 e = Fin s 0 (-1074)"
  by (simp add: fl_scaled_def fl_ratio_def)

lemma fl_of_int_0 [simp]: "fl_of_int 0 = fl_zero"
  by (simp add: fl_of_int_def fl_ratio_def fl_zero_def)

text \<open>A small integer is a double whose exponent is not positive.\<close>

lemma fl_of_int_normal:
  assumes "z \<noteq> 0" and "\<bar>z\<bar> < 2 ^ 53"
  obtains k where "k \<le> 52" and "2 ^ 52 \<le> nat \<bar>z\<bar> * 2 ^ k" and "nat \<bar>z\<bar> * 2 ^ k < 2 ^ 53"
    and "fl_of_int z = Fin (z < 0) (nat \<bar>z\<bar> * 2 ^ k) (- int k)"
proof -
  define n where "n = nat \<bar>z\<bar>"
  have n: "n \<noteq> 0" "n < 2 ^ 53" using assms by (auto simp: n_def nat_less_iff)
  define b where "b = bitlen n"
  have b: "0 < b" "2 ^ (b - 1) \<le> n" "n < 2 ^ b"
    using bitlen_bounds bitlen_pos n(1) by (auto simp: b_def)
  have "b - 1 < 53" using b(2) n(2) 
    using power_less_imp_less_exp [of "2::nat" "b - 1" 53] by simp
  then have b53: "b \<le> 53" using b(1) by simp
  define k where "k = 53 - b"
  have lo: "2 ^ 52 \<le> n * 2 ^ k"
  proof -
    have "(2::nat) ^ 52 = 2 ^ (b - 1) * 2 ^ k"
      using b(1) b53 by (simp add: k_def flip: power_add)
    also have "\<dots> \<le> n * 2 ^ k" using b(2) by (rule mult_le_mono1)
    finally show ?thesis .
  qed
  have hi: "n * 2 ^ k < 2 ^ 53"
  proof -
    have "n * 2 ^ k < 2 ^ b * 2 ^ k" using b(3) by simp
    also have "\<dots> = 2 ^ 53" using b53 by (simp add: k_def flip: power_add)
    finally show ?thesis .
  qed
  have "fl_of_int z = fl_scaled (z < 0) (n * 2 ^ k) (- int k)"
    by (simp add: fl_of_int_def fl_ratio_one fl_scaled_shift n_def [symmetric])
  also have "\<dots> = Fin (z < 0) (n * 2 ^ k) (- int k)"
    using lo hi b(1) by (intro fl_scaled_normal) (auto simp: k_def)
  finally show ?thesis
    using that [of k] lo hi b(1) by (auto simp: n_def k_def)
qed

lemma fl_of_int_form:
  assumes "\<bar>z\<bar> < 2 ^ 53"
  obtains k where "k \<le> 1074" and "fl_of_int z = Fin (z < 0) (nat \<bar>z\<bar> * 2 ^ k) (- int k)"
proof (cases "z = 0")
  case True
  then show ?thesis using that [of 1074] by (simp add: fl_zero_def)
next
  case False
  then obtain k where "k \<le> 52" "fl_of_int z = Fin (z < 0) (nat \<bar>z\<bar> * 2 ^ k) (- int k)"
    using fl_of_int_normal [OF False assms] by blast
  then show ?thesis using that [of k] by simp
qed

lemma signed_sig_scale:
  "signed_sig (z < 0) (nat \<bar>z\<bar> * 2 ^ k) * 2 ^ j = z * 2 ^ (k + j)"
  by (auto simp: signed_sig_def power_add)

text \<open>Adding two such integers gives the double nearest to their sum.\<close>

lemma fl_add_of_int:
  assumes "\<bar>a\<bar> < 2 ^ 53" and "\<bar>b\<bar> < 2 ^ 53"
  shows "fl_add (fl_of_int a) (fl_of_int b) = fl_of_int (a + b)"
proof -
  obtain k where k: "fl_of_int a = Fin (a < 0) (nat \<bar>a\<bar> * 2 ^ k) (- int k)"
    using fl_of_int_form [OF assms(1)] by metis
  obtain l where l: "fl_of_int b = Fin (b < 0) (nat \<bar>b\<bar> * 2 ^ l) (- int l)"
    using fl_of_int_form [OF assms(2)] by metis
  define K where "K = max k l"
  have min: "min (- int k) (- int l) = - int K" by (simp add: K_def)
  have exps: "k + nat (- int k + int K) = K" "l + nat (- int l + int K) = K"
    by (simp_all add: K_def)
  have sum: "signed_sig (a < 0) (nat \<bar>a\<bar> * 2 ^ k) * 2 ^ nat (- int k + int K)
      + signed_sig (b < 0) (nat \<bar>b\<bar> * 2 ^ l) * 2 ^ nat (- int l + int K) = (a + b) * 2 ^ K"
    unfolding signed_sig_scale exps by (simp add: algebra_simps)
  have abs: "nat \<bar>(a + b) * 2 ^ K\<bar> = nat \<bar>a + b\<bar> * 2 ^ K"
    by (simp add: abs_mult nat_mult_distrib nat_power_eq)
  have neg: "((a + b) * 2 ^ K < 0) = (a + b < 0)"
    by (simp add: mult_less_0_iff)
  show ?thesis
  proof (cases "a + b = 0")
    case True
    then have "\<not> (a < 0 \<and> b < 0)" by linarith
    moreover from True have "(a + b) * 2 ^ K = 0" by simp
    ultimately show ?thesis
      unfolding k l fl_add.simps Let_def min diff_minus_eq_add sum
      using True by (simp add: fl_zero_def)
  next
    case False
    then have "(a + b) * 2 ^ K \<noteq> 0" by simp
    then show ?thesis
      unfolding k l fl_add.simps Let_def min diff_minus_eq_add sum neg abs
      by (simp only: if_False fl_scaled_shift fl_of_int_def fl_ratio_one) simp
  qed
qed

text \<open>Dividing by a positive count gives the double nearest to the quotient.\<close>

lemma fl_div_of_int:
  assumes "\<bar>a\<bar> < 2 ^ 53" and "0 < c" and "c < 2 ^ 53"
  shows "fl_div (fl_of_int a) (fl_of_int c) = fl_ratio (a < 0) (nat \<bar>a\<bar>) (nat c)"
proof -
  obtain k where k: "fl_of_int a = Fin (a < 0) (nat \<bar>a\<bar> * 2 ^ k) (- int k)"
    using fl_of_int_form [OF assms(1)] by metis
  obtain l where l: "fl_of_int c = Fin (c < 0) (nat \<bar>c\<bar> * 2 ^ l) (- int l)"
    using fl_of_int_form [of c] assms by (metis abs_of_pos)
  define K where "K = max k l"
  have min: "min (- int k) (- int l) = - int K" by (simp add: K_def)
  have exps: "k + nat (- int k + int K) = K" "l + nat (- int l + int K) = K"
    by (simp_all add: K_def)
  have shift: "nat \<bar>a\<bar> * 2 ^ k * 2 ^ nat (- int k + int K) = nat \<bar>a\<bar> * 2 ^ K"
    "nat \<bar>c\<bar> * 2 ^ l * 2 ^ nat (- int l + int K) = nat c * 2 ^ K"
    unfolding mult.assoc power_add [symmetric] exps using assms(2) by simp_all
  have "nat \<bar>c\<bar> * 2 ^ l \<noteq> 0" and "\<not> c < 0" using assms(2) by simp_all
  then have "fl_div (fl_of_int a) (fl_of_int c)
      = fl_ratio (a < 0) (nat \<bar>a\<bar> * 2 ^ K) (nat c * 2 ^ K)"
    unfolding k l fl_div.simps Let_def min diff_minus_eq_add shift by simp
  then show ?thesis using assms(2) by (simp add: fl_ratio_scale)
qed

lemma fl_to_int64_of_int:
  assumes "\<bar>z\<bar> < 2 ^ 53"
  shows "fl_to_int64 (fl_of_int z) = word_of_int z"
proof -
  obtain k where k: "fl_of_int z = Fin (z < 0) (nat \<bar>z\<bar> * 2 ^ k) (- int k)"
    using fl_of_int_form [OF assms] by metis
  have z: "signed_sig (z < 0) (nat \<bar>z\<bar>) = z" by (simp add: signed_sig_def)
  have trunc: "(if 0 \<le> - int k then nat \<bar>z\<bar> * 2 ^ k * 2 ^ nat (- int k)
      else nat \<bar>z\<bar> * 2 ^ k div 2 ^ nat (- (- int k))) = nat \<bar>z\<bar>"
    by simp
  have "int64_min \<le> z \<and> z < 2 ^ 63" using assms by (simp add: int64_min_def abs_less_iff)
  then show ?thesis
    unfolding k fl_to_int64.simps Let_def trunc z by simp
qed

lemma isnormal_of_int:
  assumes "\<bar>z\<bar> < 2 ^ 53"
  shows "isnormal (fl_of_int z) \<longleftrightarrow> z \<noteq> 0"
proof (cases "z = 0")
  case False
  then show ?thesis
    using fl_of_int_normal [OF False assms] by (metis isnormal.simps(1))
qed (simp add: fl_zero_def)

text \<open>The sum of a list, as the loops of the program accumulate it.\<close>

definition fl_sum :: "double list \<Rightarrow> double" where
  "fl_sum xs = foldl fl_add fl_zero xs"

lemma foldl_fl_add_of_int:
  assumes "\<bar>a\<bar> + (\<Sum>z \<leftarrow> zs. \<bar>z\<bar>) < 2 ^ 53"
  shows "foldl fl_add (fl_of_int a) (map fl_of_int zs) = fl_of_int (a + sum_list zs)"
  using assms
proof (induction zs arbitrary: a)
  case (Cons z zs)
  have nonneg: "0 \<le> (\<Sum>z \<leftarrow> zs. \<bar>z\<bar>)" by (induction zs) auto
  with Cons.prems have "\<bar>a\<bar> < 2 ^ 53" "\<bar>z\<bar> < 2 ^ 53" by simp_all
  moreover have "\<bar>a + z\<bar> + (\<Sum>z \<leftarrow> zs. \<bar>z\<bar>) < 2 ^ 53"
    using Cons.prems abs_triangle_ineq [of a z] by simp
  ultimately show ?case using Cons.IH [of "a + z"] by (simp add: fl_add_of_int add.assoc)
qed simp

lemma fl_sum_of_int:
  "(\<Sum>z \<leftarrow> zs. \<bar>z\<bar>) < 2 ^ 53 \<Longrightarrow> fl_sum (map fl_of_int zs) = fl_of_int (sum_list zs)"
  using foldl_fl_add_of_int [of 0 zs] by (simp add: fl_sum_def)

text \<open>Every 64-bit integer converts to zero or to a normal double.\<close>

lemma div_rne_ge: "n div d \<le> div_rne n d"
  by (simp add: div_rne_def Let_def)

lemma fl_of_int_64:
  assumes "z \<noteq> 0" and "\<bar>z\<bar> < 2 ^ 64"
  obtains m e where "fl_of_int z = Fin (z < 0) m e" and "2 ^ 52 \<le> m"
proof -
  define n where "n = nat \<bar>z\<bar>"
  have n: "n \<noteq> 0" "n < 2 ^ 64" using assms by (auto simp: n_def nat_less_iff)
  define l where "l = ilog2 n 1"
  have spec: "pow2_le n 1 l" "\<not> pow2_le n 1 (l + 1)" using ilog2_spec n(1) by (auto simp: l_def)
  have l0: "0 \<le> l"
  proof (rule ccontr)
    assume "\<not> 0 \<le> l"
    then have "pow2_le n 1 (l + 1)" using n(1) pow2_le_mono [of n 1 0 "l + 1"] by (simp add: pow2_le_def)
    with spec show False by blast
  qed
  then have le: "2 ^ nat l \<le> n" using spec by (simp add: pow2_le_def)
  then have l63: "l \<le> 63" using n(2) l0 power_less_imp_less_exp [of "2::nat" "nat l" 64] by simp
  define q where "q = (if 0 \<le> l - 52 then div_rne n (1 * 2 ^ nat (l - 52)) else div_rne (n * 2 ^ nat (- (l - 52))) 1)"
  have q: "2 ^ 52 \<le> q"
  proof (cases "52 \<le> l")
    case True
    have "nat l = 52 + nat (l - 52)" using True by simp
    then have "2 ^ nat l = (2::nat) ^ 52 * 2 ^ nat (l - 52)" by (metis power_add)
    with le have "2 ^ 52 \<le> n div 2 ^ nat (l - 52)" by (simp add: less_eq_div_iff_mult_less_eq)
    then show ?thesis using True div_rne_ge [of n "2 ^ nat (l - 52)"] by (simp add: q_def)
  next
    case False
    have "52 = nat l + nat (- (l - 52))" using False l0 by simp
    then have "(2::nat) ^ 52 = 2 ^ nat l * 2 ^ nat (- (l - 52))" by (metis power_add)
    also have "\<dots> \<le> n * 2 ^ nat (- (l - 52))" using le by (rule mult_le_mono1)
    finally show ?thesis
      using False div_rne_exact [of 1 "n * 2 ^ nat (- (l - 52))"] by (simp add: q_def)
  qed
  have max: "max (-1074) (ilog2 n 1 - 52) = l - 52" using l0 by (simp add: l_def)
  have "fl_ratio (z < 0) n 1
      = Fin (z < 0) (if q = 2 ^ 53 then 2 ^ 52 else q) (if q = 2 ^ 53 then l - 52 + 1 else l - 52)"
    unfolding fl_ratio_def max Let_def q_def [symmetric] using n(1) l63 by simp
  then show ?thesis using that q by (simp add: fl_of_int_def n_def split: if_splits)
qed

end
