(* ===== verification/CStdio.thy ===== *)
theory CStdio
  imports CDouble
begin

text \<open>
  The parts of \<open>stdio.h\<close> and \<open>stdlib.h\<close> the program relies on, in the C locale: the
  conversions \<open>%ld\<close>, \<open>%lu\<close>, \<open>%d\<close> and \<open>%lf\<close> of \<open>printf\<close>, \<open>strtod\<close> with its end
  pointer and its range error, \<open>sscanf(s, "%tu", ..)\<close>, the first line \<open>fgets\<close> reads, and the
  truncation of \<open>snprintf\<close>. The lemmas are the round trip of printed integers through
  \<open>strtod\<close> and the lengths of printed numbers.
\<close>

section \<open>Printing\<close>

definition digit_char :: "nat \<Rightarrow> char" where
  "digit_char d = char_of (48 + d)"

fun nat_digits :: "nat \<Rightarrow> string" where
  "nat_digits n = (if n < 10 then [digit_char n] else nat_digits (n div 10) @ [digit_char (n mod 10)])"

declare nat_digits.simps [simp del]

definition show_int :: "int \<Rightarrow> string" where
  "show_int z = (if z < 0 then CHR ''-'' # nat_digits (nat (- z)) else nat_digits (nat z))"

definition print_ld :: "int64 \<Rightarrow> string" where
  "print_ld w = show_int (sint w)"

definition print_lu :: "int64 \<Rightarrow> string" where
  "print_lu w = nat_digits (unat w)"

definition sign_str :: "bool \<Rightarrow> string" where
  "sign_str s = (if s then ''-'' else [])"

text \<open>\<open>%lf\<close>: six decimals, the exact binary value rounded to nearest, ties to even.\<close>

definition micros :: "nat \<Rightarrow> int \<Rightarrow> nat" where
  "micros m e =
     (if 0 \<le> e then m * 2 ^ nat e * 1000000 else div_rne (m * 1000000) (2 ^ nat (- e)))"

definition pad6 :: "string \<Rightarrow> string" where
  "pad6 s = replicate (6 - length s) CHR ''0'' @ s"

fun print_lf :: "double \<Rightarrow> string" where
  "print_lf (NaN s) = sign_str s @ ''nan''"
| "print_lf (Inf s) = sign_str s @ ''inf''"
| "print_lf (Fin s m e) =
     (let n = micros m e
      in sign_str s @ nat_digits (n div 1000000) @ ''.'' @ pad6 (nat_digits (n mod 1000000)))"

text \<open>\<open>snprintf(buf, size, ..)\<close> with a non-zero size keeps what fits before the final zero.\<close>

definition snprintf :: "nat \<Rightarrow> string \<Rightarrow> string" where
  "snprintf n s = take (n - 1) s"

definition BUFSIZ :: nat where
  "BUFSIZ = 8192"

text \<open>
  \<open>fgets(buf, size, fp)\<close> on the characters left in the stream: the first line with its
  newline, at most \<open>size - 1\<close> characters, \<^term>\<open>None\<close> at the end of the stream.
\<close>

definition fgets :: "nat \<Rightarrow> char list \<Rightarrow> char list option" where
  "fgets n inp =
     (if inp = [] then None
      else Some (take (n - 1)
             (takeWhile (\<lambda>c. c \<noteq> CHR 0x0A) inp @ (if CHR 0x0A \<in> set inp then [CHR 0x0A] else []))))"

section \<open>Scanning\<close>

definition is_digit :: "char \<Rightarrow> bool" where
  "is_digit c \<longleftrightarrow> 48 \<le> (of_char c :: nat) \<and> (of_char c :: nat) \<le> 57"

definition digit_val :: "char \<Rightarrow> nat" where
  "digit_val c = of_char c - 48"

definition to_lower :: "char \<Rightarrow> char" where
  "to_lower c =
     (if 65 \<le> (of_char c :: nat) \<and> (of_char c :: nat) \<le> 90 then char_of ((of_char c :: nat) + 32) else c)"

definition is_xdigit :: "char \<Rightarrow> bool" where
  "is_xdigit c \<longleftrightarrow> is_digit c \<or> (97 \<le> (of_char (to_lower c) :: nat) \<and> (of_char (to_lower c) :: nat) \<le> 102)"

definition xdigit_val :: "char \<Rightarrow> nat" where
  "xdigit_val c = (if is_digit c then digit_val c else of_char (to_lower c) - 87)"

definition num_of :: "nat \<Rightarrow> (char \<Rightarrow> nat) \<Rightarrow> string \<Rightarrow> nat" where
  "num_of base f s = foldl (\<lambda>n c. n * base + f c) 0 s"

fun split_sign :: "string \<Rightarrow> bool \<times> string" where
  "split_sign (c # cs) =
     (if c = CHR ''-'' then (True, cs) else if c = CHR ''+'' then (False, cs) else (False, c # cs))"
| "split_sign [] = (False, [])"

text \<open>Mantissa digits with an optional point: integer part, fraction, rest.\<close>

definition scan_mantissa :: "(char \<Rightarrow> bool) \<Rightarrow> string \<Rightarrow> string \<times> string \<times> string" where
  "scan_mantissa d s =
     (let ip = takeWhile d s; r = dropWhile d s
      in case r of
           [] \<Rightarrow> (ip, [], [])
         | c # cs \<Rightarrow>
             if c = CHR ''.'' \<and> (ip \<noteq> [] \<or> takeWhile d cs \<noteq> [])
             then (ip, takeWhile d cs, dropWhile d cs) else (ip, [], r))"

text \<open>An exponent part is taken only when digits follow its letter.\<close>

definition scan_exponent :: "char \<Rightarrow> string \<Rightarrow> int \<times> string" where
  "scan_exponent letter s =
     (case s of
        [] \<Rightarrow> (0, [])
      | c # cs \<Rightarrow>
          if to_lower c \<noteq> letter then (0, s)
          else let (neg, r) = split_sign cs; ds = takeWhile is_digit r
               in if ds = [] then (0, s)
                  else ((if neg then - int (num_of 10 digit_val ds) else int (num_of 10 digit_val ds)),
                        dropWhile is_digit r))"

text \<open>
  The double nearest to \<open>n * base ^ k\<close>, and whether \<open>strtod\<close> reports \<open>ERANGE\<close> for it: it
  overflowed, or it is below the normal range and was rounded.
\<close>

definition range_error :: "nat \<Rightarrow> nat \<Rightarrow> double \<Rightarrow> bool" where
  "range_error n d x =
     (case x of
        Fin s m e \<Rightarrow> m < 2 ^ 52 \<and> m * d \<noteq> n * 2 ^ nat (- e)
      | Inf s \<Rightarrow> True
      | NaN s \<Rightarrow> False)"

definition fl_of_sci :: "bool \<Rightarrow> nat \<Rightarrow> nat \<Rightarrow> int \<Rightarrow> double \<times> bool" where
  "fl_of_sci s base n k =
     (let num = (if 0 \<le> k then n * base ^ nat k else n);
          den = (if 0 \<le> k then 1 else base ^ nat (- k));
          x = fl_ratio s num den
      in (x, range_error num den x))"

definition ci_prefix :: "string \<Rightarrow> string \<Rightarrow> bool" where
  "ci_prefix p s \<longleftrightarrow> map to_lower (take (length p) s) = p"

definition nan_rest :: "string \<Rightarrow> string" where
  "nan_rest s =
     (case s of
        [] \<Rightarrow> []
      | c # cs \<Rightarrow>
          let r = dropWhile (\<lambda>c. is_digit c \<or> (97 \<le> (of_char (to_lower c) :: nat)
                    \<and> (of_char (to_lower c) :: nat) \<le> 122) \<or> c = CHR ''_'') cs
          in if c = CHR ''('' \<and> r \<noteq> [] \<and> hd r = CHR '')'' then tl r else s)"

definition strtod_dec :: "bool \<Rightarrow> string \<Rightarrow> (double \<times> bool \<times> string) option" where
  "strtod_dec neg s =
     (let (ip, fp, r) = scan_mantissa is_digit s
      in if ip @ fp = [] then None
         else let (k, r') = scan_exponent (CHR ''e'') r;
                  (x, er) = fl_of_sci neg 10 (num_of 10 digit_val (ip @ fp)) (k - int (length fp))
              in Some (x, er, r'))"

definition strtod_hex :: "bool \<Rightarrow> string \<Rightarrow> (double \<times> bool \<times> string) option" where
  "strtod_hex neg s =
     (let (ip, fp, r) = scan_mantissa is_xdigit s
      in if ip @ fp = [] then None
         else let (k, r') = scan_exponent (CHR ''p'') r;
                  (x, er) = fl_of_sci neg 2 (num_of 16 xdigit_val (ip @ fp)) (k - 4 * int (length fp))
              in Some (x, er, r'))"

definition strtod_mag :: "bool \<Rightarrow> string \<Rightarrow> (double \<times> bool \<times> string) option" where
  "strtod_mag neg s =
     (if ci_prefix ''infinity'' s then Some (Inf neg, False, drop 8 s)
      else if ci_prefix ''inf'' s then Some (Inf neg, False, drop 3 s)
      else if ci_prefix ''nan'' s then Some (NaN neg, False, nan_rest (drop 3 s))
      else if ci_prefix ''0x'' s then
        (case strtod_hex neg (drop 2 s) of None \<Rightarrow> strtod_dec neg s | Some v \<Rightarrow> Some v)
      else strtod_dec neg s)"

text \<open>
  \<open>strtod(s, &end)\<close> with \<open>errno\<close> cleared before: the value, whether \<open>errno\<close> is set, and the
  string at \<open>end\<close>. When nothing converts the value is zero, \<open>errno\<close> stays clear (as glibc
  leaves it) and \<open>end\<close> is \<open>s\<close>.
\<close>

definition strtod :: "string \<Rightarrow> double \<times> bool \<times> string" where
  "strtod s =
     (let (neg, r) = split_sign (dropWhile is_space s)
      in case strtod_mag neg r of None \<Rightarrow> (fl_zero, False, s) | Some v \<Rightarrow> v)"

text \<open>
  \<open>sscanf(s, "%tu", &t)\<close>: the value stored, \<^term>\<open>None\<close> when nothing matches and \<open>t\<close> keeps
  its value. Out of range gives \<open>ULONG_MAX\<close>, a minus sign negates modulo \<open>2 ^ 64\<close>.
\<close>

definition sscanf_tu :: "string \<Rightarrow> time_t option" where
  "sscanf_tu s =
     (let (neg, r) = split_sign (dropWhile is_space s);
          ds = takeWhile is_digit r; n = num_of 10 digit_val ds
      in if ds = [] then None
         else if 2 ^ 64 \<le> n then Some (- 1)
         else Some (if neg then - of_nat n else of_nat n))"

section \<open>Printed integers scan back\<close>

lemma is_digit_digit_char: "d < 10 \<Longrightarrow> is_digit (digit_char d)"
  by (simp add: is_digit_def digit_char_def of_char_of)

lemma digit_val_digit_char: "d < 10 \<Longrightarrow> digit_val (digit_char d) = d"
  by (simp add: digit_val_def digit_char_def of_char_of)

lemma nat_digits_nonempty [simp]: "nat_digits n \<noteq> []"
  by (subst nat_digits.simps) simp

lemma nat_digits_are_digits: "c \<in> set (nat_digits n) \<Longrightarrow> is_digit c"
proof (induction n rule: nat_digits.induct)
  case (1 n)
  then show ?case
    by (subst (asm) (2) nat_digits.simps) (auto simp: is_digit_digit_char split: if_splits)
qed

lemma num_of_append [simp]: "num_of b f (s @ [c]) = num_of b f s * b + f c"
  by (simp add: num_of_def)

lemma num_of_nat_digits [simp]: "num_of 10 digit_val (nat_digits n) = n"
proof (induction n rule: nat_digits.induct)
  case (1 n)
  show ?case
  proof (cases "n < 10")
    case True
    then show ?thesis by (subst nat_digits.simps) (simp add: num_of_def digit_val_digit_char)
  next
    case False
    with 1 show ?thesis by (subst nat_digits.simps) (simp add: digit_val_digit_char)
  qed
qed

lemma length_nat_digits: "n < 10 ^ k \<Longrightarrow> 0 < k \<Longrightarrow> length (nat_digits n) \<le> k"
proof (induction n arbitrary: k rule: nat_digits.induct)
  case (1 n)
  show ?case
  proof (cases "n < 10")
    case True
    with 1(3) show ?thesis by (subst nat_digits.simps) simp
  next
    case False
    with 1(2,3) obtain j where k: "k = Suc j" "0 < j" by (cases k; cases "k - 1") auto
    with 1(2) have "n div 10 < 10 ^ j" by (simp add: less_mult_imp_div_less)
    with 1(1) [OF False] k have "length (nat_digits (n div 10)) \<le> j" by simp
    with False k show ?thesis by (subst nat_digits.simps) simp
  qed
qed

lemma takeWhile_digits: "r = [] \<or> \<not> is_digit (hd r) \<Longrightarrow> takeWhile is_digit (nat_digits n @ r) = nat_digits n"
  by (cases r) (auto simp: takeWhile_append2 nat_digits_are_digits takeWhile_tail)

lemma dropWhile_digits: "r = [] \<or> \<not> is_digit (hd r) \<Longrightarrow> dropWhile is_digit (nat_digits n @ r) = r"
  by (cases r) (auto simp: dropWhile_append2 nat_digits_are_digits)

text \<open>A character that cannot continue a printed integer for \<open>strtod\<close>.\<close>

definition ends_int :: "string \<Rightarrow> bool" where
  "ends_int r \<longleftrightarrow> r = [] \<or> (\<not> is_digit (hd r) \<and> hd r \<noteq> CHR ''.''
      \<and> to_lower (hd r) \<noteq> CHR ''e'' \<and> to_lower (hd r) \<noteq> CHR ''x'')"

lemma strtod_dec_digits:
  assumes "ends_int r"
  shows "strtod_dec neg (nat_digits n @ r) =
           Some (fl_ratio neg n 1, range_error n 1 (fl_ratio neg n 1), r)"
proof -
  have stop: "r = [] \<or> \<not> is_digit (hd r)" using assms by (auto simp: ends_int_def)
  have "scan_mantissa is_digit (nat_digits n @ r) = (nat_digits n, [], r)"
    unfolding scan_mantissa_def Let_def takeWhile_digits [OF stop] dropWhile_digits [OF stop]
    using assms by (auto simp: ends_int_def split: list.splits)
  moreover have "scan_exponent (CHR ''e'') r = (0, r)"
    using assms by (cases r) (auto simp: scan_exponent_def ends_int_def)
  ultimately show ?thesis by (simp add: strtod_dec_def fl_of_sci_def Let_def)
qed

lemma digit_not_letter:
  assumes "is_digit c"
  shows "to_lower c = c" "c \<noteq> CHR ''i''" "c \<noteq> CHR ''n''" "\<not> is_space c" "c \<noteq> CHR ''-''" "c \<noteq> CHR ''+''"
  using assms by (auto simp: is_digit_def to_lower_def is_space_def)

lemma ci_prefix_Cons: "ci_prefix (p # ps) (c # cs) \<longleftrightarrow> to_lower c = p \<and> ci_prefix ps cs"
  by (simp add: ci_prefix_def)

lemma hd_nat_digits: "\<exists>c cs. nat_digits n = c # cs \<and> is_digit c"
  using nat_digits_are_digits [of _ n] by (cases "nat_digits n") auto

lemma no_hex_start: "ends_int r \<Longrightarrow> \<not> ci_prefix ''0x'' (nat_digits n @ r)"
proof -
  assume r: "ends_int r"
  obtain c cs where c: "nat_digits n = c # cs" "is_digit c" using hd_nat_digits by blast
  have "to_lower d \<noteq> CHR ''x''" if "cs @ r = d # ds" for d ds
  proof (cases cs)
    case Nil
    with that r show ?thesis by (auto simp: ends_int_def)
  next
    case (Cons a as)
    with that c have "is_digit d" using nat_digits_are_digits [of d n] by auto
    then show ?thesis by (simp add: digit_not_letter) (auto simp: is_digit_def)
  qed
  then show ?thesis using c
    by (cases "cs @ r") (auto simp: ci_prefix_Cons, auto simp: ci_prefix_def)
qed

lemma strtod_mag_digits:
  assumes "ends_int r"
  shows "strtod_mag neg (nat_digits n @ r) =
           Some (fl_ratio neg n 1, range_error n 1 (fl_ratio neg n 1), r)"
proof -
  obtain c cs where c: "nat_digits n = c # cs" "is_digit c" using hd_nat_digits by blast
  have "\<not> ci_prefix ''infinity'' (nat_digits n @ r)" "\<not> ci_prefix ''inf'' (nat_digits n @ r)"
    "\<not> ci_prefix ''nan'' (nat_digits n @ r)"
    using digit_not_letter [OF c(2)] c(1) by (auto simp: ci_prefix_Cons)
  then show ?thesis
    by (simp add: strtod_mag_def no_hex_start [OF assms] strtod_dec_digits [OF assms])
qed

lemma strtod_show_int:
  assumes "ends_int r"
  shows "strtod (show_int z @ r) = (fl_of_int z, range_error (nat \<bar>z\<bar>) 1 (fl_of_int z), r)"
proof -
  obtain c cs where c: "nat_digits (nat \<bar>z\<bar>) = c # cs" "is_digit c" using hd_nat_digits by blast
  note nl = digit_not_letter [OF c(2)]
  show ?thesis
  proof (cases "z < 0")
    case True
    then have *: "show_int z @ r = CHR ''-'' # nat_digits (nat \<bar>z\<bar>) @ r" by (simp add: show_int_def)
    have "\<not> is_space (CHR ''-'')" by (simp add: is_space_def)
    then have "split_sign (dropWhile is_space (show_int z @ r)) = (True, nat_digits (nat \<bar>z\<bar>) @ r)"
      by (simp add: *)
    with True show ?thesis by (simp add: strtod_def strtod_mag_digits [OF assms] fl_of_int_def)
  next
    case False
    then have *: "show_int z @ r = nat_digits (nat \<bar>z\<bar>) @ r" by (simp add: show_int_def)
    have "split_sign (dropWhile is_space (show_int z @ r)) = (False, nat_digits (nat \<bar>z\<bar>) @ r)"
      using nl by (simp add: * c(1))
    with False show ?thesis by (simp add: strtod_def strtod_mag_digits [OF assms] fl_of_int_def)
  qed
qed

lemma range_error_int64:
  assumes "\<bar>z\<bar> < 2 ^ 64"
  shows "\<not> range_error (nat \<bar>z\<bar>) 1 (fl_of_int z)"
proof (cases "z = 0")
  case False
  obtain m e where "fl_of_int z = Fin (z < 0) m e" "2 ^ 52 \<le> m" using fl_of_int_64 [OF False assms] .
  then show ?thesis by (simp add: range_error_def)
qed (simp add: range_error_def fl_zero_def)

lemma strtod_show_int64:
  "ends_int r \<Longrightarrow> \<bar>z\<bar> < 2 ^ 64 \<Longrightarrow> strtod (show_int z @ r) = (fl_of_int z, False, r)"
  using range_error_int64 [of z] by (simp add: strtod_show_int)

lemma strtod_Nil [simp]: "strtod [] = (fl_zero, False, [])"
  by (simp add: strtod_def strtod_mag_def ci_prefix_def strtod_dec_def scan_mantissa_def)

lemma show_int_nonempty [simp]: "show_int z \<noteq> []"
  by (simp add: show_int_def)

lemma strtod_zero [simp]: "strtod ''0'' = (fl_zero, False, [])"
  by code_simp

end
