(* ===== verification/Values.thy ===== *)
theory Values
  imports Containers CStdio
begin

text \<open>
  Monitor values, src/rb_value.h and the constructors of src/rb_value.c: a scalar with its
  timestamp, or a vector whose children may be missing and which may carry the result of its
  split operation. The accessors of the C union check which member is active, as
  \<open>Bad_member\<close> outcomes.
\<close>

text \<open>
  Where the value layer allocates memory. A run is given by a function that says which of its
  allocations succeed.
\<close>

datatype alloc_site =
    At_scalar            \<comment> \<open>\<open>rd_calloc_struct\<close> of a scalar value\<close>
  | At_child nat         \<comment> \<open>the same, for child \<open>i\<close> of a vector\<close>
  | At_split_op          \<comment> \<open>the same, for the result of a split operation\<close>
  | At_children          \<comment> \<open>the array of children\<close>
  | At_array             \<comment> \<open>the vector itself\<close>
  | At_matheval_vars     \<comment> \<open>\<open>new_libmatheval_vars\<close>\<close>
  | At_evaluator         \<comment> \<open>\<open>evaluator_create\<close>\<close>
  | At_select            \<comment> \<open>\<open>rb_monitor_value_array_select\<close>\<close>
  | At_messages          \<comment> \<open>\<open>new_messages_array\<close>\<close>
  | At_printbuf nat      \<comment> \<open>the buffer of message \<open>i\<close>\<close>

type_synonym mem = "alloc_site \<Rightarrow> bool"

abbreviation no_oom :: mem where
  "no_oom \<equiv> (\<lambda>_. True)"

section \<open>The type\<close>

record scalar =
  timestamp :: time_t
  val :: double
  bad_value :: bool
  string_value :: string

datatype monitor_value =
    MV_value scalar
  | MV_array "monitor_value option list" "monitor_value option"   \<comment> \<open>children, \<open>split_op_result\<close>\<close>

definition is_value :: "monitor_value \<Rightarrow> bool" where
  "is_value mv = (case mv of MV_value _ \<Rightarrow> True | MV_array _ _ \<Rightarrow> False)"

definition children_count :: "monitor_value \<Rightarrow> nat" where
  "children_count mv = (case mv of MV_value _ \<Rightarrow> 0 | MV_array cs _ \<Rightarrow> length cs)"

text \<open>\<open>mv->value\<close>: the scalar member of the union.\<close>

definition scalar_of :: "monitor_value \<Rightarrow> scalar outcome" where
  "scalar_of mv = (case mv of MV_value v \<Rightarrow> Inr v | MV_array _ _ \<Rightarrow> Inl Bad_member)"

lemma scalar_of_simps [simp, value_simps]:
  "scalar_of (MV_value v) = Inr v"
  "scalar_of (MV_array cs sp) = Inl Bad_member"
  by (simp_all add: scalar_of_def)

lemma is_value_simps [simp, value_simps]:
  "is_value (MV_value v)"
  "\<not> is_value (MV_array cs sp)"
  by (simp_all add: is_value_def)

lemma is_valueE: "is_value mv \<Longrightarrow> (\<And>v. mv = MV_value v \<Longrightarrow> P) \<Longrightarrow> P"
  by (cases mv) auto

section \<open>Constructors\<close>

text \<open>\<open>process_novector_monitor\<close> of src/rb_sensor_monitor.c: a scalar from its text and number.\<close>

definition process_novector_monitor ::
    "bool \<Rightarrow> string \<Rightarrow> double \<Rightarrow> time_t \<Rightarrow> monitor_value option" where
  "process_novector_monitor mem value_buf v now =
     (if mem then Some (MV_value \<lparr>timestamp = now, val = v, bad_value = False,
                                  string_value = value_buf\<rparr>)
      else None)"

definition new_monitor_value_array ::
    "bool \<Rightarrow> monitor_value option list \<Rightarrow> monitor_value option \<Rightarrow> monitor_value option" where
  "new_monitor_value_array mem children split_op =
     (if mem then Some (MV_array children split_op) else None)"

section \<open>Timestamps\<close>

text \<open>
  \<open>rb_monitor_value_cmp_timestamp\<close> subtracts two \<open>time_t\<close> and returns an \<open>int64_t\<close>; its callers
  ask whether the result is negative. Overflow wraps here (C leaves it undefined).
\<close>

definition rb_monitor_value_cmp_timestamp :: "scalar \<Rightarrow> scalar \<Rightarrow> int64" where
  "rb_monitor_value_cmp_timestamp m1 m2 = timestamp m1 - timestamp m2"

definition older :: "scalar \<Rightarrow> scalar \<Rightarrow> bool" where
  "older m1 m2 \<longleftrightarrow> sint (rb_monitor_value_cmp_timestamp m1 m2) < 0"

lemma sint_diff_nonneg:
  fixes x y :: int64
  assumes "0 \<le> sint x" and "0 \<le> sint y"
  shows "sint (x - y) = sint x - sint y"
proof -
  have "sint x < 2 ^ 63" "sint y < 2 ^ 63"
    using sint_range_size [of x] sint_range_size [of y] by (simp_all add: size_word.rep_eq)
  then show ?thesis
    using assms by (simp add: sint_word_ariths signed_take_bit_int_eq_self)
qed

lemma older_iff:
  "0 \<le> sint (timestamp m1) \<Longrightarrow> 0 \<le> sint (timestamp m2) \<Longrightarrow>
     older m1 m2 \<longleftrightarrow> sint (timestamp m1) < sint (timestamp m2)"
  by (simp add: older_def rb_monitor_value_cmp_timestamp_def sint_diff_nonneg)

section \<open>Arrays of values\<close>

type_synonym values_array = "monitor_value rb_array"

text \<open>\<open>pos_array_length\<close>: the entries before the \<open>-1\<close> that ends a position list.\<close>

fun pos_array_length :: "int list \<Rightarrow> nat outcome" where
  "pos_array_length [] = Inl Out_of_bounds"
| "pos_array_length (p # ps) =
     (if p = - 1 then Inr 0 else obind (pos_array_length ps) (\<lambda>n. Inr (Suc n)))"

text \<open>
  The second loop of \<open>rb_monitor_value_array_select\<close>, which copies pointers: the type of what they
  point to is left open.
\<close>

fun select_loop :: "'a rb_array \<Rightarrow> int list \<Rightarrow> 'a rb_array \<Rightarrow> 'a rb_array outcome" where
  "select_loop array [] ret = Inl Out_of_bounds"
| "select_loop array (p # ps) ret =
     (if p = - 1 then Inr ret
      else if p < 0 then Inl Out_of_bounds
      else obind (elm_at array (nat p)) (\<lambda>e.
           obind (rb_array_add ret e) (\<lambda>ret'. select_loop array ps ret')))"

definition rb_monitor_value_array_select ::
    "bool \<Rightarrow> 'a rb_array option \<Rightarrow> int list option \<Rightarrow> 'a rb_array option outcome" where
  "rb_monitor_value_array_select mem array pos =
     (case (pos, array) of
        (Some ps, Some a) \<Rightarrow>
          obind (pos_array_length ps) (\<lambda>ret_size.
            (case rb_array_new mem ret_size of
               None \<Rightarrow> Inr None
             | Some ret \<Rightarrow> obind (select_loop a ps ret) (\<lambda>r. Inr (Some r))))
      | _ \<Rightarrow> Inr None)"

text \<open>A position list as the dependencies are stored: positions, then \<open>-1\<close>.\<close>

definition pos_list :: "nat list \<Rightarrow> int list" where
  "pos_list ps = map int ps @ [- 1]"

lemma pos_array_length_pos_list [simp]: "pos_array_length (pos_list ps) = Inr (length ps)"
  by (induction ps) (simp_all add: pos_list_def)

lemma select_loop_pos_list:
  assumes "\<forall>p \<in> set ps. p < length (elms a)"
  shows "select_loop a (pos_list ps) ret =
           rb_arr.add_all (Inr ret) (map (\<lambda>p. elms a ! p) ps)"
  using assms
proof (induction ps arbitrary: ret)
  case (Cons p ps)
  have eq: "pos_list (p # ps) = int p # pos_list ps" by (simp add: pos_list_def)
  have "elm_at a p = Inr (elms a ! p)" using Cons.prems by (simp add: elm_at_def)
  then show ?case
    using Cons by (cases "rb_array_add ret (elms a ! p)") (simp_all add: eq rb_arr.add_all_Cons)
qed (simp add: pos_list_def)

end
