(* ===== verification/Json.thy ===== *)
theory Json
  imports CStdio "HOL-Library.AList"
begin

text \<open>
  JSON objects as src/rb_json.h and src/rb_json.c use them. The json-c library is not part of the
  program: its functions are the fields of a record that every definition takes as an argument,
  and \<open>json_c_ok\<close> states the documented behaviour some theorems rely on. A pointer to a JSON
  object is an \<^typ>\<open>'j option\<close>, \<^term>\<open>None\<close> being the null pointer, which json-c also uses for
  the JSON value null.
\<close>

datatype json_type =
  Json_null | Json_boolean | Json_double | Json_int | Json_object | Json_array | Json_string

record 'j json_c =
  jc_get :: "'j option \<Rightarrow> string \<Rightarrow> 'j option option"   \<comment> \<open>\<open>json_object_object_get_ex\<close>\<close>
  jc_members :: "'j \<Rightarrow> (string \<times> 'j option) list"       \<comment> \<open>what an iterator visits\<close>
  jc_type :: "'j option \<Rightarrow> json_type"
  jc_string :: "'j option \<Rightarrow> string option"               \<comment> \<open>\<open>json_object_get_string\<close>\<close>
  jc_int64 :: "'j option \<Rightarrow> int64 \<times> bool"               \<comment> \<open>the value; whether \<open>errno\<close> is set\<close>
  jc_boolean :: "'j option \<Rightarrow> bool"
  jc_double :: "'j option \<Rightarrow> double"
  jc_new_object :: 'j
  jc_new_string :: "string \<Rightarrow> 'j"
  jc_new_int64 :: "int64 \<Rightarrow> 'j"
  jc_add :: "'j \<Rightarrow> string \<Rightarrow> 'j option \<Rightarrow> 'j"           \<comment> \<open>\<open>json_object_object_add\<close>\<close>
  jc_array_length :: "'j option \<Rightarrow> nat"
  jc_array_idx :: "'j option \<Rightarrow> nat \<Rightarrow> 'j option"
  jc_sprintbuf :: "string \<Rightarrow> string \<Rightarrow> string"           \<comment> \<open>\<open>sprintbuf\<close> of formatted text\<close>

section \<open>Documented behaviour\<close>

text \<open>
  A new object is empty; adding a member binds its key and leaves the other keys alone; the
  iterator visits every member once; the text printed into a \<open>printbuf\<close> goes to its end.
\<close>

definition json_objects_ok :: "'j json_c \<Rightarrow> bool" where
  "json_objects_ok J \<longleftrightarrow>
     jc_type J (Some (jc_new_object J)) = Json_object \<and>
     jc_members J (jc_new_object J) = [] \<and>
     (\<forall>j k v. jc_type J (Some j) = Json_object \<longrightarrow>
        jc_type J (Some (jc_add J j k v)) = Json_object \<and>
        map_of (jc_members J (jc_add J j k v)) = (map_of (jc_members J j))(k \<mapsto> v)) \<and>
     (\<forall>j k. jc_type J (Some j) = Json_object \<longrightarrow>
        jc_get J (Some j) k = map_of (jc_members J j) k) \<and>
     (\<forall>j. jc_type J (Some j) = Json_object \<longrightarrow> distinct (map fst (jc_members J j)))"

definition printbuf_appends :: "'j json_c \<Rightarrow> bool" where
  "printbuf_appends J \<longleftrightarrow> (\<forall>b s. jc_sprintbuf J b s = b @ s)"

section \<open>rb_json\<close>

text \<open>\<open>PARSE_CJSON_CHILD0\<close>: the callback on a child that is there and is not null.\<close>

definition parse_cjson_child0 :: "'j json_c \<Rightarrow> 'j option \<Rightarrow> string \<Rightarrow> ('j \<Rightarrow> 'a) \<Rightarrow> 'a \<Rightarrow> 'a" where
  "parse_cjson_child0 J base child_key cb default_value =
     (case jc_get J base child_key of Some (Some v) \<Rightarrow> cb v | _ \<Rightarrow> default_value)"

definition parse_cjson_child_int64 :: "'j json_c \<Rightarrow> 'j option \<Rightarrow> string \<Rightarrow> int64 \<Rightarrow> int64" where
  "parse_cjson_child_int64 J base child_key default_value =
     parse_cjson_child0 J base child_key (\<lambda>v. fst (jc_int64 J (Some v))) default_value"

text \<open>\<open>strdup\<close> of the child's string: \<open>mem\<close> says whether it can allocate.\<close>

definition json_object_get_dup_string :: "'j json_c \<Rightarrow> bool \<Rightarrow> 'j \<Rightarrow> string option outcome" where
  "json_object_get_dup_string J mem j =
     (case jc_string J (Some j) of
        None \<Rightarrow> Inl Null_deref
      | Some s \<Rightarrow> Inr (if mem then Some s else None))"

definition parse_cjson_child_dup_str ::
    "'j json_c \<Rightarrow> bool \<Rightarrow> 'j option \<Rightarrow> string \<Rightarrow> string option outcome" where
  "parse_cjson_child_dup_str J mem base child_key =
     parse_cjson_child0 J base child_key (json_object_get_dup_string J mem) (Inr None)"

definition parse_cjson_child_str :: "'j json_c \<Rightarrow> 'j option \<Rightarrow> string \<Rightarrow> string option" where
  "parse_cjson_child_str J base child_key =
     parse_cjson_child0 J base child_key (\<lambda>v. jc_string J (Some v)) None"

definition json_object_copy0_childs :: "'j json_c \<Rightarrow> 'j \<Rightarrow> 'j \<Rightarrow> 'j" where
  "json_object_copy0_childs J dst orig =
     foldl (\<lambda>d (key, val). jc_add J d key val) dst (jc_members J orig)"

definition json_object_object_copy :: "'j json_c \<Rightarrow> bool \<Rightarrow> 'j option \<Rightarrow> 'j option" where
  "json_object_object_copy J mem orig =
     (case orig of
        None \<Rightarrow> None
      | Some o' \<Rightarrow>
          if jc_type J orig \<noteq> Json_object then None
          else if mem then Some (json_object_copy0_childs J (jc_new_object J) o') else None)"

text \<open>The object after the call, and the value returned.\<close>

definition add_json_child0 :: "'j json_c \<Rightarrow> 'j \<Rightarrow> string \<Rightarrow> 'j option \<Rightarrow> 'j \<times> bool" where
  "add_json_child0 J root key child =
     (case child of
        None \<Rightarrow> (root, False)
      | Some c \<Rightarrow> (jc_add J root key (Some c), True))"

definition add_json_string :: "'j json_c \<Rightarrow> bool \<Rightarrow> 'j \<Rightarrow> string \<Rightarrow> string \<Rightarrow> 'j \<times> bool" where
  "add_json_string J mem root key val =
     add_json_child0 J root key (if mem then Some (jc_new_string J val) else None)"

definition add_json_int64 :: "'j json_c \<Rightarrow> bool \<Rightarrow> 'j \<Rightarrow> string \<Rightarrow> int64 \<Rightarrow> 'j \<times> bool" where
  "add_json_int64 J mem root key val =
     add_json_child0 J root key (if mem then Some (jc_new_int64 J val) else None)"

section \<open>Copies\<close>

lemma json_members_add_all:
  assumes "json_objects_ok J" and "jc_type J (Some d) = Json_object"
  shows "jc_type J (Some (foldl (\<lambda>d (key, val). jc_add J d key val) d ms)) = Json_object
    \<and> map_of (jc_members J (foldl (\<lambda>d (key, val). jc_add J d key val) d ms))
        = map_of (jc_members J d) ++ map_of (rev ms)"
  using assms(2)
proof (induction ms arbitrary: d)
  case (Cons m ms)
  obtain k v where m: "m = (k, v)" by (cases m)
  have d: "jc_type J (Some (jc_add J d k v)) = Json_object"
    "map_of (jc_members J (jc_add J d k v)) = (map_of (jc_members J d))(k \<mapsto> v)"
    using assms(1) Cons.prems by (auto simp: json_objects_ok_def)
  show ?case
    using Cons.IH [OF d(1)] unfolding m d(2) by (simp add: map_add_def fun_eq_iff split: option.splits)
qed simp

lemma json_object_copy_lookup:
  assumes "json_objects_ok J" and "jc_type J (Some j) = Json_object"
  obtains c where "json_object_object_copy J True (Some j) = Some c"
    and "jc_type J (Some c) = Json_object" and "jc_get J (Some c) k = jc_get J (Some j) k"
proof -
  define c where "c = json_object_copy0_childs J (jc_new_object J) j"
  have new: "jc_type J (Some (jc_new_object J)) = Json_object" "jc_members J (jc_new_object J) = []"
    and dist: "distinct (map fst (jc_members J j))"
    using assms by (auto simp: json_objects_ok_def)
  have c: "jc_type J (Some c) = Json_object" "map_of (jc_members J c) = map_of (rev (jc_members J j))"
    using json_members_add_all [OF assms(1) new(1), of "jc_members J j"] new(2)
    by (simp_all add: c_def json_object_copy0_childs_def)
  have "map_of (rev (jc_members J j)) = map_of (jc_members J j)"
    using dist by (subst map_of_inject_set) (auto simp flip: rev_map)
  moreover have "jc_get J (Some x) k = map_of (jc_members J x) k" if "jc_type J (Some x) = Json_object" for x
    using assms(1) that by (simp add: json_objects_ok_def)
  ultimately have "jc_get J (Some c) k = jc_get J (Some j) k" using c assms(2) by simp
  with c(1) that show ?thesis using assms(2) by (simp add: json_object_object_copy_def c_def)
qed

section \<open>A concrete instance, for evaluation\<close>

text \<open>JSON values as trees; it shows that the hypotheses above can hold.\<close>

datatype jv =
    JBool bool
  | JInt int64
  | JDouble double
  | JString string
  | JArray "jv option list"
  | JObject "(string \<times> jv option) list"

fun jv_type :: "jv option \<Rightarrow> json_type" where
  "jv_type None = Json_null"
| "jv_type (Some (JBool b)) = Json_boolean"
| "jv_type (Some (JInt i)) = Json_int"
| "jv_type (Some (JDouble d)) = Json_double"
| "jv_type (Some (JString s)) = Json_string"
| "jv_type (Some (JArray a)) = Json_array"
| "jv_type (Some (JObject m)) = Json_object"

fun jv_members :: "jv \<Rightarrow> (string \<times> jv option) list" where
  "jv_members (JObject m) = AList.clearjunk m"
| "jv_members j = []"

definition jv_get :: "jv option \<Rightarrow> string \<Rightarrow> jv option option" where
  "jv_get j k = (case j of Some (JObject m) \<Rightarrow> map_of m k | _ \<Rightarrow> None)"

fun jv_add :: "jv \<Rightarrow> string \<Rightarrow> jv option \<Rightarrow> jv" where
  "jv_add (JObject m) k v = JObject (AList.update k v m)"
| "jv_add j k v = j"

definition jv_string :: "jv option \<Rightarrow> string option" where
  "jv_string j = (case j of None \<Rightarrow> None | Some (JString s) \<Rightarrow> Some s
     | Some (JInt i) \<Rightarrow> Some (print_ld i) | Some _ \<Rightarrow> Some ''?'')"

definition jv_int64 :: "jv option \<Rightarrow> int64 \<times> bool" where
  "jv_int64 j = (case j of Some (JInt i) \<Rightarrow> (i, False) | _ \<Rightarrow> (0, True))"

definition jv_api :: "jv json_c" where
  "jv_api = \<lparr>
     jc_get = jv_get, jc_members = jv_members, jc_type = jv_type, jc_string = jv_string,
     jc_int64 = jv_int64,
     jc_boolean = (\<lambda>j. case j of Some (JBool b) \<Rightarrow> b | _ \<Rightarrow> False),
     jc_double = (\<lambda>j. case j of Some (JDouble d) \<Rightarrow> d | _ \<Rightarrow> fl_zero),
     jc_new_object = JObject [], jc_new_string = JString, jc_new_int64 = JInt, jc_add = jv_add,
     jc_array_length = (\<lambda>j. case j of Some (JArray a) \<Rightarrow> length a | _ \<Rightarrow> 0),
     jc_array_idx = (\<lambda>j i. case j of Some (JArray a) \<Rightarrow> (if i < length a then a ! i else None) | _ \<Rightarrow> None),
     jc_sprintbuf = (@)\<rparr>"

lemma jv_api_fields:
  "jc_get jv_api = jv_get" "jc_members jv_api = jv_members" "jc_type jv_api = jv_type"
  "jc_string jv_api = jv_string" "jc_int64 jv_api = jv_int64"
  "jc_array_length jv_api (Some (JArray a)) = length a"
  "jc_array_idx jv_api (Some (JArray a)) i = (if i < length a then a ! i else None)"
  by (simp_all add: jv_api_def)

lemma jv_type_object: "jv_type (Some j) = Json_object \<longleftrightarrow> (\<exists>m. j = JObject m)"
  by (cases j) auto

lemma jv_objects_ok [simp]: "json_objects_ok jv_api"
  by (auto simp: json_objects_ok_def jv_api_def jv_type_object jv_get_def map_of_clearjunk
      update_conv' distinct_clearjunk)

lemma jv_printbuf_appends [simp]: "printbuf_appends jv_api"
  by (simp add: printbuf_appends_def jv_api_def)

end
