(* ===== verification/Monitor.thy ===== *)
theory Monitor
  imports Json
begin

text \<open>
  Monitors: \<open>struct rb_monitor_s\<close> of src/rb_sensor_monitor.c, its accessors, the parser of one
  JSON monitor, and the variables an operation monitor asks for. The expression evaluator
  (libmatheval) is not part of the program: its functions are the fields of a record.
\<close>

section \<open>The expression evaluator\<close>

record 'f matheval =
  ev_create :: "string \<Rightarrow> 'f option"
  ev_variables :: "'f \<Rightarrow> string list"
  ev_evaluate :: "'f \<Rightarrow> string option list \<Rightarrow> double list \<Rightarrow> double"

section \<open>The record\<close>

datatype monitor_cmd_type = RB_MONITOR_T__SYSTEM | RB_MONITOR_T__OID | RB_MONITOR_T__OP

text \<open>\<open>argument\<close> is the null pointer \<open>calloc\<close> left: no code stores anything there.\<close>

record 'j rb_monitor =
  mon_type :: monitor_cmd_type
  mon_name :: string
  mon_argument :: "string option"
  mon_name_split_suffix :: "string option"
  mon_instance_prefix :: "string option"
  mon_group_id :: "string option"
  mon_send :: bool
  mon_timestamp_given :: bool
  mon_integer :: bool
  mon_splittok :: "string option"
  mon_splitop :: "string option"
  mon_cmd_arg :: string
  mon_enrichment :: 'j

text \<open>The X-macro \<open>MONITOR_CMDS_X\<close>: configuration key and \<open>type\<close> text of each command.\<close>

definition monitor_cmds :: "(monitor_cmd_type \<times> string \<times> string) list" where
  "monitor_cmds =
     [(RB_MONITOR_T__SYSTEM, ''system'', ''system''),
      (RB_MONITOR_T__OID, ''oid'', ''snmp''),
      (RB_MONITOR_T__OP, ''op'', ''op'')]"

fun rb_monitor_type_str :: "monitor_cmd_type \<Rightarrow> string" where
  "rb_monitor_type_str RB_MONITOR_T__SYSTEM = ''system''"
| "rb_monitor_type_str RB_MONITOR_T__OID = ''snmp''"
| "rb_monitor_type_str RB_MONITOR_T__OP = ''op''"

definition rb_monitor_get_cmd_data :: "'j rb_monitor \<Rightarrow> string option" where
  "rb_monitor_get_cmd_data monitor = mon_argument monitor"

section \<open>Parsing\<close>

text \<open>\<open>extract_monitor_cmd\<close>: the first command key the object has, and its argument.\<close>

fun extract_monitor_cmd0 ::
    "'j json_c \<Rightarrow> 'j option \<Rightarrow> (monitor_cmd_type \<times> string \<times> string) list
      \<Rightarrow> (monitor_cmd_type \<times> string) option" where
  "extract_monitor_cmd0 J json_monitor [] = None"
| "extract_monitor_cmd0 J json_monitor ((ty, cmd, ty_str) # cmds) =
     (case jc_get J json_monitor cmd of
        None \<Rightarrow> extract_monitor_cmd0 J json_monitor cmds
      | Some json_cmd_arg \<Rightarrow> map_option (\<lambda>s. (ty, s)) (jc_string J json_cmd_arg))"

definition extract_monitor_cmd ::
    "'j json_c \<Rightarrow> 'j option \<Rightarrow> (monitor_cmd_type \<times> string) option" where
  "extract_monitor_cmd J json_monitor = extract_monitor_cmd0 J json_monitor monitor_cmds"

definition valid_split_op :: "string \<Rightarrow> bool" where
  "valid_split_op split_op \<longleftrightarrow> split_op = ''sum'' \<or> split_op = ''mean''"

text \<open>\<open>json_object_object_foreach\<close> reads through the object table: only objects have one.\<close>

definition add_monitor_enrichment ::
    "'j json_c \<Rightarrow> 'j \<Rightarrow> 'j option option \<Rightarrow> 'j outcome" where
  "add_monitor_enrichment J enrichment found =
     (case found of
        None \<Rightarrow> Inr enrichment
      | Some None \<Rightarrow> Inl Null_deref
      | Some (Some m) \<Rightarrow>
          if jc_type J (Some m) = Json_object
          then Inr (foldl (\<lambda>e (key, val). jc_add J e key val) enrichment (jc_members J m))
          else Inl Null_deref)"

text \<open>
  The loop over \<open>enrichment_add\<close>: a pair with a null key is skipped. \<open>mem k\<close> says whether the
  string of key \<open>k\<close> can be allocated; otherwise the member is added as null.
\<close>

definition add_enrichment_str ::
    "'j json_c \<Rightarrow> (string \<Rightarrow> bool) \<Rightarrow> string \<Rightarrow> string option \<Rightarrow> 'j \<Rightarrow> 'j" where
  "add_enrichment_str J mem mkey mval enrichment =
     (case mval of
        None \<Rightarrow> enrichment
      | Some v \<Rightarrow>
          jc_add J enrichment mkey (if mem (''enrichment:'' @ mkey) then Some (jc_new_string J v) else None))"

text \<open>
  \<open>parse_rb_monitor0\<close>. \<open>mem\<close> says which allocations succeed, named by the field they are for.
  The \<open>int64_t\<close> read for \<open>timestamp_given\<close> goes through an \<open>int\<close>.
\<close>

definition parse_rb_monitor0 ::
    "'j json_c \<Rightarrow> (string \<Rightarrow> bool) \<Rightarrow> monitor_cmd_type \<Rightarrow> string \<Rightarrow> 'j option \<Rightarrow> 'j option
      \<Rightarrow> 'j rb_monitor option outcome" where
  "parse_rb_monitor0 J mem ty cmd_arg json_monitor sensor_enrichment =
     (let dup = (\<lambda>key. parse_cjson_child_dup_str J (mem key) json_monitor key) in
      obind (dup ''name'') (\<lambda>aux_name.
      (case aux_name of None \<Rightarrow> Inr None | Some nm \<Rightarrow>
      obind (dup ''split_op'') (\<lambda>aux_split_op.
      obind (dup ''unit'') (\<lambda>unit_str.
      obind (dup ''group_name'') (\<lambda>group_name.
      let ts_int = (ucast (parse_cjson_child_int64 J json_monitor ''timestamp_given'' 0) :: 32 word);
          split_op = (case aux_split_op of
                        None \<Rightarrow> None
                      | Some op \<Rightarrow> if valid_split_op op then Some op else None);
          ts_given = (if ty = RB_MONITOR_T__OP \<and> ts_int \<noteq> 0 then 0 else ts_int)
      in if \<not> mem ''monitor'' then Inr None
         else
           obind (dup ''split'') (\<lambda>splittok.
           obind (dup ''name_split_suffix'') (\<lambda>sfx.
           obind (dup ''instance_prefix'') (\<lambda>inst_prefix.
           obind (dup ''group_id'') (\<lambda>group_id.
           (case json_object_object_copy J (mem ''enrichment'') sensor_enrichment of
              None \<Rightarrow> Inr None
            | Some enr \<Rightarrow>
                obind (add_monitor_enrichment J enr (jc_get J json_monitor ''enrichment'')) (\<lambda>enr1.
                let enr2 = add_enrichment_str J mem ''type'' (Some (rb_monitor_type_str ty)) enr1;
                    enr3 = add_enrichment_str J mem ''unit'' unit_str enr2;
                    enr4 = add_enrichment_str J mem ''group_name'' group_name enr3
                in if \<not> mem ''cmd_arg'' then Inr None
                   else Inr (Some
                     \<lparr>mon_type = ty, mon_name = nm, mon_argument = None,
                      mon_name_split_suffix = sfx, mon_instance_prefix = inst_prefix,
                      mon_group_id = group_id,
                      mon_send = (parse_cjson_child_int64 J json_monitor ''send'' 1 \<noteq> 0),
                      mon_timestamp_given = (ts_given \<noteq> 0),
                      mon_integer = (parse_cjson_child_int64 J json_monitor ''integer'' 0 \<noteq> 0),
                      mon_splittok = splittok, mon_splitop = split_op, mon_cmd_arg = cmd_arg,
                      mon_enrichment = enr4\<rparr>)))))))))))))"

definition parse_rb_monitor ::
    "'j json_c \<Rightarrow> (string \<Rightarrow> bool) \<Rightarrow> 'j option \<Rightarrow> 'j option \<Rightarrow> 'j rb_monitor option outcome" where
  "parse_rb_monitor J mem json_monitor sensor_enrichment =
     (case extract_monitor_cmd J json_monitor of
        None \<Rightarrow> Inr None
      | Some (cmd_type, cmd_arg) \<Rightarrow>
          parse_rb_monitor0 J mem cmd_type cmd_arg json_monitor sensor_enrichment)"

section \<open>Operation variables\<close>

text \<open>
  \<open>rb_monitor_get_op_variables\<close>: the variables of the expression, none for another kind of
  monitor, an invalid expression or a failed allocation.
\<close>

definition rb_monitor_get_op_variables ::
    "'f matheval \<Rightarrow> (string \<Rightarrow> bool) \<Rightarrow> 'j rb_monitor \<Rightarrow> string list" where
  "rb_monitor_get_op_variables E mem monitor =
     (if mon_type monitor \<noteq> RB_MONITOR_T__OP then []
      else if \<not> mem ''evaluator'' then []
      else case ev_create E (mon_cmd_arg monitor) of
             None \<Rightarrow> []
           | Some f \<Rightarrow>
               let vars = ev_variables E f
               in if \<not> mem ''vars'' then []
                  else if list_all (\<lambda>v. mem (''var:'' @ v)) vars then vars else [])"

section \<open>What a parsed monitor satisfies\<close>

lemma parse_rb_monitor0_fields:
  assumes "parse_rb_monitor0 J mem ty cmd_arg json_monitor sensor_enrichment = Inr (Some m)"
  shows "mon_type m = ty \<and> mon_cmd_arg m = cmd_arg \<and> mon_argument m = None
    \<and> (\<forall>op. mon_splitop m = Some op \<longrightarrow> valid_split_op op)
    \<and> (ty = RB_MONITOR_T__OP \<longrightarrow> \<not> mon_timestamp_given m)"
  using assms
  by (auto simp: parse_rb_monitor0_def Let_def obind_Inr_iff split: option.splits if_splits)

section \<open>The enrichment of a parsed monitor\<close>

text \<open>The members of a JSON object as a map.\<close>

definition lookup :: "'j json_c \<Rightarrow> 'j \<Rightarrow> string \<Rightarrow> 'j option option" where
  "lookup J j k = map_of (jc_members J j) k"

lemma lookup_eq: "lookup J j = map_of (jc_members J j)"
  by (simp add: lookup_def fun_eq_iff)

lemma lookup_add:
  assumes "json_objects_ok J" and "jc_type J (Some j) = Json_object"
  shows "jc_type J (Some (jc_add J j k v)) = Json_object"
    and "lookup J (jc_add J j k v) = (lookup J j)(k \<mapsto> v)"
  using assms by (auto simp: json_objects_ok_def lookup_def)

lemma lookup_copy:
  assumes "json_objects_ok J" and "json_object_object_copy J mem (Some j) = Some c"
  shows "jc_type J (Some j) = Json_object" and "jc_type J (Some c) = Json_object"
    and "lookup J c = lookup J j"
proof -
  have j: "jc_type J (Some j) = Json_object"
    and c: "c = foldl (\<lambda>d (key, val). jc_add J d key val) (jc_new_object J) (jc_members J j)"
    using assms(2) by (auto simp: json_object_object_copy_def json_object_copy0_childs_def split: if_splits)
  have new: "jc_type J (Some (jc_new_object J)) = Json_object" "jc_members J (jc_new_object J) = []"
    and dist: "distinct (map fst (jc_members J j))"
    using assms(1) j by (auto simp: json_objects_ok_def)
  have "map_of (rev (jc_members J j)) = map_of (jc_members J j)"
    using dist by (subst map_of_inject_set) (auto simp flip: rev_map)
  then show "jc_type J (Some j) = Json_object" "jc_type J (Some c) = Json_object" "lookup J c = lookup J j"
    using j json_members_add_all [OF assms(1) new(1), of "jc_members J j"] new(2)
    by (simp_all add: c lookup_def fun_eq_iff)
qed

lemma lookup_add_monitor_enrichment:
  assumes J: "json_objects_ok J" and e: "jc_type J (Some e) = Json_object"
    and add: "add_monitor_enrichment J e found = Inr e'"
  shows "jc_type J (Some e') = Json_object"
    and "lookup J e' = lookup J e ++ (case found of Some (Some m) \<Rightarrow> lookup J m | _ \<Rightarrow> Map.empty)"
proof -
  have "jc_type J (Some e') = Json_object
      \<and> lookup J e' = lookup J e ++ (case found of Some (Some m) \<Rightarrow> lookup J m | _ \<Rightarrow> Map.empty)"
  proof (cases found)
    case None
    with add e show ?thesis by (simp add: add_monitor_enrichment_def)
  next
    case (Some f)
    with add obtain m where m: "f = Some m" "jc_type J (Some m) = Json_object"
      and e': "e' = foldl (\<lambda>e (key, val). jc_add J e key val) e (jc_members J m)"
      by (auto simp: add_monitor_enrichment_def split: option.splits if_splits)
    have "distinct (map fst (jc_members J m))" using J m(2) by (auto simp: json_objects_ok_def)
    then have "map_of (rev (jc_members J m)) = map_of (jc_members J m)"
      by (subst map_of_inject_set) (auto simp flip: rev_map)
    with json_members_add_all [OF J e, of "jc_members J m"] Some m(1) show ?thesis
      by (simp add: e' lookup_eq)
  qed
  then show "jc_type J (Some e') = Json_object"
    and "lookup J e' = lookup J e ++ (case found of Some (Some m) \<Rightarrow> lookup J m | _ \<Rightarrow> Map.empty)" by auto
qed

lemma lookup_add_enrichment_str:
  assumes "json_objects_ok J" and "jc_type J (Some e) = Json_object"
  shows "jc_type J (Some (add_enrichment_str J mem k v e)) = Json_object"
    and "lookup J (add_enrichment_str J mem k v e) x =
      (if x = k \<and> v \<noteq> None
       then Some (if mem (''enrichment:'' @ k) then Some (jc_new_string J (the v)) else None)
       else lookup J e x)"
  using assms lookup_add [OF assms] by (auto simp: add_enrichment_str_def split: option.splits)

text \<open>
  A key of the sensor's enrichment can be overridden by the monitor's, and both by the type, the
  unit and the group name.
\<close>

lemma parse_rb_monitor0_enrichment:
  assumes J: "json_objects_ok J"
    and parsed: "parse_rb_monitor0 J mem ty cmd_arg json_monitor (Some sensor_enrichment) = Inr (Some m)"
    and other: "k \<notin> {''type'', ''unit'', ''group_name''}"
  shows "lookup J (mon_enrichment m) k =
      (lookup J sensor_enrichment
        ++ (case jc_get J json_monitor ''enrichment'' of Some (Some e) \<Rightarrow> lookup J e | _ \<Rightarrow> Map.empty)) k"
    and "mem ''enrichment:type'' \<Longrightarrow>
      lookup J (mon_enrichment m) ''type'' = Some (Some (jc_new_string J (rb_monitor_type_str ty)))"
proof -
  from parsed obtain enr enr1 unit_str group_name where
    copy: "json_object_object_copy J (mem ''enrichment'') (Some sensor_enrichment) = Some enr"
    and add: "add_monitor_enrichment J enr (jc_get J json_monitor ''enrichment'') = Inr enr1"
    and m: "mon_enrichment m = add_enrichment_str J mem ''group_name'' group_name
        (add_enrichment_str J mem ''unit'' unit_str
          (add_enrichment_str J mem ''type'' (Some (rb_monitor_type_str ty)) enr1))"
    by (auto simp: parse_rb_monitor0_def Let_def obind_Inr_iff split: option.splits if_splits)
  note c = lookup_copy [OF J copy]
  note a = lookup_add_monitor_enrichment [OF J c(2) add]
  note s = lookup_add_enrichment_str [OF J]
  show "lookup J (mon_enrichment m) k =
      (lookup J sensor_enrichment
        ++ (case jc_get J json_monitor ''enrichment'' of Some (Some e) \<Rightarrow> lookup J e | _ \<Rightarrow> Map.empty)) k"
    using other by (simp add: m s a c(3))
  show "lookup J (mon_enrichment m) ''type'' = Some (Some (jc_new_string J (rb_monitor_type_str ty)))"
    if "mem ''enrichment:type''"
    using that by (simp add: m s a)
qed

end
