(* ===== verification/Acquire.thy ===== *)
theory Acquire
  imports CStdio
begin

text \<open>
  Where external values come from: a shell command (src/rb_system.h) or an SNMP request
  (src/rb_snmp.c). Both are callbacks of one C type, with one contract, the locale
  \<open>value_source\<close>: the text they leave fits the buffer, and the number they leave is what
  \<open>strtod\<close> reads in the text. The shell and the SNMP library are parameters: what a command
  prints, and what a session answers.
\<close>

section \<open>The contract of a value callback\<close>

text \<open>
  A callback gets the size of the buffer and its argument; the outcome is its return value, the
  text in the buffer and the number.
\<close>

type_synonym value_cb = "nat \<Rightarrow> string \<Rightarrow> bool \<times> string \<times> double"

locale value_source =
  fixes solve :: value_cb
  assumes fits: "solve BUFSIZ arg = (rc, buf, number) \<Longrightarrow> length buf < BUFSIZ"
    and coherent: "solve BUFSIZ arg = (rc, buf, number) \<Longrightarrow> buf \<noteq> [] \<Longrightarrow> number = fst (strtod buf)"
    and succeeds: "solve BUFSIZ arg = (rc, buf, number) \<Longrightarrow> rc"
begin

text \<open>
  What \<open>rb_monitor_get_external_value\<close> makes of it: an empty text is replaced by 0, so text and
  number agree in every case.
\<close>

definition forced :: "string \<Rightarrow> string \<times> double" where
  "forced arg = (case solve BUFSIZ arg of (rc, buf, number) \<Rightarrow>
     if buf = [] then (''0'', fl_zero) else (buf, number))"

lemma forced_coherent: "forced arg = (buf, number) \<Longrightarrow> number = fst (strtod buf)"
  by (cases "solve BUFSIZ arg") (auto simp: forced_def split: if_splits dest: coherent)

lemma forced_nonempty: "forced arg = (buf, number) \<Longrightarrow> buf \<noteq> []"
  by (cases "solve BUFSIZ arg") (auto simp: forced_def split: if_splits)

lemma forced_fits: "forced arg = (buf, number) \<Longrightarrow> length buf < BUFSIZ"
proof -
  obtain rc b n where s: "solve BUFSIZ arg = (rc, b, n)" by (cases "solve BUFSIZ arg")
  have "length ''0'' < BUFSIZ" by (simp add: BUFSIZ_def)
  then show "forced arg = (buf, number) \<Longrightarrow> length buf < BUFSIZ"
    using fits [OF s] by (auto simp: forced_def s split: if_splits)
qed

end

section \<open>Shell commands\<close>

definition trim_end :: "string \<Rightarrow> string" where
  "trim_end buf = rev (dropWhile is_space (rev buf))"

text \<open>
  \<open>popen\<close> gives what the command will print, or \<^term>\<open>None\<close> when it cannot be started. The first
  line, trimmed, is the answer if a number can be read at its start; otherwise the answer is 0.
\<close>

type_synonym shell = "string \<Rightarrow> char list option"

definition system_solve_response :: "shell \<Rightarrow> value_cb" where
  "system_solve_response popen buff_size command =
     (let zero = (True, snprintf buff_size ''0'', fl_zero)
      in case popen command of
           None \<Rightarrow> zero
         | Some fp \<Rightarrow>
             (case fgets buff_size fp of
                None \<Rightarrow> zero
              | Some line \<Rightarrow>
                  let buff = trim_end (c_str line);
                      (number, erange, endptr) = strtod buff
                  in if endptr \<noteq> buff then (True, buff, number) else zero))"

lemma length_trim_end: "length (trim_end s) \<le> length s"
  using length_dropWhile_le [of is_space "rev s"] by (simp add: trim_end_def)

lemma trim_end_last: "trim_end s \<noteq> [] \<Longrightarrow> \<not> is_space (last (trim_end s))"
  using hd_dropWhile [of is_space "rev s"] by (auto simp: trim_end_def last_rev)

lemma fgets_length: "fgets n fp = Some line \<Longrightarrow> 1 < n \<Longrightarrow> length line < n"
  by (auto simp: fgets_def split: if_splits)

lemma snprintf_0: "snprintf BUFSIZ ''0'' = ''0''"
  by (simp add: snprintf_def BUFSIZ_def)

lemma system_solve_response_cases:
  assumes "system_solve_response popen BUFSIZ command = (rc, buf, number)"
  shows "rc \<and> buf \<noteq> [] \<and> length buf < BUFSIZ \<and> number = fst (strtod buf)"
proof -
  have len: "length (trim_end (c_str line)) < BUFSIZ" if "fgets BUFSIZ fp = Some line" for fp line
    using fgets_length [OF that] length_trim_end [of "c_str line"] length_c_str [of line]
    by (simp add: BUFSIZ_def)
  have ne: "endptr \<noteq> s \<Longrightarrow> strtod s = (d, er, endptr) \<Longrightarrow> s \<noteq> []" for s d er endptr
    by auto
  have zero: "''0'' \<noteq> []" "length ''0'' < BUFSIZ" "fl_zero = fst (strtod ''0'')"
    by (simp_all add: BUFSIZ_def strtod_zero)
  show ?thesis
    using assms zero len ne
    by (auto simp: system_solve_response_def Let_def snprintf_0
        split: option.splits prod.splits if_splits)
qed

interpretation system_source: value_source "system_solve_response popen" for popen
  by unfold_locales (use system_solve_response_cases in blast)+

section \<open>SNMP\<close>

text \<open>The typed variable of a response; the integers are C \<open>long\<close>s.\<close>

datatype asn_value =
    Asn_gauge int64
  | Asn_integer int64
  | Asn_octet_str "char list"
  | Asn_counter32 int64
  | Asn_counter64 int64      \<comment> \<open>\<open>counter64->low\<close>\<close>
  | Asn_other nat

text \<open>The session fields the program sets; the version numbers are net-snmp's.\<close>

datatype snmp_version = SNMP_VERSION_1 | SNMP_VERSION_2c | SNMP_VERSION_3 | SNMP_DEFAULT_VERSION

record snmp_session =
  ss_peername :: "string option"
  ss_local_port :: nat
  ss_remote_port :: nat
  ss_timeout :: "32 word"
  ss_community :: "string option"
  ss_flags :: int64
  ss_version :: snmp_version

record snmp_new_session_config =
  cfg_community :: string
  cfg_timeout :: "32 word"
  cfg_flags :: int64
  cfg_version :: snmp_version

text \<open>The library: whether a session opens, and what a session answers to a GET of an object.\<close>

record snmp_lib =
  snmp_sess_open :: "snmp_session \<Rightarrow> bool"
  snmp_get :: "snmp_session \<Rightarrow> string \<Rightarrow> asn_value option"

text \<open>
  \<open>new_snmp_session\<close> writes the configuration into the shared initial session, opens a session
  from it, and writes the configuration into that session too.
\<close>

definition new_snmp_session ::
    "snmp_lib \<Rightarrow> bool \<Rightarrow> snmp_session \<Rightarrow> snmp_new_session_config \<Rightarrow> snmp_session \<times> snmp_session option" where
  "new_snmp_session S mem initial_session config =
     (if \<not> mem then (initial_session, None)
      else
        let initial' = initial_session
              \<lparr>ss_local_port := 0, ss_remote_port := 0, ss_timeout := cfg_timeout config,
               ss_community := Some (cfg_community config), ss_version := cfg_version config\<rparr>
        in if snmp_sess_open S initial'
           then (initial', Some (initial'
              \<lparr>ss_community := Some (cfg_community config), ss_timeout := cfg_timeout config,
               ss_flags := cfg_flags config, ss_version := cfg_version config\<rparr>))
           else (initial', None))"

definition snmp_solve_response :: "snmp_lib \<Rightarrow> snmp_session \<Rightarrow> value_cb" where
  "snmp_solve_response S session value_buf_len oid_string =
     (case snmp_get S session oid_string of
        None \<Rightarrow> (True, snprintf value_buf_len ''0'', fl_zero)
      | Some (Asn_gauge w) \<Rightarrow> (True, snprintf value_buf_len (print_ld w), fl_of_int (sint w))
      | Some (Asn_integer w) \<Rightarrow> (True, snprintf value_buf_len (print_ld w), fl_of_int (sint w))
      | Some (Asn_octet_str v) \<Rightarrow>
          if min value_buf_len (length v) = 0 then (True, snprintf value_buf_len ''0'', fl_zero)
          else let value_buf = snprintf value_buf_len (c_str v)
               in (True, value_buf, fst (strtod value_buf))
      | Some (Asn_counter32 w) \<Rightarrow> (True, snprintf value_buf_len (print_ld w), fl_of_int (sint w))
      | Some (Asn_counter64 w) \<Rightarrow> (True, snprintf value_buf_len (print_lu w), fl_of_int (uint w))
      | Some (Asn_other t) \<Rightarrow> (True, snprintf value_buf_len ''0'', fl_zero))"

definition net_snmp_version :: "string option \<Rightarrow> snmp_version" where
  "net_snmp_version string_version =
     (case string_version of
        None \<Rightarrow> SNMP_DEFAULT_VERSION
      | Some s \<Rightarrow>
          if s = ''1'' then SNMP_VERSION_1
          else if s = ''2c'' then SNMP_VERSION_2c
          else if s = ''3'' then SNMP_VERSION_3
          else SNMP_DEFAULT_VERSION)"

lemma snprintf_short: "length s < n \<Longrightarrow> snprintf n s = s"
  by (simp add: snprintf_def)

lemma length_snprintf: "1 < n \<Longrightarrow> length (snprintf n s) < n"
  by (auto simp: snprintf_def)

lemma sint64_bound: "\<bar>sint (w :: int64)\<bar> < 2 ^ 64"
  using sint_range_size [of w] by (simp add: size_word.rep_eq abs_less_iff)

lemma uint64_bound: "\<bar>uint (w :: int64)\<bar> < 2 ^ 64"
  using uint_bounded [of w] by simp

lemma length_show_int: "\<bar>z\<bar> < 10 ^ k \<Longrightarrow> 0 < k \<Longrightarrow> length (show_int z) \<le> Suc k"
proof -
  assume "\<bar>z\<bar> < 10 ^ k" "0 < k"
  then have "length (nat_digits (nat \<bar>z\<bar>)) \<le> k"
    by (intro length_nat_digits) (auto simp: nat_less_iff)
  then show ?thesis by (cases "z < 0") (simp_all add: show_int_def)
qed

lemma print_ld_fits: "snprintf BUFSIZ (print_ld w) = print_ld w"
proof -
  have "\<bar>sint w\<bar> < 10 ^ 20" using sint64_bound [of w] by (rule less_trans) simp
  then have "length (print_ld w) \<le> Suc 20" unfolding print_ld_def by (rule length_show_int) simp
  then show ?thesis by (intro snprintf_short) (simp add: BUFSIZ_def)
qed

lemma print_lu_show: "print_lu w = show_int (uint w)"
  by (simp add: print_lu_def show_int_def)

lemma print_lu_fits: "snprintf BUFSIZ (print_lu w) = print_lu w"
proof -
  have "\<bar>uint w\<bar> < 10 ^ 20" using uint64_bound [of w] by (rule less_trans) simp
  then have "length (print_lu w) \<le> Suc 20" unfolding print_lu_show by (rule length_show_int) simp
  then show ?thesis by (intro snprintf_short) (simp add: BUFSIZ_def)
qed

lemma strtod_print_ld: "fst (strtod (print_ld w)) = fl_of_int (sint w)"
  using strtod_show_int64 [of "[]" "sint w"] sint64_bound [of w] by (simp add: print_ld_def ends_int_def)

lemma strtod_print_lu: "fst (strtod (print_lu w)) = fl_of_int (uint w)"
  using strtod_show_int64 [of "[]" "uint w"] uint64_bound [of w] by (simp add: print_lu_show ends_int_def)

lemma snmp_solve_response_cases:
  assumes "snmp_solve_response S session BUFSIZ oid = (rc, buf, number)"
  shows "rc \<and> length buf < BUFSIZ \<and> number = fst (strtod buf)"
proof -
  have b: "1 < BUFSIZ" by (simp add: BUFSIZ_def)
  have len: "length (print_ld w) < BUFSIZ" "length (print_lu w) < BUFSIZ" for w
    using length_snprintf [OF b, of "print_ld w"] length_snprintf [OF b, of "print_lu w"]
    by (simp_all add: print_ld_fits print_lu_fits)
  have zero: "length ''0'' < BUFSIZ" by (simp add: BUFSIZ_def)
  note facts = snprintf_0 print_ld_fits print_lu_fits strtod_print_ld strtod_print_lu
  show ?thesis
  proof (cases "snmp_get S session oid")
    case None
    with assms zero show ?thesis by (auto simp: snmp_solve_response_def facts)
  next
    case (Some r)
    with assms zero len length_snprintf [OF b] show ?thesis
      by (cases r) (auto simp: snmp_solve_response_def facts Let_def split: if_splits)
  qed
qed

interpretation snmp_source: value_source "snmp_solve_response S session" for S session
  by unfold_locales (use snmp_solve_response_cases in blast)+

end
