(* ===== verification/Evaluate.thy ===== *)
theory Evaluate
  imports Values Monitor Acquire
begin

text \<open>
  Processing one monitor, src/rb_sensor_monitor.c: the external values (a scalar, or a vector cut
  at the split token), the operations over other monitors' values, and the dispatch on the kind
  of monitor. Loops that may not end are \<open>partial_function\<close>s; the lemmas show when they do, and
  what the vector loop computes in terms of the tokens of its input.
\<close>

section \<open>Vectors\<close>

definition DEFAULT_TIMESTAMP_SEP :: string where
  "DEFAULT_TIMESTAMP_SEP = '':''"

text \<open>\<open>vector_elements\<close>: one more than the occurrences of the split token.\<close>

partial_function (option) vector_elements_loop :: "string \<Rightarrow> string \<Rightarrow> nat \<Rightarrow> nat option" where
  "vector_elements_loop haystack splittok ret =
     (case strstr haystack splittok of
        None \<Rightarrow> Some ret
      | Some h \<Rightarrow> vector_elements_loop (drop (length splittok) h) splittok (Suc ret))"

definition vector_elements :: "string \<Rightarrow> string \<Rightarrow> nat outcome" where
  "vector_elements haystack splittok = returned (vector_elements_loop haystack splittok 1)"

text \<open>
  \<open>extract_vector_value\<close>: \<^term>\<open>None\<close> for a return of false, otherwise the start of the value's
  text, its size, the value, and the timestamp (0 unless one was scanned). Pointers into the
  same string are compared by what is left after them.
\<close>

definition extract_vector_value ::
    "string \<Rightarrow> string \<Rightarrow> string option \<Rightarrow> (string \<times> nat \<times> double \<times> time_t) option" where
  "extract_vector_value vector_values splittok timestamp_sep =
     (let end_token = (case strstr vector_values splittok of None \<Rightarrow> [] | Some e \<Rightarrow> e);
          stamped =
            (case timestamp_sep of
               None \<Rightarrow> Some (vector_values, 0)
             | Some sep \<Rightarrow>
                 (case strstr vector_values sep of
                    None \<Rightarrow> None
                  | Some timestamp_end \<Rightarrow>
                      if length timestamp_end \<le> length end_token then None
                      else Some (drop (length sep) timestamp_end,
                                 case sscanf_tu vector_values of None \<Rightarrow> 0 | Some t \<Rightarrow> t)))
      in case stamped of
           None \<Rightarrow> None
         | Some (vector_values', timestamp') \<Rightarrow>
             let (number, errno_set, endptr) = strtod vector_values'
             in if errno_set then None
                else Some (vector_values', length vector_values' - length end_token, number, timestamp'))"

record vector_state =
  vs_children :: "monitor_value option list"
  vs_mean_count :: nat
  vs_sum :: double

text \<open>The body of the loop of \<open>process_vector_monitor\<close> on a token.\<close>

definition vector_step ::
    "mem \<Rightarrow> 'j rb_monitor \<Rightarrow> string \<Rightarrow> time_t \<Rightarrow> string \<Rightarrow> nat \<Rightarrow> vector_state \<Rightarrow> vector_state outcome" where
  "vector_step mem monitor splittok now tok count st =
     (if tok = splittok then Inr st
      else
        case extract_vector_value tok splittok
               (if mon_timestamp_given monitor then Some DEFAULT_TIMESTAMP_SEP else None) of
          None \<Rightarrow> Inr st
        | Some (i_value_str, i_value_str_size, i_value, i_timestamp) \<Rightarrow>
            let child = process_novector_monitor (mem (At_child count)) i_value_str i_value
                          (if i_timestamp \<noteq> 0 then i_timestamp else now)
            in if count < length (vs_children st)
               then Inr (if child = None
                         then st\<lparr>vs_children := (vs_children st)[count := child]\<rparr>
                         else st\<lparr>vs_children := (vs_children st)[count := child],
                                 vs_sum := fl_add (vs_sum st) i_value,
                                 vs_mean_count := Suc (vs_mean_count st)\<rparr>)
               else Inl Out_of_bounds)"

partial_function (option) vector_loop ::
    "mem \<Rightarrow> 'j rb_monitor \<Rightarrow> string \<Rightarrow> time_t \<Rightarrow> string \<Rightarrow> nat \<Rightarrow> vector_state
      \<Rightarrow> vector_state outcome option" where
  "vector_loop mem monitor splittok now tok count st =
     (let tok' = (if 0 < count then drop (length splittok) tok else tok)
      in case vector_step mem monitor splittok now tok' count st of
           Inl f \<Rightarrow> Some (Inl f)
         | Inr st' \<Rightarrow>
             (case strstr tok' splittok of
                None \<Rightarrow> Some (Inr st')
              | Some t \<Rightarrow> vector_loop mem monitor splittok now t (Suc count) st'))"

text \<open>The value of a split operation: the sum, or the sum divided by a \<open>size_t\<close> count.\<close>

definition split_op_value :: "string \<Rightarrow> double \<Rightarrow> nat \<Rightarrow> double" where
  "split_op_value splitop acc count =
     (if splitop = ''sum'' then acc else fl_div acc (fl_of_int (int count)))"

definition split_op_monitor ::
    "bool \<Rightarrow> nat \<Rightarrow> string option \<Rightarrow> double \<Rightarrow> nat \<Rightarrow> time_t \<Rightarrow> monitor_value option" where
  "split_op_monitor mem bufsize splitop acc count now =
     (case splitop of
        None \<Rightarrow> None
      | Some op \<Rightarrow>
          if 0 < count
          then let result = split_op_value op acc count
               in process_novector_monitor mem (snprintf bufsize (print_lf result)) result now
          else None)"

definition process_vector_monitor ::
    "mem \<Rightarrow> 'j rb_monitor \<Rightarrow> string \<Rightarrow> time_t \<Rightarrow> monitor_value option outcome" where
  "process_vector_monitor mem monitor value_buf now =
     (case mon_splittok monitor of
        None \<Rightarrow> Inl Null_deref
      | Some splittok \<Rightarrow>
          obind (vector_elements value_buf splittok) (\<lambda>n_children.
          if \<not> mem At_children then Inr None
          else
            obind (returned (vector_loop mem monitor splittok now value_buf 0
                     \<lparr>vs_children = replicate n_children None, vs_mean_count = 0, vs_sum = fl_zero\<rparr>))
              (\<lambda>res. obind res (\<lambda>st.
                let split_op = split_op_monitor (mem At_split_op) 1024 (mon_splitop monitor)
                                 (vs_sum st) (vs_mean_count st) now
                in Inr (new_monitor_value_array (mem At_array) (vs_children st) split_op)))))"

section \<open>External values\<close>

definition rb_monitor_get_external_value ::
    "mem \<Rightarrow> 'j rb_monitor \<Rightarrow> value_cb \<Rightarrow> time_t \<Rightarrow> monitor_value option outcome" where
  "rb_monitor_get_external_value mem monitor get_value_cb now =
     (let (cb_rc, buf, num) = get_value_cb BUFSIZ (mon_cmd_arg monitor);
          value_buf = (if buf = [] then snprintf BUFSIZ ''0'' else buf);
          number = (if buf = [] then fl_zero else num)
      in case mon_splittok monitor of
           None \<Rightarrow> Inr (process_novector_monitor (mem At_scalar) value_buf number now)
         | Some _ \<Rightarrow> process_vector_monitor mem monitor value_buf now)"

section \<open>Operations\<close>

record libmatheval_vars =
  lm_names :: "string option list"
  lm_values :: "double list"
  lm_count :: nat

definition new_libmatheval_vars :: "bool \<Rightarrow> nat \<Rightarrow> libmatheval_vars option" where
  "new_libmatheval_vars mem new_size =
     (if mem then Some \<lparr>lm_names = replicate new_size None, lm_values = replicate new_size fl_zero,
                        lm_count = 0\<rparr>
      else None)"

text \<open>The loop of \<open>op_libmatheval_vars\<close>; null for vectors of different sizes.\<close>

fun op_vars_loop ::
    "monitor_value option list \<Rightarrow> string list \<Rightarrow> nat \<Rightarrow> nat \<Rightarrow> libmatheval_vars
      \<Rightarrow> libmatheval_vars option outcome" where
  "op_vars_loop [] names i expected_v_elms lm = Inr (Some lm)"
| "op_vars_loop (None # mvs) names i expected_v_elms lm =
     op_vars_loop mvs names (Suc i) expected_v_elms lm"
| "op_vars_loop (Some mv # mvs) names i expected_v_elms lm =
     (if length names \<le> i then Inl Out_of_bounds
      else
        let lm' = lm\<lparr>lm_names := (lm_names lm)[i := Some (names ! i)]\<rparr>
        in if lm_count lm = 0
           then op_vars_loop mvs names (Suc i)
                  (if is_value mv then expected_v_elms else children_count mv)
                  (lm'\<lparr>lm_count := Suc (lm_count lm)\<rparr>)
           else if \<not> is_value mv \<and> children_count mv \<noteq> expected_v_elms then Inr None
           else op_vars_loop mvs names (Suc i) expected_v_elms (lm'\<lparr>lm_count := Suc (lm_count lm)\<rparr>))"

definition op_libmatheval_vars ::
    "bool \<Rightarrow> values_array \<Rightarrow> string list \<Rightarrow> libmatheval_vars option outcome" where
  "op_libmatheval_vars mem op_vars names =
     (case new_libmatheval_vars mem (arr_count op_vars) of
        None \<Rightarrow> Inr None
      | Some lm \<Rightarrow> op_vars_loop (rb_array_contents op_vars) names 0 0 lm)"

text \<open>\<open>sprintf(val_buf, "%lf", number)\<close> into 64 bytes.\<close>

definition rb_monitor_op_value0 ::
    "'f matheval \<Rightarrow> bool \<Rightarrow> 'f \<Rightarrow> libmatheval_vars \<Rightarrow> time_t \<Rightarrow> monitor_value option outcome" where
  "rb_monitor_op_value0 E mem f lm now =
     (let number = ev_evaluate E f (take (lm_count lm) (lm_names lm)) (take (lm_count lm) (lm_values lm))
      in if \<not> isnormal number then Inr None
         else if 64 \<le> length (print_lf number) then Inl Buffer_overflow
         else Inr (process_novector_monitor mem (print_lf number) number now))"

text \<open>
  The loop of \<open>rb_monitor_op_value\<close>: the variables so far, and whether every operand was a
  scalar.
\<close>

fun op_value_loop ::
    "monitor_value option list \<Rightarrow> nat \<Rightarrow> libmatheval_vars \<Rightarrow> libmatheval_vars \<times> bool" where
  "op_value_loop [] v lm = (lm, True)"
| "op_value_loop (mv_v # mvs) v lm =
     (case mv_v of
        Some (MV_value s) \<Rightarrow> op_value_loop mvs (Suc v) (lm\<lparr>lm_values := (lm_values lm)[v := val s]\<rparr>)
      | _ \<Rightarrow> (lm, False))"

definition rb_monitor_op_value ::
    "'f matheval \<Rightarrow> mem \<Rightarrow> 'f \<Rightarrow> values_array \<Rightarrow> libmatheval_vars \<Rightarrow> time_t \<Rightarrow> monitor_value option outcome" where
  "rb_monitor_op_value E mem f op_vars lm now =
     (let (lm', all_scalar) = op_value_loop (rb_array_contents op_vars) 0 lm
      in if all_scalar then rb_monitor_op_value0 E (mem At_scalar) f lm' now else Inr None)"

text \<open>\<open>mv->array.children\<close>: the vector member of the union.\<close>

definition children_of :: "monitor_value \<Rightarrow> monitor_value option list outcome" where
  "children_of mv = (case mv of MV_value _ \<Rightarrow> Inl Bad_member | MV_array cs _ \<Rightarrow> Inr cs)"

text \<open>
  The loop of \<open>rb_monitor_op_vector_i\<close>, as it is written: an operand that is missing or is
  not a \<^emph>\<open>scalar\<close> ends it, and of a scalar it reads the children.
\<close>

fun op_vector_i_loop ::
    "monitor_value option list \<Rightarrow> nat \<Rightarrow> nat \<Rightarrow> libmatheval_vars \<Rightarrow> (libmatheval_vars \<times> bool) outcome" where
  "op_vector_i_loop [] v_pos v lm = Inr (lm, True)"
| "op_vector_i_loop (mv_v # mvs) v_pos v lm =
     (case mv_v of
        None \<Rightarrow> Inr (lm, False)
      | Some mv \<Rightarrow>
          if \<not> is_value mv then Inr (lm, False)
          else
            obind (children_of mv) (\<lambda>cs.
              if length cs \<le> v_pos then Inl Out_of_bounds
              else case cs ! v_pos of
                     None \<Rightarrow> Inr (lm, False)
                   | Some mv_v_i \<Rightarrow>
                       obind (scalar_of mv_v_i) (\<lambda>s.
                         op_vector_i_loop mvs v_pos (Suc v)
                           (lm\<lparr>lm_values := (lm_values lm)[v := val s]\<rparr>))))"

definition rb_monitor_op_vector_i ::
    "'f matheval \<Rightarrow> bool \<Rightarrow> 'f \<Rightarrow> values_array \<Rightarrow> libmatheval_vars \<Rightarrow> nat \<Rightarrow> time_t
      \<Rightarrow> (libmatheval_vars \<times> monitor_value option) outcome" where
  "rb_monitor_op_vector_i E mem f op_vars lm v_pos now =
     obind (op_vector_i_loop (rb_array_contents op_vars) v_pos 0 lm) (\<lambda>(lm', all_there).
       if all_there
       then obind (rb_monitor_op_value0 E mem f lm' now) (\<lambda>mv. Inr (lm', mv))
       else Inr (lm', None))"

text \<open>The loop of \<open>rb_monitor_op_vector\<close>: the children so far, their sum and their number.\<close>

fun op_vector_loop ::
    "'f matheval \<Rightarrow> mem \<Rightarrow> 'f \<Rightarrow> values_array \<Rightarrow> libmatheval_vars \<Rightarrow> time_t \<Rightarrow> nat list
      \<Rightarrow> monitor_value option list \<Rightarrow> double \<Rightarrow> nat
      \<Rightarrow> (monitor_value option list \<times> double \<times> nat) outcome" where
  "op_vector_loop E mem f op_vars lm now [] children acc count = Inr (children, acc, count)"
| "op_vector_loop E mem f op_vars lm now (i # is) children acc count =
     obind (rb_monitor_op_vector_i E (mem (At_child i)) f op_vars lm i now) (\<lambda>(lm', child).
       case child of
         None \<Rightarrow> op_vector_loop E mem f op_vars lm' now is (children @ [None]) acc count
       | Some mv \<Rightarrow>
           obind (scalar_of mv) (\<lambda>s.
             op_vector_loop E mem f op_vars lm' now is (children @ [Some mv])
               (fl_add acc (val s)) (Suc count)))"

definition rb_monitor_op_vector ::
    "'f matheval \<Rightarrow> mem \<Rightarrow> 'f \<Rightarrow> values_array \<Rightarrow> libmatheval_vars \<Rightarrow> 'j rb_monitor \<Rightarrow> nat \<Rightarrow> time_t
      \<Rightarrow> monitor_value option outcome" where
  "rb_monitor_op_vector E mem f op_vars lm monitor children_count0 now =
     (if \<not> mem At_children then Inr None
      else
        obind (op_vector_loop E mem f op_vars lm now [0..<children_count0] [] fl_zero 0)
          (\<lambda>(children, acc, count).
            let split_op = split_op_monitor (mem At_split_op) 64 (mon_splitop monitor) acc count now
            in Inr (new_monitor_value_array (mem At_array) children split_op)))"

definition rb_monitor_get_op_result ::
    "'f matheval \<Rightarrow> mem \<Rightarrow> 'j rb_monitor \<Rightarrow> values_array option \<Rightarrow> time_t \<Rightarrow> monitor_value option outcome" where
  "rb_monitor_get_op_result E mem monitor op_vars now =
     (case op_vars of
        None \<Rightarrow> Inr None
      | Some a \<Rightarrow>
          if arr_count a = 0 then Inr None
          else
            case (if mem At_evaluator then ev_create E (mon_cmd_arg monitor) else None) of
              None \<Rightarrow> Inr None
            | Some f \<Rightarrow>
                obind (op_libmatheval_vars (mem At_matheval_vars) a (ev_variables E f)) (\<lambda>lm_opt.
                  case lm_opt of
                    None \<Rightarrow> Inr None
                  | Some lm \<Rightarrow>
                      obind (elm_at a 0) (\<lambda>mv_0.
                        case mv_0 of
                          None \<Rightarrow> Inr None
                        | Some (MV_array cs sp) \<Rightarrow>
                            rb_monitor_op_vector E mem f a lm monitor (length cs) now
                        | Some (MV_value s) \<Rightarrow> rb_monitor_op_value E mem f a lm now)))"

section \<open>Dispatch\<close>

record 'f libs =
  lib_shell :: shell
  lib_snmp :: snmp_lib
  lib_eval :: "'f matheval"

text \<open>The context holds the SNMP session; both pointers may be null.\<close>

type_synonym process_ctx = "snmp_session option option"

definition rb_monitor_get_system_external_value ::
    "shell \<Rightarrow> mem \<Rightarrow> time_t \<Rightarrow> 'j rb_monitor \<Rightarrow> monitor_value option outcome" where
  [simp]: "rb_monitor_get_system_external_value popen mem now monitor =
     rb_monitor_get_external_value mem monitor (system_solve_response popen) now"

text \<open>\<open>snmp_solve_response0\<close> only casts its context; the context of the pass is read first.\<close>

definition rb_monitor_get_snmp_external_value ::
    "snmp_lib \<Rightarrow> mem \<Rightarrow> time_t \<Rightarrow> process_ctx \<Rightarrow> 'j rb_monitor \<Rightarrow> monitor_value option outcome" where
  [simp]: "rb_monitor_get_snmp_external_value S mem now ctx monitor =
     (case ctx of
        Some (Some session) \<Rightarrow> rb_monitor_get_external_value mem monitor (snmp_solve_response S session) now
      | _ \<Rightarrow> Inl Null_deref)"

definition process_sensor_monitor ::
    "'f libs \<Rightarrow> mem \<Rightarrow> time_t \<Rightarrow> process_ctx \<Rightarrow> 'j rb_monitor \<Rightarrow> values_array option
      \<Rightarrow> monitor_value option outcome" where
  "process_sensor_monitor libs mem now ctx monitor op_vars =
     (case mon_type monitor of
        RB_MONITOR_T__SYSTEM \<Rightarrow> rb_monitor_get_system_external_value (lib_shell libs) mem now monitor
      | RB_MONITOR_T__OID \<Rightarrow> rb_monitor_get_snmp_external_value (lib_snmp libs) mem now ctx monitor
      | RB_MONITOR_T__OP \<Rightarrow> rb_monitor_get_op_result (lib_eval libs) mem monitor op_vars now)"

end
