(* ===== verification/Messages.thy ===== *)
theory Messages
  imports Values Monitor
begin

text \<open>
  Messages: the message array of src/rb_message_list.c, with the bytes it allocates, and the
  printing of monitor values as JSON text in src/rb_value.c. The main lemma says that printing a
  vector writes one message per child it has, in order, and then the split operation's, and never
  outside the array.
\<close>

section \<open>Message arrays\<close>

text \<open>
  A message is librdkafka's \<open>rd_kafka_message_t\<close>; its size and the offsets of the two fields the
  program writes are parameters. The program stores pointers and sizes of 8 bytes.
\<close>

record msg_layout =
  msg_size :: nat
  payload_off :: nat
  len_off :: nat

record rb_message =
  payload :: "string option"
  msg_len :: nat

record rb_message_array =
  alloc_bytes :: nat
  msg_count :: nat
  msgs :: "rb_message list"

definition no_message :: rb_message where
  "no_message = \<lparr>payload = None, msg_len = 0\<rparr>"

text \<open>
  \<open>calloc(1, sizeof(ret) + s * sizeof(ret->msgs[0]))\<close>: \<open>ret\<close> is a pointer, so 8 bytes stand for
  the 24 of the header (a \<open>TAILQ\<close> entry of two pointers, and \<open>count\<close> at offset 16).
\<close>

definition header_bytes :: nat where
  "header_bytes = 24"

definition new_messages_array :: "msg_layout \<Rightarrow> bool \<Rightarrow> nat \<Rightarrow> rb_message_array option outcome" where
  "new_messages_array L mem s =
     (let bytes = 8 + s * msg_size L
      in if \<not> mem then Inr None
         else if bytes < header_bytes then Inl Buffer_overflow
         else Inr (Some \<lparr>alloc_bytes = bytes, msg_count = s, msgs = replicate s no_message\<rparr>))"

text \<open>Storing the payload and the length of message \<open>i\<close>.\<close>

definition set_message ::
    "msg_layout \<Rightarrow> rb_message_array \<Rightarrow> nat \<Rightarrow> rb_message \<Rightarrow> rb_message_array outcome" where
  "set_message L a i m =
     (let base = header_bytes + i * msg_size L
      in if base + payload_off L + 8 \<le> alloc_bytes a \<and> base + len_off L + 8 \<le> alloc_bytes a
         then Inr (a\<lparr>msgs := (msgs a)[i := m]\<rparr>)
         else Inl Buffer_overflow)"

text \<open>
  The allocation is 16 bytes short of the last message, so it is enough only when the message
  type ends in 16 bytes the program leaves alone.
\<close>

definition layout_ok :: "msg_layout \<Rightarrow> bool" where
  "layout_ok L \<longleftrightarrow> payload_off L + 24 \<le> msg_size L \<and> len_off L + 24 \<le> msg_size L"

text \<open>The layout of \<open>rd_kafka_message_t\<close> on a 64-bit platform.\<close>

definition rdkafka_layout :: msg_layout where
  "rdkafka_layout = \<lparr>msg_size = 72, payload_off = 24, len_off = 32\<rparr>"

definition msgs_wf :: "msg_layout \<Rightarrow> nat \<Rightarrow> rb_message_array \<Rightarrow> bool" where
  "msgs_wf L s a \<longleftrightarrow> length (msgs a) = s \<and> alloc_bytes a = 8 + s * msg_size L"

lemma layout_ok_rdkafka [simp]: "layout_ok rdkafka_layout"
  by (simp add: layout_ok_def rdkafka_layout_def)

lemma new_messages_array_ok:
  assumes "layout_ok L" and "0 < s"
  obtains a where "new_messages_array L True s = Inr (Some a)" and "msgs_wf L s a"
    and "msgs a = replicate s no_message"
proof -
  have "1 * 24 \<le> s * msg_size L" using assms by (intro mult_le_mono) (auto simp: layout_ok_def)
  then show ?thesis
    using that by (simp add: new_messages_array_def Let_def header_bytes_def msgs_wf_def)
qed

lemma set_message_ok:
  assumes "layout_ok L" and "msgs_wf L s a" and "i < s"
  shows "set_message L a i m = Inr (a\<lparr>msgs := (msgs a)[i := m]\<rparr>)"
    and "msgs_wf L s (a\<lparr>msgs := (msgs a)[i := m]\<rparr>)"
proof -
  have "Suc i * msg_size L \<le> s * msg_size L" using assms(3) by (intro mult_le_mono) auto
  then show "set_message L a i m = Inr (a\<lparr>msgs := (msgs a)[i := m]\<rparr>)"
    using assms by (auto simp: set_message_def Let_def header_bytes_def msgs_wf_def layout_ok_def)
  show "msgs_wf L s (a\<lparr>msgs := (msgs a)[i := m]\<rparr>)"
    using assms by (simp add: msgs_wf_def)
qed

section \<open>The text of one value\<close>

definition print_monitor_value_enrichment_str ::
    "'j json_c \<Rightarrow> string \<Rightarrow> string \<Rightarrow> 'j option \<Rightarrow> string" where
  "print_monitor_value_enrichment_str J buf key val' =
     (case jc_string J val' of
        None \<Rightarrow> buf
      | Some str \<Rightarrow> jc_sprintbuf J buf ('',\"'' @ key @ ''\":\"'' @ str @ ''\"''))"

definition print_monitor_value_enrichment_int ::
    "'j json_c \<Rightarrow> string \<Rightarrow> string \<Rightarrow> 'j option \<Rightarrow> string" where
  "print_monitor_value_enrichment_int J buf key val' =
     (let (integer', err) = jc_int64 J val'
      in if err then buf else jc_sprintbuf J buf ('',\"'' @ key @ ''\":'' @ print_ld integer'))"

definition print_monitor_value_enrichment1 ::
    "'j json_c \<Rightarrow> string \<Rightarrow> string \<times> 'j option \<Rightarrow> string" where
  "print_monitor_value_enrichment1 J buf kv =
     (let (key, val') = kv
      in case jc_type J val' of
           Json_string \<Rightarrow> print_monitor_value_enrichment_str J buf key val'
         | Json_int \<Rightarrow> print_monitor_value_enrichment_int J buf key val'
         | Json_null \<Rightarrow> jc_sprintbuf J buf ('',\"'' @ key @ ''\":null'')
         | Json_boolean \<Rightarrow>
             jc_sprintbuf J buf ('',\"'' @ key @ ''\":'' @ (if jc_boolean J val' then ''true'' else ''false''))
         | Json_double \<Rightarrow>
             jc_sprintbuf J buf ('',\"'' @ key @ ''\":'' @ print_lf (jc_double J val'))
         | Json_object \<Rightarrow> buf
         | Json_array \<Rightarrow> buf)"

definition print_monitor_value_enrichment :: "'j json_c \<Rightarrow> string \<Rightarrow> 'j \<Rightarrow> string" where
  "print_monitor_value_enrichment J buf enrichment =
     foldl (print_monitor_value_enrichment1 J) buf (jc_members J enrichment)"

definition NO_INSTANCE :: int where
  "NO_INSTANCE = - 1"

text \<open>The successive contents of the buffer in \<open>print_monitor_value0\<close>.\<close>

definition monitor_value_text ::
    "'j json_c \<Rightarrow> scalar \<Rightarrow> 'j rb_monitor \<Rightarrow> int \<Rightarrow> string" where
  "monitor_value_text J v monitor instance' =
     (let sp = jc_sprintbuf J;
          b1 = sp [] ''{'';
          b2 = sp b1 (''\"timestamp\":'' @ print_lu (timestamp v));
          b3 = (case (instance' \<noteq> NO_INSTANCE, mon_name_split_suffix monitor) of
                  (True, Some sfx) \<Rightarrow> sp b2 ('',\"monitor\":\"'' @ mon_name monitor @ sfx @ ''\"'')
                | _ \<Rightarrow> sp b2 ('',\"monitor\":\"'' @ mon_name monitor @ ''\"''));
          b4 = (case (instance' \<noteq> NO_INSTANCE, mon_instance_prefix monitor) of
                  (True, Some pre) \<Rightarrow> sp b3 ('',\"instance\":\"'' @ pre @ show_int instance' @ ''\"'')
                | _ \<Rightarrow> b3);
          b5 = (if mon_integer monitor
                then sp b4 ('',\"value\":'' @ print_ld (fl_to_int64 (val v)))
                else sp b4 ('',\"value\":\"'' @ print_lf (val v) @ ''\"''));
          b6 = (case mon_group_id monitor of
                  Some gid \<Rightarrow> sp b5 ('',\"group_id\":'' @ gid)
                | None \<Rightarrow> b5);
          b7 = print_monitor_value_enrichment J b6 (mon_enrichment monitor)
      in sp b7 ''}'')"

text \<open>A message is left as it is when its buffer cannot be allocated.\<close>

definition print_monitor_value0 ::
    "msg_layout \<Rightarrow> 'j json_c \<Rightarrow> mem \<Rightarrow> rb_message_array \<Rightarrow> nat \<Rightarrow> monitor_value \<Rightarrow> 'j rb_monitor
      \<Rightarrow> int \<Rightarrow> rb_message_array outcome" where
  "print_monitor_value0 L J mem ret i mv monitor instance' =
     (if \<not> mem (At_printbuf i) then Inr ret
      else obind (scalar_of mv) (\<lambda>v.
             let txt = monitor_value_text J v monitor instance'
             in set_message L ret i \<lparr>payload = Some txt, msg_len = length txt\<rparr>))"

section \<open>Printing a value\<close>

text \<open>The conversion of the loop's \<open>size_t\<close> index to \<open>int\<close>.\<close>

definition int_of_size :: "nat \<Rightarrow> int" where
  "int_of_size i = sint (word_of_nat i :: 32 word)"

fun print_children ::
    "msg_layout \<Rightarrow> 'j json_c \<Rightarrow> mem \<Rightarrow> 'j rb_monitor \<Rightarrow> monitor_value option list \<Rightarrow> nat \<Rightarrow> nat
      \<Rightarrow> rb_message_array \<Rightarrow> (rb_message_array \<times> nat) outcome" where
  "print_children L J mem monitor [] i i_msgs ret = Inr (ret, i_msgs)"
| "print_children L J mem monitor (None # cs) i i_msgs ret =
     print_children L J mem monitor cs (Suc i) i_msgs ret"
| "print_children L J mem monitor (Some c # cs) i i_msgs ret =
     obind (print_monitor_value0 L J mem ret i_msgs c monitor (int_of_size i)) (\<lambda>ret'.
       print_children L J mem monitor cs (Suc i) (Suc i_msgs) ret')"

definition print_monitor_value ::
    "msg_layout \<Rightarrow> 'j json_c \<Rightarrow> mem \<Rightarrow> monitor_value \<Rightarrow> 'j rb_monitor \<Rightarrow> rb_message_array option outcome" where
  "print_monitor_value L J mem mv monitor =
     (let ret_size = (case mv of
                        MV_value _ \<Rightarrow> 1
                      | MV_array cs sp \<Rightarrow> length cs + (if sp \<noteq> None then 1 else 0))
      in obind (new_messages_array L (mem At_messages) ret_size) (\<lambda>a.
         (case a of
            None \<Rightarrow> Inr None
          | Some ret \<Rightarrow>
              (case mv of
                 MV_value _ \<Rightarrow>
                   obind (print_monitor_value0 L J mem ret 0 mv monitor NO_INSTANCE) (\<lambda>r. Inr (Some r))
               | MV_array cs sp \<Rightarrow>
                   obind (print_children L J mem monitor cs 0 0 ret) (\<lambda>(ret1, i_msgs).
                   (case sp of
                      None \<Rightarrow> Inr (Some (ret1\<lparr>msg_count := i_msgs\<rparr>))
                    | Some s \<Rightarrow>
                        obind (print_monitor_value0 L J mem ret1 i_msgs s monitor NO_INSTANCE) (\<lambda>ret2.
                          Inr (Some (ret2\<lparr>msg_count := Suc i_msgs\<rparr>)))))))))"

text \<open>The messages an array holds: those before \<open>count\<close>.\<close>

definition messages_of :: "rb_message_array \<Rightarrow> rb_message list" where
  "messages_of a = take (msg_count a) (msgs a)"

section \<open>What printing writes\<close>

definition value_message :: "'j json_c \<Rightarrow> 'j rb_monitor \<Rightarrow> scalar \<Rightarrow> int \<Rightarrow> rb_message" where
  "value_message J monitor v instance' =
     (let txt = monitor_value_text J v monitor instance' in \<lparr>payload = Some txt, msg_len = length txt\<rparr>)"

text \<open>The reference: the messages of the children that are there, each with its position.\<close>

fun children_messages ::
    "'j json_c \<Rightarrow> 'j rb_monitor \<Rightarrow> scalar option list \<Rightarrow> nat \<Rightarrow> rb_message list" where
  "children_messages J monitor [] i = []"
| "children_messages J monitor (None # cs) i = children_messages J monitor cs (Suc i)"
| "children_messages J monitor (Some v # cs) i =
     value_message J monitor v (int_of_size i) # children_messages J monitor cs (Suc i)"

definition MV_scalars :: "scalar option list \<Rightarrow> scalar option \<Rightarrow> monitor_value" where
  "MV_scalars cs sp = MV_array (map (map_option MV_value) cs) (map_option MV_value sp)"

definition value_messages ::
    "'j json_c \<Rightarrow> 'j rb_monitor \<Rightarrow> scalar option list \<Rightarrow> scalar option \<Rightarrow> rb_message list" where
  "value_messages J monitor cs sp =
     children_messages J monitor cs 0
       @ (case sp of None \<Rightarrow> [] | Some v \<Rightarrow> [value_message J monitor v NO_INSTANCE])"

lemma print_monitor_value0_ok:
  assumes "layout_ok L" and "msgs_wf L s ret" and "i < s"
  shows "print_monitor_value0 L J no_oom ret i (MV_value v) monitor n =
           Inr (ret\<lparr>msgs := (msgs ret)[i := value_message J monitor v n]\<rparr>)"
  using set_message_ok [OF assms]
  by (simp add: print_monitor_value0_def value_message_def Let_def)

lemma length_children_messages: "length (children_messages J monitor cs i) \<le> length cs"
  by (induction J monitor cs i rule: children_messages.induct) auto

lemma print_children_ok:
  assumes "layout_ok L" and "msgs_wf L s ret" and "k + length cs \<le> s"
  shows "\<exists>ret'. print_children L J no_oom monitor (map (map_option MV_value) cs) i k ret
             = Inr (ret', k + length (children_messages J monitor cs i))
           \<and> msgs_wf L s ret'
           \<and> take (k + length (children_messages J monitor cs i)) (msgs ret')
             = take k (msgs ret) @ children_messages J monitor cs i"
  using assms(2,3)
proof (induction J monitor cs i arbitrary: k ret rule: children_messages.induct)
  case (3 J monitor v cs i)
  then have k: "k < s" by simp
  define ret1 where "ret1 = ret\<lparr>msgs := (msgs ret)[k := value_message J monitor v (int_of_size i)]\<rparr>"
  have wf1: "msgs_wf L s ret1" using set_message_ok(2) [OF assms(1) 3(2) k] by (simp add: ret1_def)
  have "k < length (msgs ret)" using 3(2) k by (simp add: msgs_wf_def)
  then have take1: "take (Suc k) (msgs ret1) = take k (msgs ret) @ [value_message J monitor v (int_of_size i)]"
    by (simp add: ret1_def take_Suc_conv_app_nth)
  have "Suc k + length cs \<le> s" using 3(3) by simp
  from 3(1) [OF wf1 this] take1
    print_monitor_value0_ok [OF assms(1) 3(2) k, of J v monitor "int_of_size i"]
  show ?case by (auto simp: ret1_def [symmetric])
qed auto

lemma print_monitor_value_array_ok:
  assumes "layout_ok L" and "cs \<noteq> []"
  shows "\<exists>a. print_monitor_value L J no_oom (MV_scalars cs sp) monitor = Inr (Some a)
           \<and> messages_of a = value_messages J monitor cs sp"
proof -
  define s where "s = length cs + (if sp \<noteq> None then 1 else 0)"
  have "0 < s" using assms(2) by (auto simp: s_def)
  with assms(1) obtain a where a: "new_messages_array L True s = Inr (Some a)" "msgs_wf L s a"
    by (rule new_messages_array_ok)
  define n where "n = length (children_messages J monitor cs 0)"
  obtain b where b: "print_children L J no_oom monitor (map (map_option MV_value) cs) 0 0 a = Inr (b, n)"
    "msgs_wf L s b" "take n (msgs b) = children_messages J monitor cs 0"
    using print_children_ok [OF assms(1) a(2), of 0 cs J monitor 0] by (auto simp: s_def n_def)
  have n: "n \<le> length cs" by (simp add: n_def length_children_messages)
  show ?thesis
  proof (cases sp)
    case None
    with a b show ?thesis
      by (simp add: print_monitor_value_def MV_scalars_def s_def messages_of_def value_messages_def)
  next
    case (Some v)
    with n have "n < s" by (simp add: s_def)
    note p = print_monitor_value0_ok [OF assms(1) b(2) this, of J v monitor NO_INSTANCE]
    have "n < length (msgs b)" using b(2) \<open>n < s\<close> by (simp add: msgs_wf_def)
    with Some a b p show ?thesis
      by (simp add: print_monitor_value_def MV_scalars_def s_def messages_of_def value_messages_def
          take_Suc_conv_app_nth)
  qed
qed

lemma print_monitor_value_scalar_ok:
  assumes "layout_ok L"
  shows "\<exists>a. print_monitor_value L J no_oom (MV_value v) monitor = Inr (Some a)
           \<and> messages_of a = [value_message J monitor v NO_INSTANCE]"
proof -
  obtain a where a: "new_messages_array L True 1 = Inr (Some a)" "msgs_wf L 1 a"
    "msgs a = replicate 1 no_message"
    using new_messages_array_ok [OF assms, of 1] by auto
  then have "msg_count a = 1"
    by (auto simp: new_messages_array_def Let_def split: if_splits)
  then show ?thesis
    using a print_monitor_value0_ok [OF assms a(2), of 0 J v monitor NO_INSTANCE]
    by (simp add: print_monitor_value_def messages_of_def)
qed

section \<open>The short allocation\<close>

lemma set_last_message:
  assumes "new_messages_array L True s = Inr (Some a)" and "0 < s"
  shows "set_message L a (s - 1) m = Inl Buffer_overflow \<longleftrightarrow> \<not> layout_ok L"
proof -
  obtain k where s: "s = Suc k" using assms(2) by (cases s) auto
  have "alloc_bytes a = 8 + s * msg_size L"
    using assms(1) by (auto simp: new_messages_array_def Let_def split: if_splits)
  then show ?thesis by (auto simp: set_message_def Let_def header_bytes_def layout_ok_def s)
qed

end
