(* ===== verification/Monitor_Array.thy ===== *)
theory Monitor_Array
  imports Evaluate Messages
begin

text \<open>
  The monitors of one sensor, src/rb_sensor_monitor_array.c: parsing them, resolving the variables
  of the operations to positions, deciding what changed since the last pass, and the pass itself,
  which evaluates every monitor in order and hands its messages to the outputs
  (\<open>worker_process_sensor_send_array\<close> of src/main.c). Librd's comparison of doubles
  (\<open>rd_dne\<close>), the shell, the SNMP library and the evaluator are parameters.
\<close>

section \<open>Parsing the array\<close>

type_synonym 'j monitors_array = "'j rb_monitor rb_array"

text \<open>The loop of \<open>parse_rb_monitors\<close>; \<open>mem i key\<close> is for the fields of element \<open>i\<close>.\<close>

fun parse_rb_monitors_loop ::
    "'j json_c \<Rightarrow> (nat \<Rightarrow> string \<Rightarrow> bool) \<Rightarrow> 'j option \<Rightarrow> 'j option \<Rightarrow> nat list
      \<Rightarrow> 'j monitors_array \<Rightarrow> 'j monitors_array outcome" where
  "parse_rb_monitors_loop J mem monitors_array_json sensor_enrichment [] ret = Inr ret"
| "parse_rb_monitors_loop J mem monitors_array_json sensor_enrichment (i # is) ret =
     (if rb_array_full ret then Inr ret
      else
        obind (parse_rb_monitor J (mem i) (jc_array_idx J monitors_array_json i) sensor_enrichment)
          (\<lambda>monitor.
            case monitor of
              None \<Rightarrow> parse_rb_monitors_loop J mem monitors_array_json sensor_enrichment is ret
            | Some m \<Rightarrow>
                obind (rb_array_add ret (Some m)) (\<lambda>ret'.
                  parse_rb_monitors_loop J mem monitors_array_json sensor_enrichment is ret')))"

definition parse_rb_monitors ::
    "'j json_c \<Rightarrow> bool \<Rightarrow> (nat \<Rightarrow> string \<Rightarrow> bool) \<Rightarrow> 'j option \<Rightarrow> 'j option
      \<Rightarrow> 'j monitors_array option outcome" where
  "parse_rb_monitors J mem_array mem monitors_array_json sensor_enrichment =
     (let monitors_len = jc_array_length J monitors_array_json
      in case rb_array_new mem_array monitors_len of
           None \<Rightarrow> Inr None
         | Some ret \<Rightarrow>
             obind (parse_rb_monitors_loop J mem monitors_array_json sensor_enrichment
                      [0..<monitors_len] ret) (\<lambda>r. Inr (Some r)))"

section \<open>Dependencies\<close>

definition same_group :: "string option \<Rightarrow> string option \<Rightarrow> bool" where
  "same_group i_gid group_id \<longleftrightarrow>
     (case (i_gid, group_id) of
        (None, None) \<Rightarrow> True
      | (Some a, Some b) \<Rightarrow> b = a
      | _ \<Rightarrow> False)"

text \<open>The loop of \<open>find_monitor_pos\<close>: the first match from position \<open>i\<close> on, \<open>-1\<close> without one.\<close>

fun find_monitor_pos0 ::
    "'j rb_monitor option list \<Rightarrow> nat \<Rightarrow> string \<Rightarrow> string option \<Rightarrow> int outcome" where
  "find_monitor_pos0 [] i name group_id = Inr (- 1)"
| "find_monitor_pos0 (None # ms) i name group_id = Inl Null_deref"
| "find_monitor_pos0 (Some m # ms) i name group_id =
     (if name = mon_name m \<and> same_group (mon_group_id m) group_id then Inr (int i)
      else find_monitor_pos0 ms (Suc i) name group_id)"

definition find_monitor_pos ::
    "'j monitors_array \<Rightarrow> string \<Rightarrow> string option \<Rightarrow> int outcome" where
  "find_monitor_pos monitors_array name group_id =
     find_monitor_pos0 (rb_array_contents monitors_array) 0 name group_id"

text \<open>The loop over the variables: \<^term>\<open>None\<close> as soon as one is not found.\<close>

fun find_positions ::
    "'j monitors_array \<Rightarrow> string option \<Rightarrow> string list \<Rightarrow> int list option outcome" where
  "find_positions monitors_array group_id [] = Inr (Some [])"
| "find_positions monitors_array group_id (v # vs) =
     obind (find_monitor_pos monitors_array v group_id) (\<lambda>p.
       if p = - 1 then Inr None
       else obind (find_positions monitors_array group_id vs) (\<lambda>ps.
         Inr (map_option (Cons p) ps)))"

definition get_monitor_dependencies ::
    "'f matheval \<Rightarrow> (string \<Rightarrow> bool) \<Rightarrow> 'j monitors_array \<Rightarrow> 'j rb_monitor \<Rightarrow> int list option outcome" where
  "get_monitor_dependencies E mem monitors_array monitor =
     (let vars = rb_monitor_get_op_variables E mem monitor
      in if 0 < length vars
         then if \<not> mem ''dependencies'' then Inr None
              else obind (find_positions monitors_array (mon_group_id monitor) vars) (\<lambda>ps.
                     Inr (map_option (\<lambda>p. p @ [- 1]) ps))
         else Inr None)"

type_synonym dependencies = "int list option list"

fun get_monitors_dependencies_loop ::
    "'f matheval \<Rightarrow> (nat \<Rightarrow> string \<Rightarrow> bool) \<Rightarrow> 'j monitors_array \<Rightarrow> 'j rb_monitor option list \<Rightarrow> nat
      \<Rightarrow> dependencies outcome" where
  "get_monitors_dependencies_loop E mem monitors_array [] i = Inr []"
| "get_monitors_dependencies_loop E mem monitors_array (None # ms) i = Inl Null_deref"
| "get_monitors_dependencies_loop E mem monitors_array (Some m # ms) i =
     obind (get_monitor_dependencies E (mem i) monitors_array m) (\<lambda>d.
       obind (get_monitors_dependencies_loop E mem monitors_array ms (Suc i)) (\<lambda>ds. Inr (d # ds)))"

definition get_monitors_dependencies ::
    "'f matheval \<Rightarrow> bool \<Rightarrow> (nat \<Rightarrow> string \<Rightarrow> bool) \<Rightarrow> 'j monitors_array \<Rightarrow> dependencies option outcome" where
  "get_monitors_dependencies E mem_deps mem monitors_array =
     (if \<not> mem_deps then Inr None
      else obind (get_monitors_dependencies_loop E mem monitors_array (rb_array_contents monitors_array) 0)
             (\<lambda>ds. Inr (Some ds)))"

section \<open>What changed\<close>

type_synonym dne = "double \<Rightarrow> double \<Rightarrow> bool"

text \<open>
  The two loops that fill \<open>print_children\<close>: a child that is new, has a later timestamp or another
  value; beyond the old children, every child.
\<close>

fun changed_children ::
    "dne \<Rightarrow> monitor_value option list \<Rightarrow> monitor_value option list \<Rightarrow> monitor_value option list outcome" where
  "changed_children rd_dne [] olds = Inr []"
| "changed_children rd_dne (n # ns) [] = Inr (n # ns)"
| "changed_children rd_dne (n # ns) (old_mv_i # olds) =
     obind (case (n, old_mv_i) of
              (None, _) \<Rightarrow> Inr None
            | (Some new_mv_i, None) \<Rightarrow> Inr (Some new_mv_i)
            | (Some new_mv_i, Some old_mv) \<Rightarrow>
                obind (scalar_of old_mv) (\<lambda>so. obind (scalar_of new_mv_i) (\<lambda>sn.
                  Inr (if older so sn \<or> rd_dne (val so) (val sn) then Some new_mv_i else None))))
       (\<lambda>c. obind (changed_children rd_dne ns olds) (\<lambda>cs. Inr (c # cs)))"

definition split_op_result_of :: "monitor_value \<Rightarrow> monitor_value option outcome" where
  "split_op_result_of mv = (case mv of MV_value _ \<Rightarrow> Inl Bad_member | MV_array _ sp \<Rightarrow> Inr sp)"

text \<open>What the code outside the value layer provides to a pass.\<close>

record 'j printing =
  pr_layout :: msg_layout
  pr_json :: "'j json_c"
  pr_dne :: dne

definition process_monitor_value_v_print ::
    "'j printing \<Rightarrow> mem \<Rightarrow> 'j rb_monitor \<Rightarrow> monitor_value \<Rightarrow> monitor_value
      \<Rightarrow> rb_message_array option outcome" where
  "process_monitor_value_v_print P mem monitor new_mv old_mv =
     obind (children_of new_mv) (\<lambda>new_children.
     obind (children_of old_mv) (\<lambda>old_children.
     obind (changed_children (pr_dne P) new_children old_children) (\<lambda>to_print.
     obind (split_op_result_of new_mv) (\<lambda>sp.
       print_monitor_value (pr_layout P) (pr_json P) mem (MV_array to_print sp) monitor))))"

text \<open>
  The old value takes the new children and keeps its own \<open>split_op_result\<close>: the two swaps leave
  that field out.
\<close>

definition process_monitor_value_v ::
    "'j printing \<Rightarrow> mem \<Rightarrow> 'j rb_monitor \<Rightarrow> monitor_value \<Rightarrow> monitor_value
      \<Rightarrow> (rb_message_array option \<times> monitor_value) outcome" where
  "process_monitor_value_v P mem monitor new_mv old_mv =
     obind (if mon_send monitor then process_monitor_value_v_print P mem monitor new_mv old_mv
            else Inr None) (\<lambda>ret.
     obind (children_of new_mv) (\<lambda>new_children.
     obind (split_op_result_of old_mv) (\<lambda>old_split_op.
       Inr (ret, MV_array new_children old_split_op))))"

definition update_value ::
    "dne \<Rightarrow> 'j rb_monitor \<Rightarrow> monitor_value \<Rightarrow> monitor_value option \<Rightarrow> bool outcome" where
  "update_value rd_dne monitor monitor_value old_mv =
     (case old_mv of
        None \<Rightarrow> Inr True
      | Some old \<Rightarrow>
          if \<not> mon_timestamp_given monitor then Inr True
          else case monitor_value of
                 MV_array _ _ \<Rightarrow> Inr False
               | MV_value s \<Rightarrow>
                   obind (scalar_of old) (\<lambda>so. Inr (older so s \<or> rd_dne (val so) (val s))))"

text \<open>The value to keep, and the list of messages.\<close>

definition process_monitor_value ::
    "'j printing \<Rightarrow> mem \<Rightarrow> 'j rb_monitor \<Rightarrow> monitor_value \<Rightarrow> monitor_value option
      \<Rightarrow> rb_message_array tailq \<Rightarrow> (monitor_value option \<times> rb_message_array tailq) outcome" where
  "process_monitor_value P mem monitor monitor_value old_mv ret =
     obind (update_value (pr_dne P) monitor monitor_value old_mv) (\<lambda>upd.
     obind (if upd
            then obind (if mon_send monitor
                        then print_monitor_value (pr_layout P) (pr_json P) mem monitor_value monitor
                        else Inr None) (\<lambda>msgs. Inr (msgs, Some monitor_value))
            else case old_mv of
                   None \<Rightarrow> Inl Null_deref
                 | Some old \<Rightarrow>
                     if \<not> is_value monitor_value
                     then obind (process_monitor_value_v P mem monitor monitor_value old)
                            (\<lambda>(msgs, mv). Inr (msgs, Some mv))
                     else Inr (None, old_mv)) (\<lambda>(msgs, ret_mv).
       Inr (ret_mv, case msgs of None \<Rightarrow> ret | Some a \<Rightarrow> rb_message_list_push ret a)))"

section \<open>The outputs\<close>

text \<open>The fields of \<open>struct _worker_info\<close> a pass uses; an output that is not configured is null.\<close>

record worker_info =
  wi_default_session :: snmp_session
  wi_timeout :: int64
  wi_kafka_broker :: bool
  wi_http_handler :: bool

datatype produced = To_kafka rb_message | To_http rb_message

definition worker_process_sensor_send_array ::
    "worker_info \<Rightarrow> produced list \<Rightarrow> rb_message_array \<Rightarrow> produced list" where
  "worker_process_sensor_send_array worker_info outs ms =
     foldl (\<lambda>outs msg.
         let outs1 = (if wi_kafka_broker worker_info then outs @ [To_kafka msg] else outs)
         in if wi_http_handler worker_info then outs1 @ [To_http msg] else outs1)
       outs (messages_of ms)"

section \<open>The pass\<close>

record snmp_params =
  sp_peername :: "string option"
  sp_community :: "string option"
  sp_timeout :: "32 word"
  sp_version :: snmp_version

text \<open>
  What the world answers while monitor \<open>i\<close> is processed: the libraries' replies, the
  allocations that succeed, and the time.
\<close>

record 'f turn =
  turn_libs :: "'f libs"
  turn_mem :: mem
  turn_now :: time_t

record pass =
  ps_last :: values_array
  ps_current :: values_array
  ps_queue :: "rb_message_array tailq"
  ps_out :: "produced list"

definition dependency_at :: "dependencies option \<Rightarrow> nat \<Rightarrow> int list option outcome" where
  "dependency_at deps i =
     (case deps of
        None \<Rightarrow> Inl Null_deref
      | Some ds \<Rightarrow> if i < length ds then Inr (ds ! i) else Inl Out_of_bounds)"

definition process_monitor_i ::
    "'j printing \<Rightarrow> worker_info \<Rightarrow> 'j monitors_array \<Rightarrow> dependencies option \<Rightarrow> process_ctx
      \<Rightarrow> 'f turn \<Rightarrow> nat \<Rightarrow> pass \<Rightarrow> pass outcome" where
  "process_monitor_i P W monitors monitors_deps ctx T i st =
     obind (dependency_at monitors_deps i) (\<lambda>deps_i.
     obind (rb_monitor_value_array_select (turn_mem T At_select) (Some (ps_current st)) deps_i) (\<lambda>op_vars.
     obind (elm_at monitors i) (\<lambda>monitor_i.
     (case monitor_i of
        None \<Rightarrow> Inl Null_deref
      | Some monitor \<Rightarrow>
          obind (process_sensor_monitor (turn_libs T) (turn_mem T) (turn_now T) ctx monitor op_vars) (\<lambda>value'.
          obind (case value' of
                   None \<Rightarrow> Inr (ps_last st, ps_queue st)
                 | Some v \<Rightarrow>
                     obind (elm_at (ps_last st) i) (\<lambda>last_known_i.
                     obind (process_monitor_value P (turn_mem T) monitor v last_known_i (ps_queue st)) (\<lambda>(mv, ret).
                     obind (set_elm (ps_last st) i mv) (\<lambda>last'. Inr (last', ret))))) (\<lambda>(last', ret).
          obind (elm_at last' i) (\<lambda>e.
          obind (set_elm (ps_current st) i e) (\<lambda>current'.
          obind (returned (msg_list.drain (worker_process_sensor_send_array W) (ret, ps_out st))) (\<lambda>(ret', out').
            Inr \<lparr>ps_last = last', ps_current = current', ps_queue = ret', ps_out = out'\<rparr>)))))))))"

fun process_monitors_loop ::
    "'j printing \<Rightarrow> worker_info \<Rightarrow> 'j monitors_array \<Rightarrow> dependencies option \<Rightarrow> process_ctx
      \<Rightarrow> (nat \<Rightarrow> 'f turn) \<Rightarrow> nat list \<Rightarrow> pass \<Rightarrow> pass outcome" where
  "process_monitors_loop P W monitors monitors_deps ctx turns [] st = Inr st"
| "process_monitors_loop P W monitors monitors_deps ctx turns (i # is) st =
     obind (process_monitor_i P W monitors monitors_deps ctx (turns i) i st) (\<lambda>st'.
       process_monitors_loop P W monitors monitors_deps ctx turns is st')"

text \<open>
  The session of a pass, and the shared initial session it leaves: \<^term>\<open>None\<close> when the sensor
  lacks a peer or a community, otherwise what \<open>new_snmp_session\<close> returned.
\<close>

definition open_session ::
    "snmp_lib \<Rightarrow> bool \<Rightarrow> worker_info \<Rightarrow> snmp_params \<Rightarrow> worker_info \<times> snmp_session option option" where
  "open_session S mem W params =
     (case (sp_peername params, sp_community params) of
        (Some peer, Some comm) \<Rightarrow>
          let init = (wi_default_session W)\<lparr>ss_peername := Some peer\<rparr>;
              (init', sess) = new_snmp_session S mem init
                 \<lparr>cfg_community = comm, cfg_timeout = sp_timeout params,
                  cfg_flags = ss_flags init, cfg_version = sp_version params\<rparr>
          in (W\<lparr>wi_default_session := init'\<rparr>, Some sess)
      | _ \<Rightarrow> (W, None))"

record pass_mem =
  pm_session :: bool     \<comment> \<open>\<open>new_snmp_session\<close>\<close>
  pm_ctx :: bool         \<comment> \<open>\<open>new_process_sensor_monitor_ctx\<close>\<close>
  pm_current :: bool     \<comment> \<open>the copy of the values\<close>

record pass_result =
  pr_aok :: bool
  pr_worker :: worker_info
  pr_last :: values_array
  pr_queue :: "rb_message_array tailq"
  pr_out :: "produced list"

definition copy_values :: "bool \<Rightarrow> nat \<Rightarrow> values_array \<Rightarrow> values_array option outcome" where
  "copy_values mem n last_known =
     (case rb_array_new mem n of
        None \<Rightarrow> Inr None
      | Some a \<Rightarrow>
          if length (elms last_known) < n then Inl Out_of_bounds
          else Inr (Some (a\<lparr>arr_count := n, elms := take n (elms last_known)\<rparr>)))"

definition process_monitors_array ::
    "'j printing \<Rightarrow> snmp_lib \<Rightarrow> pass_mem \<Rightarrow> (nat \<Rightarrow> 'f turn) \<Rightarrow> worker_info \<Rightarrow> 'j monitors_array
      \<Rightarrow> values_array \<Rightarrow> dependencies option \<Rightarrow> snmp_params \<Rightarrow> rb_message_array tailq
      \<Rightarrow> produced list \<Rightarrow> pass_result outcome" where
  "process_monitors_array P S PM turns W monitors last_known monitors_deps params ret out =
     (let (W', sess) = open_session S (pm_session PM) W params;
          ctx = (if sess \<noteq> None \<and> pm_ctx PM then sess else None)
      in obind (copy_values (pm_current PM) (arr_count monitors) last_known) (\<lambda>current.
         (case (sess, current) of
            (Some (Some s), Some cur) \<Rightarrow>
              obind (process_monitors_loop P W' monitors monitors_deps ctx turns [0..<arr_count monitors]
                       \<lparr>ps_last = last_known, ps_current = cur, ps_queue = ret, ps_out = out\<rparr>) (\<lambda>st.
                Inr \<lparr>pr_aok = True, pr_worker = W', pr_last = ps_last st, pr_queue = ps_queue st,
                     pr_out = ps_out st\<rparr>)
          | _ \<Rightarrow> Inr \<lparr>pr_aok = False, pr_worker = W', pr_last = last_known, pr_queue = ret,
                      pr_out = out\<rparr>)))"

end
