(* ===== verification/Dependencies.thy ===== *)
theory Dependencies
  imports Monitor_Array
begin

text \<open>
  The variables of operation monitors, resolved once per sensor: every stored position is inside
  the array and names the first monitor with the variable's name in the operation's group.
\<close>

section \<open>Finding a monitor\<close>

definition names_variable :: "string \<Rightarrow> string option \<Rightarrow> 'j rb_monitor \<Rightarrow> bool" where
  "names_variable name group_id m \<longleftrightarrow> mon_name m = name \<and> mon_group_id m = group_id"

lemma same_group_eq: "same_group a b \<longleftrightarrow> a = b"
  by (auto simp: same_group_def split: option.splits)

text \<open>Position \<open>p\<close> holds the first monitor of that name and group.\<close>

definition first_named :: "'j rb_monitor option list \<Rightarrow> string \<Rightarrow> string option \<Rightarrow> nat \<Rightarrow> bool" where
  "first_named ms name group_id p \<longleftrightarrow>
     p < length ms \<and> (\<exists>m. ms ! p = Some m \<and> names_variable name group_id m)
     \<and> (\<forall>q < p. \<forall>m. ms ! q = Some m \<longrightarrow> \<not> names_variable name group_id m)"

definition none_named :: "'j rb_monitor option list \<Rightarrow> string \<Rightarrow> string option \<Rightarrow> bool" where
  "none_named ms name group_id \<longleftrightarrow> (\<forall>m. Some m \<in> set ms \<longrightarrow> \<not> names_variable name group_id m)"

lemma first_named_0: "names_variable name g m \<Longrightarrow> first_named (Some m # ms) name g 0"
  by (simp add: first_named_def)

lemma first_named_Suc:
  "\<not> names_variable name g m \<Longrightarrow> first_named ms name g p \<Longrightarrow> first_named (Some m # ms) name g (Suc p)"
  by (auto simp: first_named_def nth_Cons less_Suc_eq_0_disj split: nat.splits)

lemma find_monitor_pos0_cases:
  assumes "None \<notin> set ms"
  shows "(find_monitor_pos0 ms i name g = Inr (- 1) \<and> none_named ms name g)
       \<or> (\<exists>p. find_monitor_pos0 ms i name g = Inr (int (i + p)) \<and> first_named ms name g p)"
  using assms
proof (induction ms i name g rule: find_monitor_pos0.induct)
  case (3 m ms i name g)
  show ?case
  proof (cases "names_variable name g m")
    case True
    then have "find_monitor_pos0 (Some m # ms) i name g = Inr (int (i + 0))"
      by (simp add: names_variable_def same_group_eq)
    with first_named_0 [OF True] show ?thesis by blast
  next
    case False
    then have guard: "\<not> (name = mon_name m \<and> same_group (mon_group_id m) g)"
      by (auto simp: names_variable_def same_group_eq)
    have ms: "None \<notin> set ms" using 3(2) by simp
    have eq: "find_monitor_pos0 (Some m # ms) i name g = find_monitor_pos0 ms (Suc i) name g"
      by (simp only: find_monitor_pos0.simps guard if_False)
    from 3(1) [OF guard ms] show ?thesis
    proof (elim disjE exE conjE)
      assume "find_monitor_pos0 ms (Suc i) name g = Inr (- 1)" "none_named ms name g"
      with False eq show ?thesis by (auto simp: none_named_def)
    next
      fix p assume "find_monitor_pos0 ms (Suc i) name g = Inr (int (Suc i + p))" "first_named ms name g p"
      with first_named_Suc [OF False] eq have
        "find_monitor_pos0 (Some m # ms) i name g = Inr (int (i + Suc p))
         \<and> first_named (Some m # ms) name g (Suc p)" by simp
      then show ?thesis by blast
    qed
  qed
qed (auto simp: none_named_def)

lemma find_monitor_pos_cases:
  assumes "None \<notin> set (rb_array_contents a)"
  shows "(find_monitor_pos a name g = Inr (- 1) \<and> none_named (rb_array_contents a) name g)
       \<or> (\<exists>p. find_monitor_pos a name g = Inr (int p) \<and> first_named (rb_array_contents a) name g p)"
  using find_monitor_pos0_cases [OF assms, of 0 name g] by (simp add: find_monitor_pos_def)

section \<open>The variables of an operation\<close>

lemma find_positions_cases:
  assumes "None \<notin> set (rb_array_contents a)"
  shows "(find_positions a g vs = Inr None \<and> (\<exists>v \<in> set vs. none_named (rb_array_contents a) v g))
       \<or> (\<exists>ps. find_positions a g vs = Inr (Some (map int ps))
             \<and> list_all2 (\<lambda>v p. first_named (rb_array_contents a) v g p) vs ps)"
proof (induction vs)
  case Nil
  have "find_positions a g [] = Inr (Some (map int []))" by simp
  then show ?case by blast
next
  case (Cons v vs)
  from find_monitor_pos_cases [OF assms, of v g] show ?case
  proof (elim disjE exE conjE)
    fix p assume p: "find_monitor_pos a v g = Inr (int p)" "first_named (rb_array_contents a) v g p"
    from Cons show ?thesis
    proof (elim disjE exE conjE)
      fix ps assume "find_positions a g vs = Inr (Some (map int ps))"
        "list_all2 (\<lambda>v p. first_named (rb_array_contents a) v g p) vs ps"
      with p have "find_positions a g (v # vs) = Inr (Some (map int (p # ps)))
          \<and> list_all2 (\<lambda>v p. first_named (rb_array_contents a) v g p) (v # vs) (p # ps)" by simp
      then show ?thesis by blast
    qed (use p in simp)
  qed simp
qed

text \<open>
  \<open>d\<close> holds the dependencies of monitor \<open>m\<close>: none, or for an operation one position per variable
  of its expression.
\<close>

definition deps_ok ::
    "'f matheval \<Rightarrow> 'j rb_monitor option list \<Rightarrow> 'j rb_monitor \<Rightarrow> int list option \<Rightarrow> bool" where
  "deps_ok E ms m d \<longleftrightarrow>
     (case d of
        None \<Rightarrow> True
      | Some l \<Rightarrow> mon_type m = RB_MONITOR_T__OP \<and>
          (\<exists>f ps. ev_create E (mon_cmd_arg m) = Some f \<and> l = pos_list ps \<and> ps \<noteq> []
             \<and> list_all2 (\<lambda>v p. first_named ms v (mon_group_id m) p) (ev_variables E f) ps))"

lemma get_monitor_dependencies_ok:
  assumes "None \<notin> set (rb_array_contents a)"
  shows "\<exists>d. get_monitor_dependencies E mem a m = Inr d \<and> deps_ok E (rb_array_contents a) m d"
proof (cases "rb_monitor_get_op_variables E mem m = [] \<or> \<not> mem ''dependencies''")
  case True
  then have "get_monitor_dependencies E mem a m = Inr None"
    by (auto simp: get_monitor_dependencies_def Let_def)
  then show ?thesis by (simp add: deps_ok_def)
next
  case False
  then obtain f where f: "mon_type m = RB_MONITOR_T__OP" "ev_create E (mon_cmd_arg m) = Some f"
    and vars: "rb_monitor_get_op_variables E mem m = ev_variables E f" "ev_variables E f \<noteq> []"
    by (auto simp: rb_monitor_get_op_variables_def Let_def split: if_splits option.splits)
  have eq: "get_monitor_dependencies E mem a m =
      obind (find_positions a (mon_group_id m) (ev_variables E f)) (\<lambda>ps. Inr (map_option (\<lambda>p. p @ [- 1]) ps))"
    using False vars by (simp add: get_monitor_dependencies_def)
  from find_positions_cases [OF assms, of "mon_group_id m" "ev_variables E f"] show ?thesis
  proof (elim disjE exE conjE)
    fix ps assume ps: "find_positions a (mon_group_id m) (ev_variables E f) = Inr (Some (map int ps))"
      "list_all2 (\<lambda>v p. first_named (rb_array_contents a) v (mon_group_id m) p) (ev_variables E f) ps"
    then have "ps \<noteq> []" using vars(2) by auto
    then have "deps_ok E (rb_array_contents a) m (Some (pos_list ps))"
      using ps f unfolding deps_ok_def by auto
    with eq ps show ?thesis by (simp add: pos_list_def)
  qed (simp add: eq deps_ok_def)
qed

lemma get_monitors_dependencies_loop_ok:
  assumes "None \<notin> set (rb_array_contents a)" and "None \<notin> set ms"
  shows "\<exists>ds. get_monitors_dependencies_loop E mem a ms i = Inr ds \<and>
     list_all2 (\<lambda>m d. deps_ok E (rb_array_contents a) (the m) d) ms ds"
  using assms(2)
proof (induction ms arbitrary: i)
  case (Cons m ms)
  then obtain m' where m: "m = Some m'" by (cases m) auto
  obtain d where d: "get_monitor_dependencies E (mem i) a m' = Inr d" "deps_ok E (rb_array_contents a) m' d"
    using get_monitor_dependencies_ok [OF assms(1)] by blast
  have "None \<notin> set ms" using Cons.prems by simp
  from Cons.IH [OF this, of "Suc i"] d m show ?case by fastforce
qed simp

definition all_deps_ok :: "'f matheval \<Rightarrow> 'j rb_monitor option list \<Rightarrow> dependencies \<Rightarrow> bool" where
  "all_deps_ok E ms ds \<longleftrightarrow> list_all2 (\<lambda>m d. deps_ok E ms (the m) d) ms ds"

lemma get_monitors_dependencies_all_ok:
  assumes "None \<notin> set (rb_array_contents a)"
  shows "\<exists>ds. get_monitors_dependencies E mem_deps mem a = Inr ds
    \<and> (mem_deps \<longrightarrow> ds \<noteq> None) \<and> (\<forall>d. ds = Some d \<longrightarrow> all_deps_ok E (rb_array_contents a) d)"
  using get_monitors_dependencies_loop_ok [OF assms assms, of E mem 0]
  by (auto simp: get_monitors_dependencies_def all_deps_ok_def)

lemma deps_okD:
  assumes "deps_ok E ms m (Some l)"
  obtains f ps where "mon_type m = RB_MONITOR_T__OP" and "ev_create E (mon_cmd_arg m) = Some f"
    and "l = pos_list ps" and "ps \<noteq> []" and "length (ev_variables E f) = length ps"
    and "\<forall>p \<in> set ps. p < length ms"
proof -
  obtain f ps where f: "mon_type m = RB_MONITOR_T__OP" "ev_create E (mon_cmd_arg m) = Some f"
    "l = pos_list ps" "ps \<noteq> []"
    "list_all2 (\<lambda>v p. first_named ms v (mon_group_id m) p) (ev_variables E f) ps"
    using assms by (auto simp: deps_ok_def)
  have "\<forall>p \<in> set ps. p < length ms"
    using f(5) by (fastforce simp: list_all2_conv_all_nth in_set_conv_nth first_named_def)
  with that [OF f(1-4)] list_all2_lengthD [OF f(5)] show thesis by simp
qed

end
