(* ===== verification/Operations.thy ===== *)
theory Operations
  imports Vectors
begin

text \<open>
  What the operations of src/rb_sensor_monitor.c compute. Over scalars an operation is one
  evaluation of its expression with every operand bound to its variable; over vectors, as the
  code is written, it never computes a child. Every value the layer builds is well formed, and
  the only faults left are an empty split token and a result too long for its 64-byte buffer.
\<close>

section \<open>Well-formed values\<close>

definition scalar_or_null :: "monitor_value option \<Rightarrow> bool" where
  "scalar_or_null c = (case c of None \<Rightarrow> True | Some mv \<Rightarrow> is_value mv)"

definition value_wf :: "monitor_value \<Rightarrow> bool" where
  "value_wf mv =
     (case mv of
        MV_value _ \<Rightarrow> True
      | MV_array cs sp \<Rightarrow> cs \<noteq> [] \<and> list_all scalar_or_null cs \<and> scalar_or_null sp)"

lemma scalar_or_null_simps [simp, value_simps]:
  "scalar_or_null None"
  "scalar_or_null (Some mv) \<longleftrightarrow> is_value mv"
  by (simp_all add: scalar_or_null_def)

lemma value_wf_simps [simp, value_simps]:
  "value_wf (MV_value s)"
  "value_wf (MV_array cs sp) \<longleftrightarrow> cs \<noteq> [] \<and> list_all scalar_or_null cs \<and> scalar_or_null sp"
  by (simp_all add: value_wf_def)

lemma process_novector_monitor_wf [simp]:
  "scalar_or_null (process_novector_monitor mem buf v now)"
  by (simp add: process_novector_monitor_def)

lemma process_novector_monitor_SomeD:
  "process_novector_monitor mem buf v now = Some mv \<Longrightarrow>
     mv = MV_value \<lparr>timestamp = now, val = v, bad_value = False, string_value = buf\<rparr>"
  by (simp add: process_novector_monitor_def split: if_splits)

lemma split_op_monitor_wf [simp]: "scalar_or_null (split_op_monitor mem b op acc n now)"
  by (simp add: split_op_monitor_def Let_def split: option.splits)

lemma split_op_monitor_0 [simp]: "split_op_monitor mem b op acc 0 now = None"
  by (simp add: split_op_monitor_def split: option.splits)

lemma vector_result_wf: "value_wf (vector_result mem monitor sep now buf)"
proof -
  have "list_all scalar_or_null (vector_children mem monitor sep now i ts)" for i ts
    using vector_child_scalar
    by (induction ts arbitrary: i) (auto simp: scalar_or_null_def split: option.splits)
  moreover have "vector_children mem monitor sep now 0 (token_starts sep buf) \<noteq> []"
    using token_starts_nonempty [of sep buf]
    by (metis length_0_conv length_vector_children)
  ultimately show ?thesis by (simp add: vector_result_def Let_def)
qed

lemma vector_result_not_value [simp]: "\<not> is_value (vector_result mem monitor sep now buf)"
  by (simp add: vector_result_def Let_def)

section \<open>External values\<close>

lemma external_value_cases:
  assumes "mon_splittok monitor \<noteq> Some []"
  shows "\<exists>v. rb_monitor_get_external_value mem monitor cb now = Inr v
     \<and> (\<forall>mv. v = Some mv \<longrightarrow> value_wf mv \<and> (is_value mv \<longleftrightarrow> mon_splittok monitor = None))"
proof (cases "mon_splittok monitor")
  case None
  then show ?thesis
    by (auto simp: rb_monitor_get_external_value_def Let_def process_novector_monitor_def
        split: prod.splits)
next
  case (Some sep)
  with assms have "sep \<noteq> []" by simp
  note eq = process_vector_monitor_eq [OF Some this]
  show ?thesis
    using Some vector_result_wf
    by (auto simp: rb_monitor_get_external_value_def Let_def eq split: prod.splits)
qed

section \<open>Operations over scalars\<close>

text \<open>The variables of an operation whose operands are all scalars.\<close>

definition scalars_of :: "scalar list \<Rightarrow> monitor_value option list" where
  "scalars_of ss = map (\<lambda>s. Some (MV_value s)) ss"

lemma op_vars_loop_bound:
  "i + length mvs \<le> length names \<Longrightarrow>
     \<exists>r. op_vars_loop mvs names i ex lm = Inr r \<and> (\<forall>lm'. r = Some lm' \<longrightarrow> lm_values lm' = lm_values lm)"
proof (induction mvs names i ex lm rule: op_vars_loop.induct)
  case (3 mv mvs names i ex lm)
  then show ?case by (auto simp: Let_def)
qed auto

lemma op_vars_loop_scalars:
  assumes "i + length ss \<le> length names"
  shows "op_vars_loop (scalars_of ss) names i ex lm =
     Inr (Some (lm\<lparr>lm_names := foldl (\<lambda>ns k. ns[k := Some (names ! k)]) (lm_names lm) [i..<i + length ss],
                   lm_count := lm_count lm + length ss\<rparr>))"
  using assms
proof (induction ss arbitrary: i ex lm)
  case (Cons s ss)
  have "[i..<i + length (s # ss)] = i # [Suc i..<Suc i + length ss]"
    by (simp add: upt_conv_Cons del: upt_Suc)
  with Cons show ?case by (simp add: scalars_of_def Let_def del: upt_Suc)
qed (simp add: scalars_of_def)

lemma foldl_updates:
  "i + n \<le> length ns \<Longrightarrow>
     foldl (\<lambda>ns k. ns[k := f k]) ns [i..<i + n] = take i ns @ map f [i..<i + n] @ drop (i + n) ns"
proof (induction n)
  case (Suc n)
  have IH: "foldl (\<lambda>ns k. ns[k := f k]) ns [i..<i + n] = take i ns @ map f [i..<i + n] @ drop (i + n) ns"
    using Suc.prems by (intro Suc.IH) auto
  have "drop (i + n) ns = ns ! (i + n) # drop (Suc (i + n)) ns"
    using Suc.prems by (simp add: Cons_nth_drop_Suc)
  with IH Suc.prems show ?case by (simp add: list_update_append min_def)
qed simp

lemma op_value_loop_scalars:
  "v + length ss \<le> length (lm_values lm) \<Longrightarrow>
     op_value_loop (scalars_of ss) v lm =
       (lm\<lparr>lm_values := take v (lm_values lm) @ map val ss @ drop (v + length ss) (lm_values lm)\<rparr>, True)"
proof (induction ss arbitrary: v lm)
  case (Cons s ss)
  have "drop v (lm_values lm) = lm_values lm ! v # drop (Suc v) (lm_values lm)"
    using Cons.prems by (simp add: Cons_nth_drop_Suc)
  with Cons show ?case by (simp add: scalars_of_def take_Suc_conv_app_nth take_update_cancel)
qed (simp add: scalars_of_def)

text \<open>The result of an expression, as the code keeps it.\<close>

definition op_result ::
    "'f matheval \<Rightarrow> bool \<Rightarrow> 'f \<Rightarrow> string list \<Rightarrow> double list \<Rightarrow> time_t \<Rightarrow> monitor_value option outcome" where
  "op_result E mem f names vals now =
     (let number = ev_evaluate E f (map Some names) vals
      in if \<not> isnormal number then Inr None
         else if 64 \<le> length (print_lf number) then Inl Buffer_overflow
         else Inr (process_novector_monitor mem (print_lf number) number now))"

lemma get_op_result_scalars:
  assumes contents: "rb_array_contents a = scalars_of ss" "rb_array_wf a" "ss \<noteq> []"
    and create: "ev_create E (mon_cmd_arg monitor) = Some f" "mem At_evaluator" "mem At_matheval_vars"
    and names: "length (ev_variables E f) = length ss"
  shows "rb_monitor_get_op_result E mem monitor (Some a) now =
           op_result E (mem At_scalar) f (ev_variables E f) (map val ss) now"
proof -
  have count: "arr_count a = length ss"
    using length_rb_array_contents [OF contents(2)] contents(1) by (simp add: scalars_of_def)
  define n where "n = length ss"
  define lm0 where "lm0 = \<lparr>lm_names = replicate n None, lm_values = replicate n fl_zero, lm_count = 0\<rparr>"
  define lm where "lm = lm0\<lparr>lm_names := map Some (ev_variables E f), lm_count := n\<rparr>"
  have "foldl (\<lambda>ns k. ns[k := Some (ev_variables E f ! k)]) (replicate n None) [0..<0 + n]
      = map (\<lambda>k. Some (ev_variables E f ! k)) [0..<n]"
    using foldl_updates [of 0 n "replicate n None" "\<lambda>k. Some (ev_variables E f ! k)"]
    by simp
  also have "\<dots> = map Some (ev_variables E f)"
    by (rule nth_equalityI) (simp_all add: names n_def)
  finally have "op_vars_loop (scalars_of ss) (ev_variables E f) 0 0 lm0 = Inr (Some lm)"
    using op_vars_loop_scalars [of 0 ss "ev_variables E f" 0 lm0] names
    by (simp add: lm_def lm0_def n_def)
  then have vars: "op_libmatheval_vars True a (ev_variables E f) = Inr (Some lm)"
    by (simp add: op_libmatheval_vars_def new_libmatheval_vars_def contents(1) count
        lm0_def n_def)
  have vals: "op_value_loop (scalars_of ss) 0 lm = (lm\<lparr>lm_values := map val ss\<rparr>, True)"
    using op_value_loop_scalars [of 0 ss lm] by (simp add: lm_def lm0_def n_def)
  obtain s where s: "elm_at a 0 = Inr (Some (MV_value s))"
    using elm_at_contents [OF contents(2), of 0] contents(1,3) count
    by (cases ss) (auto simp: scalars_of_def)
  have lm_fields: "take (lm_count lm) (lm_names lm) = map Some (ev_variables E f)"
    by (simp add: lm_def lm0_def n_def names)
  have "lm_count lm = length (map val ss)" by (simp add: lm_def n_def)
  then show ?thesis
    using contents(3) s lm_fields
    by (simp add: rb_monitor_get_op_result_def create count vars rb_monitor_op_value_def contents(1)
        vals rb_monitor_op_value0_def op_result_def Let_def)
qed

section \<open>Operations over vectors\<close>

lemma op_vector_i_array:
  assumes "rb_array_contents a = Some (MV_array cs sp) # mvs"
  shows "rb_monitor_op_vector_i E mem f a lm v_pos now = Inr (lm, None)"
  by (simp add: rb_monitor_op_vector_i_def assms)

lemma op_vector_loop_array:
  assumes "rb_array_contents a = Some (MV_array cs sp) # mvs"
  shows "op_vector_loop E mem f a lm now is children acc count =
           Inr (children @ replicate (length is) None, acc, count)"
  by (induction "is" arbitrary: children)
    (simp_all add: op_vector_i_array [OF assms] replicate_app_Cons_same)

lemma op_vector_array:
  assumes "rb_array_contents a = Some (MV_array cs sp) # mvs"
  shows "rb_monitor_op_vector E mem f a lm monitor n now =
     Inr (if mem At_children \<and> mem At_array then Some (MV_array (replicate n None) None) else None)"
  by (simp add: rb_monitor_op_vector_def op_vector_loop_array [OF assms] new_monitor_value_array_def)

section \<open>Every operation\<close>

text \<open>The evaluator's results print within the 64-byte buffer.\<close>

definition prints_short :: "'f matheval \<Rightarrow> bool" where
  "prints_short E \<longleftrightarrow> (\<forall>f names vals. length (print_lf (ev_evaluate E f names vals)) < 64)"

lemma op_value0_ok:
  "prints_short E \<Longrightarrow> \<exists>v. rb_monitor_op_value0 E mem f lm now = Inr v \<and> scalar_or_null v"
  by (auto simp: rb_monitor_op_value0_def prints_short_def Let_def not_le [symmetric])

lemma op_value_ok:
  "prints_short E \<Longrightarrow> \<exists>v. rb_monitor_op_value E mem f a lm now = Inr v \<and> scalar_or_null v"
  using op_value0_ok by (fastforce simp: rb_monitor_op_value_def split: prod.splits)

lemma op_result_cases:
  assumes short: "prints_short E" and wf: "rb_array_wf a"
    and names: "\<And>f. ev_create E (mon_cmd_arg monitor) = Some f \<Longrightarrow> length (ev_variables E f) = arr_count a"
    and values_wf: "\<And>mv. Some mv \<in> set (rb_array_contents a) \<Longrightarrow> value_wf mv"
  shows "\<exists>v. rb_monitor_get_op_result E mem monitor (Some a) now = Inr v
     \<and> (\<forall>mv. v = Some mv \<longrightarrow> value_wf mv \<and>
          (\<exists>mv0 rest. rb_array_contents a = Some mv0 # rest \<and> is_value mv = is_value mv0))"
proof (cases "arr_count a = 0 \<or> \<not> mem At_evaluator \<or> ev_create E (mon_cmd_arg monitor) = None")
  case True
  then show ?thesis by (auto simp: rb_monitor_get_op_result_def)
next
  case False
  then obtain f where f: "ev_create E (mon_cmd_arg monitor) = Some f" "mem At_evaluator" "0 < arr_count a"
    by auto
  obtain c rest where c: "rb_array_contents a = c # rest"
    using length_rb_array_contents [OF wf] f(3) by (cases "rb_array_contents a") auto
  have c0: "elm_at a 0 = Inr c" using elm_at_contents [OF wf f(3)] c by simp
  have "\<exists>r. op_libmatheval_vars (mem At_matheval_vars) a (ev_variables E f) = Inr r"
    using op_vars_loop_bound [of 0 "rb_array_contents a" "ev_variables E f" 0] names [OF f(1)] wf
    by (fastforce simp: op_libmatheval_vars_def new_libmatheval_vars_def)
  then obtain r where r: "op_libmatheval_vars (mem At_matheval_vars) a (ev_variables E f) = Inr r" ..
  show ?thesis
  proof (cases "r = None \<or> c = None")
    case True
    with f r c0 show ?thesis by (auto simp: rb_monitor_get_op_result_def split: option.splits)
  next
    case False
    then obtain lm mv0 where lm: "r = Some lm" and mv0: "c = Some mv0" by auto
    show ?thesis
    proof (cases mv0)
      case (MV_value s)
      obtain v where "rb_monitor_op_value E mem f a lm now = Inr v" "scalar_or_null v"
        using op_value_ok [OF short] by blast
      with f r c0 lm mv0 MV_value c show ?thesis
        by (auto simp: rb_monitor_get_op_result_def scalar_or_null_def value_wf_def
            split: option.splits monitor_value.splits)
    next
      case (MV_array cs sp)
      have "cs \<noteq> []" using values_wf [of mv0] c mv0 MV_array by simp
      with f r c0 lm mv0 MV_array c show ?thesis
        by (auto simp: rb_monitor_get_op_result_def op_vector_array [of a cs sp rest]
            list_all_iff)
    qed
  qed
qed

section \<open>The 64-byte buffer\<close>

lemma length_nat_digits_ge: "10 ^ k \<le> n \<Longrightarrow> k < length (nat_digits n)"
proof (induction n arbitrary: k rule: nat_digits.induct)
  case (1 n)
  show ?case
  proof (cases "n < 10")
    case True
    have "k = 0"
    proof (rule ccontr)
      assume "k \<noteq> 0"
      then have "(10 :: nat) ^ 1 \<le> 10 ^ k" by (intro power_increasing) simp_all
      with True 1(2) show False by simp
    qed
    then show ?thesis by simp
  next
    case False
    then have eq: "length (nat_digits n) = Suc (length (nat_digits (n div 10)))"
      by (subst nat_digits.simps) simp
    show ?thesis
    proof (cases k)
      case (Suc j)
      then have "10 ^ j \<le> n div 10" using 1(2) by (simp add: less_eq_div_iff_mult_less_eq mult.commute)
      from 1(1) [OF False this] show ?thesis using eq Suc by simp
    qed (simp add: eq)
  qed
qed

lemma length_pad6: "length s \<le> 6 \<Longrightarrow> length (pad6 s) = 6"
  by (simp add: pad6_def)

lemma length_print_lf_whole:
  assumes "0 \<le> e"
  shows "length (print_lf (Fin s m e)) = of_bool s + length (nat_digits (m * 2 ^ nat e)) + 7"
proof -
  have "micros m e div 1000000 = m * 2 ^ nat e" "micros m e mod 1000000 = 0"
    using assms by (simp_all add: micros_def)
  moreover have "length (nat_digits 0) = 1" by (subst nat_digits.simps) simp
  ultimately show ?thesis by (simp add: Let_def sign_str_def length_pad6)
qed

text \<open>A whole result of 57 digits or more overruns the buffer; one of fewer does not.\<close>

lemma op_value0_whole:
  assumes eval: "ev_evaluate E f (take (lm_count lm) (lm_names lm)) (take (lm_count lm) (lm_values lm)) = Fin False m e"
    and whole: "0 \<le> e" and normal: "isnormal (Fin False m e)"
  shows "rb_monitor_op_value0 E mem f lm now = Inl Buffer_overflow \<longleftrightarrow> 10 ^ 56 \<le> m * 2 ^ nat e"
proof -
  define n where "n = m * 2 ^ nat e"
  have len: "length (print_lf (Fin False m e)) = length (nat_digits n) + 7"
    using length_print_lf_whole [OF whole, of False m] by (simp add: n_def)
  have "rb_monitor_op_value0 E mem f lm now = Inl Buffer_overflow \<longleftrightarrow> 64 \<le> length (print_lf (Fin False m e))"
    using normal unfolding rb_monitor_op_value0_def eval Let_def
    by (simp del: print_lf.simps isnormal.simps)
  also have "\<dots> \<longleftrightarrow> 57 \<le> length (nat_digits n)" by (simp only: len) simp
  also have "\<dots> \<longleftrightarrow> 10 ^ 56 \<le> n"
  proof
    assume "57 \<le> length (nat_digits n)"
    show "10 ^ 56 \<le> n"
    proof (rule ccontr)
      assume "\<not> 10 ^ 56 \<le> n"
      then have "length (nat_digits n) \<le> 56" by (intro length_nat_digits) simp_all
      with \<open>57 \<le> length (nat_digits n)\<close> show False by simp
    qed
  qed (use length_nat_digits_ge [of 56 n] in simp)
  finally show ?thesis by (simp add: n_def)
qed

end
