(* ===== verification/Passes.thy ===== *)
theory Passes
  imports Dependencies Operations
begin

text \<open>
  The pass over a sensor's monitors as a refinement and as a safety argument. Its copy of the last
  values is always equal to them and its message list is always drained, so a pass is a fold over
  a plain list of values. A stored value never changes between scalar and vector, so no pass reads
  the wrong member of the union; with non-empty split tokens and short evaluator results it does
  not fail at all, whatever allocations fail.
\<close>

section \<open>Selecting operands\<close>

definition filled :: "'a option list \<Rightarrow> 'a rb_array" where
  "filled xs = \<lparr>arr_size = length xs, arr_count = length xs, elms = xs\<rparr>"

lemma filled_simps [simp]:
  "rb_array_wf (filled xs)" "arr_count (filled xs) = length xs" "arr_size (filled xs) = length xs"
  "elms (filled xs) = xs" "rb_array_contents (filled xs) = xs"
  by (simp_all add: filled_def rb_array_wf_def rb_array_contents_def)

lemma filled_eqI:
  "rb_array_wf a \<Longrightarrow> arr_size a = length xs \<Longrightarrow> rb_array_contents a = xs \<Longrightarrow> (a :: 'a rb_array) = filled xs"
  using length_rb_array_contents [of a]
  by (cases a) (auto simp: filled_def rb_array_wf_def rb_array_contents_def)

lemma select_filled:
  assumes "\<forall>p \<in> set ps. p < length (elms a)"
  shows "rb_monitor_value_array_select mem (Some a) (Some (pos_list ps)) =
     Inr (if mem then Some (filled (map (\<lambda>p. elms a ! p) ps)) else None)"
proof -
  define es where "es = map (\<lambda>p. elms a ! p) ps"
  obtain b where b: "rb_arr.add_all (Inr (rb_array_fresh (length ps))) es = Inr b" "rb_array_wf b"
    "arr_size b = length ps" "rb_array_contents b = es"
    using rb_arr.add_all_fresh [of es "length ps"] by (auto simp: es_def)
  have "b = filled es" by (rule filled_eqI) (use b in \<open>simp_all add: es_def\<close>)
  with b show ?thesis
    using select_loop_pos_list [OF assms, of "rb_array_fresh (length ps)"]
    by (simp add: rb_monitor_value_array_select_def rb_array_new_def es_def)
qed

section \<open>Printing never fails\<close>

lemma print_monitor_value0_any:
  assumes "layout_ok L" and "msgs_wf L s ret" and "i < s" and "is_value mv"
  shows "\<exists>ret'. print_monitor_value0 L J mem ret i mv monitor n = Inr ret' \<and> msgs_wf L s ret'"
  using set_message_ok [OF assms(1-3)] assms(2,4)
  by (auto simp: print_monitor_value0_def Let_def elim!: is_valueE)

lemma print_children_any:
  assumes "layout_ok L" and "msgs_wf L s ret" and "k + length cs \<le> s" and "list_all scalar_or_null cs"
  shows "\<exists>ret' k'. print_children L J mem monitor cs i k ret = Inr (ret', k')
           \<and> msgs_wf L s ret' \<and> k' \<le> k + length cs"
  using assms
proof (induction L J mem monitor cs i k ret rule: print_children.induct)
  case (2 L J mem monitor cs i i_msgs ret)
  then show ?case by fastforce
next
  case (3 L J mem monitor c cs i i_msgs ret)
  then have pre: "i_msgs < s" "is_value c" by simp_all
  obtain ret1 where p: "print_monitor_value0 L J mem ret i_msgs c monitor (int_of_size i) = Inr ret1"
    "msgs_wf L s ret1"
    using print_monitor_value0_any [OF 3(2,3) pre] by blast
  then show ?case using 3 by fastforce
qed simp

lemma print_monitor_value_any:
  assumes "layout_ok L" and "value_wf mv"
  shows "\<exists>r. print_monitor_value L J mem mv monitor = Inr r"
proof (cases "mem At_messages")
  case False
  then show ?thesis by (simp add: print_monitor_value_def new_messages_array_def Let_def)
next
  case True
  show ?thesis
  proof (cases mv)
    case (MV_value s)
    obtain a where a: "new_messages_array L True 1 = Inr (Some a)" "msgs_wf L 1 a"
      using new_messages_array_ok [OF assms(1), of 1] by auto
    obtain b where "print_monitor_value0 L J mem a 0 mv monitor NO_INSTANCE = Inr b"
      using print_monitor_value0_any [OF assms(1) a(2), of 0 mv] MV_value by fastforce
    with a True MV_value show ?thesis by (simp add: print_monitor_value_def)
  next
    case (MV_array cs sp)
    define s where "s = length cs + (if sp \<noteq> None then 1 else 0)"
    have wf: "cs \<noteq> []" "list_all scalar_or_null cs" "scalar_or_null sp" using assms(2) MV_array by simp_all
    have "0 < s" using wf(1) by (simp add: s_def)
    then obtain a where a: "new_messages_array L True s = Inr (Some a)" "msgs_wf L s a"
      using new_messages_array_ok [OF assms(1)] by metis
    obtain b k where b: "print_children L J mem monitor cs 0 0 a = Inr (b, k)" "msgs_wf L s b" "k \<le> length cs"
      using print_children_any [OF assms(1) a(2), of 0 cs J mem monitor 0] wf(2) by (auto simp: s_def)
    show ?thesis
    proof (cases sp)
      case None
      with a b True MV_array show ?thesis by (simp add: print_monitor_value_def s_def)
    next
      case (Some x)
      then have "k < s" "is_value x" using b(3) wf(3) by (simp_all add: s_def)
      then obtain c where "print_monitor_value0 L J mem b k x monitor NO_INSTANCE = Inr c"
        using print_monitor_value0_any [OF assms(1) b(2)] by blast
      with Some a b True MV_array show ?thesis by (simp add: print_monitor_value_def s_def)
    qed
  qed
qed

section \<open>What is sent for a new value\<close>

lemma changed_children_ok:
  assumes "list_all scalar_or_null ns" and "list_all scalar_or_null olds"
  shows "\<exists>cs. changed_children d ns olds = Inr cs \<and> list_all scalar_or_null cs \<and> length cs = length ns"
  using assms
proof (induction d ns olds rule: changed_children.induct)
  case (3 d n ns old_mv_i olds)
  have "\<exists>c. (case (n, old_mv_i) of
              (None, _) \<Rightarrow> Inr None
            | (Some new_mv_i, None) \<Rightarrow> Inr (Some new_mv_i)
            | (Some new_mv_i, Some old_mv) \<Rightarrow>
                obind (scalar_of old_mv) (\<lambda>so. obind (scalar_of new_mv_i) (\<lambda>sn.
                  Inr (if older so sn \<or> d (val so) (val sn) then Some new_mv_i else None)))) = Inr c
         \<and> scalar_or_null c"
    using 3(2,3) by (cases n; cases old_mv_i) (auto elim!: is_valueE)
  with 3 show ?case by fastforce
qed auto

text \<open>
  Processing a value of the kind of the stored one returns, keeps the kind, and queues at most one
  message array.
\<close>

lemma process_monitor_value_ok:
  assumes lay: "layout_ok (pr_layout P)" and wf: "value_wf mv"
    and old: "\<And>o'. old = Some o' \<Longrightarrow> value_wf o' \<and> is_value o' = is_value mv"
  shows "\<exists>mv' q'. process_monitor_value P mem monitor mv old q = Inr (Some mv', q')
           \<and> value_wf mv' \<and> is_value mv' = is_value mv"
proof -
  obtain r where r: "print_monitor_value (pr_layout P) (pr_json P) mem mv monitor = Inr r"
    using print_monitor_value_any [OF lay wf] by blast
  show ?thesis
  proof (cases old)
    case None
    with r wf show ?thesis by (auto simp: process_monitor_value_def update_value_def)
  next
    case (Some o')
    note o' = old [OF Some]
    show ?thesis
    proof (cases mv)
      case (MV_value s)
      then obtain so where "o' = MV_value so" using o' by (auto elim!: is_valueE)
      with Some MV_value r show ?thesis
        by (auto simp: process_monitor_value_def update_value_def)
    next
      case (MV_array cs sp)
      then obtain cs0 sp0 where c0: "o' = MV_array cs0 sp0" using o' by (cases o') auto
      with o' wf MV_array have wfs: "list_all scalar_or_null cs" "list_all scalar_or_null cs0"
        "cs \<noteq> []" "scalar_or_null sp" "scalar_or_null sp0" by simp_all
      obtain ch where ch: "changed_children (pr_dne P) cs cs0 = Inr ch" "list_all scalar_or_null ch"
        "length ch = length cs"
        using changed_children_ok [OF wfs(1,2)] by blast
      then have "value_wf (MV_array ch sp)" using wfs by auto
      then obtain r2 where "print_monitor_value (pr_layout P) (pr_json P) mem (MV_array ch sp) monitor = Inr r2"
        using print_monitor_value_any [OF lay] by blast
      with Some MV_array c0 ch r wfs show ?thesis
        by (auto simp: process_monitor_value_def update_value_def process_monitor_value_v_def
            process_monitor_value_v_print_def children_of_def split_op_result_of_def)
    qed
  qed
qed


section \<open>Handing messages over\<close>

definition to_outputs :: "worker_info \<Rightarrow> rb_message \<Rightarrow> produced list" where
  "to_outputs W msg =
     (if wi_kafka_broker W then [To_kafka msg] else []) @ (if wi_http_handler W then [To_http msg] else [])"

lemma send_array_eq:
  "worker_process_sensor_send_array W outs a = outs @ concat (map (to_outputs W) (messages_of a))"
proof -
  have "foldl (\<lambda>outs msg.
           let outs1 = (if wi_kafka_broker W then outs @ [To_kafka msg] else outs)
           in if wi_http_handler W then outs1 @ [To_http msg] else outs1) outs ms
      = outs @ concat (map (to_outputs W) ms)" for ms
    by (induction ms arbitrary: outs) (auto simp: to_outputs_def)
  then show ?thesis by (simp add: worker_process_sensor_send_array_def)
qed

lemma send_all_eq:
  "foldl (worker_process_sensor_send_array W) outs q =
     outs @ concat (map (to_outputs W) (concat (map messages_of q)))"
  by (induction q arbitrary: outs) (simp_all add: send_array_eq)

section \<open>The pass as a fold over values\<close>

definition operands :: "mem \<Rightarrow> 'a option list \<Rightarrow> nat list option \<Rightarrow> 'a rb_array option" where
  "operands mem vals deps =
     (case deps of
        None \<Rightarrow> None
      | Some ps \<Rightarrow> if mem At_select then Some (filled (map (\<lambda>p. vals ! p) ps)) else None)"

text \<open>One monitor: the values and what has been produced, before and after.\<close>

definition pass_step ::
    "'j printing \<Rightarrow> worker_info \<Rightarrow> 'j rb_monitor list \<Rightarrow> nat list option list \<Rightarrow> process_ctx \<Rightarrow> 'f turn
      \<Rightarrow> nat \<Rightarrow> monitor_value option list \<times> produced list
      \<Rightarrow> (monitor_value option list \<times> produced list) outcome" where
  "pass_step P W ms deps ctx T i s =
     (let (vals, out) = s in
      obind (process_sensor_monitor (turn_libs T) (turn_mem T) (turn_now T) ctx (ms ! i)
               (operands (turn_mem T) vals (deps ! i))) (\<lambda>v.
        case v of
          None \<Rightarrow> Inr (vals, out)
        | Some mv \<Rightarrow>
            obind (process_monitor_value P (turn_mem T) (ms ! i) mv (vals ! i) []) (\<lambda>(mv', q).
              Inr (vals[i := mv'], out @ concat (map (to_outputs W) (concat (map messages_of q)))))))"

fun pass_fold ::
    "'j printing \<Rightarrow> worker_info \<Rightarrow> 'j rb_monitor list \<Rightarrow> nat list option list \<Rightarrow> process_ctx \<Rightarrow> (nat \<Rightarrow> 'f turn)
      \<Rightarrow> nat list \<Rightarrow> monitor_value option list \<times> produced list
      \<Rightarrow> (monitor_value option list \<times> produced list) outcome" where
  "pass_fold P W ms deps ctx turns [] s = Inr s"
| "pass_fold P W ms deps ctx turns (i # is) s =
     obind (pass_step P W ms deps ctx (turns i) i s) (pass_fold P W ms deps ctx turns is)"

definition stored_deps :: "nat list option list \<Rightarrow> dependencies" where
  "stored_deps deps = map (map_option pos_list) deps"

text \<open>The state of the loop for given values: the copy equals them and the list is empty.\<close>

definition pass_state :: "monitor_value option list \<times> produced list \<Rightarrow> pass" where
  "pass_state s = \<lparr>ps_last = filled (fst s), ps_current = filled (fst s), ps_queue = [], ps_out = snd s\<rparr>"

definition in_range :: "nat \<Rightarrow> nat list option list \<Rightarrow> bool" where
  "in_range n deps \<longleftrightarrow> length deps = n \<and> (\<forall>ps. Some ps \<in> set deps \<longrightarrow> (\<forall>p \<in> set ps. p < n))"

lemma select_operands:
  assumes "in_range n deps" and "length vals = n" and "i < n"
  shows "rb_monitor_value_array_select (mem At_select) (Some (filled vals)) (stored_deps deps ! i) =
     Inr (operands mem vals (deps ! i))"
proof (cases "deps ! i")
  case None
  with assms show ?thesis
    by (simp add: rb_monitor_value_array_select_def operands_def stored_deps_def in_range_def)
next
  case (Some ps)
  then have "Some ps \<in> set deps" using assms by (metis in_range_def nth_mem)
  then have "\<forall>p \<in> set ps. p < length (elms (filled vals))" using assms by (auto simp: in_range_def)
  from select_filled [OF this] Some assms show ?thesis
    by (simp add: operands_def stored_deps_def in_range_def)
qed

lemma elm_at_filled [simp]: "i < length xs \<Longrightarrow> elm_at (filled xs) i = Inr (xs ! i)"
  by (simp add: elm_at_def)

lemma set_elm_filled [simp]: "i < length xs \<Longrightarrow> set_elm (filled xs) i e = Inr (filled (xs[i := e]))"
  by (simp add: set_elm_def filled_def)

lemma process_monitor_value_queue:
  "process_monitor_value P mem monitor mv old [] = Inr (mv', q) \<Longrightarrow> length q \<le> 1"
  by (auto simp: process_monitor_value_def obind_Inr_iff rb_message_list_push_def
      split: option.splits prod.splits)

lemma process_monitor_i_refines:
  assumes mons: "rb_array_wf mons" "rb_array_contents mons = map Some ms"
    and deps: "in_range (length ms) deps" and len: "length (fst s) = length ms" and i: "i < length ms"
  shows "process_monitor_i P W mons (Some (stored_deps deps)) ctx T i (pass_state s) =
     obind (pass_step P W ms deps ctx T i s) (\<lambda>s'. Inr (pass_state s'))"
proof -
  obtain vals out where s: "s = (vals, out)" by (cases s)
  with len have n: "length vals = length ms" by simp
  have "arr_count mons = length ms"
    using length_rb_array_contents [OF mons(1)] mons(2) by simp
  then have m: "elm_at mons i = Inr (Some (ms ! i))"
    using elm_at_contents [OF mons(1), of i] mons(2) i by simp
  have dep: "dependency_at (Some (stored_deps deps)) i = Inr (stored_deps deps ! i)"
    using deps i by (simp add: dependency_at_def stored_deps_def in_range_def)
  have sel: "rb_monitor_value_array_select (turn_mem T At_select) (Some (filled vals)) (stored_deps deps ! i)
      = Inr (operands (turn_mem T) vals (deps ! i))"
    by (rule select_operands [OF deps n i])
  define x where "x = process_sensor_monitor (turn_libs T) (turn_mem T) (turn_now T) ctx (ms ! i)
      (operands (turn_mem T) vals (deps ! i))"
  note facts = process_monitor_i_def pass_step_def pass_state_def s dep sel m n i Let_def
    msg_list.drain_eq rb_message_list_init_def send_all_eq x_def [symmetric]
  show ?thesis
  proof (cases x)
    case (Inr v)
    show ?thesis
    proof (cases v)
      case None
      with Inr show ?thesis by (simp add: facts list_update_same_conv)
    next
      case (Some mv)
      show ?thesis
        using Inr Some
        by (cases "process_monitor_value P (turn_mem T) (ms ! i) mv (vals ! i) []")
          (auto simp: facts split: prod.splits)
    qed
  qed (simp add: facts)
qed

lemma pass_step_length:
  "pass_step P W ms deps ctx T i s = Inr s' \<Longrightarrow> length (fst s') = length (fst s)"
  by (auto simp: pass_step_def Let_def obind_Inr_iff split: prod.splits option.splits)

lemma process_monitors_loop_refines:
  assumes mons: "rb_array_wf mons" "rb_array_contents mons = map Some ms"
    and deps: "in_range (length ms) deps" and "length (fst s) = length ms" and "\<forall>i \<in> set is. i < length ms"
  shows "process_monitors_loop P W mons (Some (stored_deps deps)) ctx turns is (pass_state s) =
     obind (pass_fold P W ms deps ctx turns is s) (\<lambda>s'. Inr (pass_state s'))"
  using assms(4,5)
proof (induction "is" arbitrary: s)
  case (Cons i "is")
  then have i: "i < length ms" by simp
  show ?case
  proof (cases "pass_step P W ms deps ctx (turns i) i s")
    case (Inl e)
    then show ?thesis by (simp add: process_monitor_i_refines [OF mons deps Cons.prems(1) i])
  next
    case (Inr s')
    then have "length (fst s') = length ms" using pass_step_length Cons.prems(1) by metis
    with Inr Cons show ?thesis by (simp add: process_monitor_i_refines [OF mons deps Cons.prems(1) i])
  qed
qed simp

end
