(* ===== verification/Safety.thy ===== *)
theory Safety
  imports Passes
begin

text \<open>
  The whole pass: what \<open>process_monitors_array\<close> returns in terms of the fold, and that it does not
  fail. The invariant is that a stored value is well formed and is a scalar or a vector as its
  monitor dictates: by the presence of a split token for an external monitor, by the stored value
  of its first operand for an operation.
\<close>

section \<open>The function as a fold\<close>

lemma copy_values_filled:
  "copy_values mem (length vals) (filled vals) = Inr (if mem then Some (filled vals) else None)"
  by (simp add: copy_values_def rb_array_new_def rb_array_fresh_def filled_def)

text \<open>The session a pass works with, \<^term>\<open>None\<close> when it cannot start.\<close>

definition pass_session :: "snmp_lib \<Rightarrow> pass_mem \<Rightarrow> worker_info \<Rightarrow> snmp_params \<Rightarrow> snmp_session option" where
  "pass_session S PM W params =
     (case snd (open_session S (pm_session PM) W params) of
        Some (Some s) \<Rightarrow> if pm_current PM then Some s else None
      | _ \<Rightarrow> None)"

definition pass_finished :: "worker_info \<Rightarrow> monitor_value option list \<times> produced list \<Rightarrow> pass_result" where
  "pass_finished W s =
     \<lparr>pr_aok = True, pr_worker = W, pr_last = filled (fst s), pr_queue = [], pr_out = snd s\<rparr>"

lemma process_monitors_array_eq:
  assumes mons: "rb_array_wf mons" "rb_array_contents mons = map Some ms"
    and deps: "in_range (length ms) deps" and len: "length vals = length ms"
    and sess: "pass_session S PM W params = Some s"
  shows "process_monitors_array P S PM turns W mons (filled vals) (Some (stored_deps deps)) params [] out =
     obind (pass_fold P (fst (open_session S (pm_session PM) W params)) ms deps
              (if pm_ctx PM then Some (Some s) else None) turns [0..<length ms] (vals, out))
       (\<lambda>r. Inr (pass_finished (fst (open_session S (pm_session PM) W params)) r))"
proof -
  have n: "arr_count mons = length vals"
    using length_rb_array_contents [OF mons(1)] mons(2) len by simp
  obtain W' o' where sess0: "open_session S (pm_session PM) W params = (W', o')" by fastforce
  with sess have o': "o' = Some (Some s)" and cur: "pm_current PM"
    by (auto simp: pass_session_def split: option.splits if_splits)
  have start: "\<lparr>ps_last = filled vals, ps_current = filled vals, ps_queue = [], ps_out = out\<rparr>
      = pass_state (vals, out)" by (simp add: pass_state_def)
  define ctx where "ctx = (if pm_ctx PM then Some (Some s) else None)"
  have ctx: "(if o' \<noteq> None \<and> pm_ctx PM then o' else None) = ctx" by (simp add: o' ctx_def)
  have loop: "process_monitors_loop P W' mons (Some (stored_deps deps)) ctx turns [0..<length ms] (pass_state (vals, out))
      = obind (pass_fold P W' ms deps ctx turns [0..<length ms] (vals, out)) (\<lambda>s'. Inr (pass_state s'))"
    by (rule process_monitors_loop_refines [OF mons deps]) (simp_all add: len)
  have "process_monitors_array P S PM turns W mons (filled vals) (Some (stored_deps deps)) params [] out =
     obind (process_monitors_loop P W' mons (Some (stored_deps deps)) ctx turns [0..<length ms] (pass_state (vals, out)))
       (\<lambda>st. Inr \<lparr>pr_aok = True, pr_worker = W', pr_last = ps_last st, pr_queue = ps_queue st, pr_out = ps_out st\<rparr>)"
    unfolding process_monitors_array_def sess0 Let_def prod.case ctx n copy_values_filled
    using o' cur len start by simp
  also have "\<dots> = obind (pass_fold P W' ms deps ctx turns [0..<length ms] (vals, out)) (\<lambda>r. Inr (pass_finished W' r))"
    unfolding loop
    by (cases "pass_fold P W' ms deps ctx turns [0..<length ms] (vals, out)")
      (simp_all add: pass_finished_def pass_state_def)
  finally show ?thesis by (simp add: sess0 ctx_def)
qed

lemma process_monitors_array_no_session:
  assumes "pass_session S PM W params = None" and "arr_count mons \<le> length (elms last_known)"
  shows "process_monitors_array P S PM turns W mons last_known deps params ret out =
     Inr \<lparr>pr_aok = False, pr_worker = fst (open_session S (pm_session PM) W params),
          pr_last = last_known, pr_queue = ret, pr_out = out\<rparr>"
proof -
  obtain W' o' where sess0: "open_session S (pm_session PM) W params = (W', o')" by fastforce
  with assms show ?thesis
    by (auto simp: process_monitors_array_def pass_session_def copy_values_def rb_array_new_def
        split: option.splits if_splits)
qed

section \<open>The invariant\<close>

text \<open>Whether monitor \<open>i\<close> has scalars: fixed for the external ones, inherited for operations.\<close>

definition kind_fits ::
    "'j rb_monitor list \<Rightarrow> nat list option list \<Rightarrow> monitor_value option list \<Rightarrow> nat \<Rightarrow> bool \<Rightarrow> bool" where
  "kind_fits ms deps vals i scalar' \<longleftrightarrow>
     (if mon_type (ms ! i) = RB_MONITOR_T__OP
      then \<exists>ps mv0. deps ! i = Some ps \<and> ps \<noteq> [] \<and> vals ! (hd ps) = Some mv0 \<and> is_value mv0 = scalar'
      else scalar' \<longleftrightarrow> mon_splittok (ms ! i) = None)"

definition vals_ok :: "'j rb_monitor list \<Rightarrow> nat list option list \<Rightarrow> monitor_value option list \<Rightarrow> bool" where
  "vals_ok ms deps vals \<longleftrightarrow> length vals = length ms \<and>
     (\<forall>i < length ms. \<forall>mv. vals ! i = Some mv \<longrightarrow> value_wf mv \<and> kind_fits ms deps vals i (is_value mv))"

definition deps_fit :: "'f matheval \<Rightarrow> 'j rb_monitor list \<Rightarrow> nat list option list \<Rightarrow> bool" where
  "deps_fit E ms deps \<longleftrightarrow> length deps = length ms \<and>
     (\<forall>i < length ms. \<forall>ps. deps ! i = Some ps \<longrightarrow>
        mon_type (ms ! i) = RB_MONITOR_T__OP \<and> ps \<noteq> [] \<and> (\<forall>p \<in> set ps. p < length ms) \<and>
        (\<forall>f. ev_create E (mon_cmd_arg (ms ! i)) = Some f \<longrightarrow> length (ev_variables E f) = length ps))"

definition split_tokens_ok :: "'j rb_monitor list \<Rightarrow> bool" where
  "split_tokens_ok ms \<longleftrightarrow> (\<forall>m \<in> set ms. mon_splittok m \<noteq> Some [])"

lemma deps_fit_in_range: "deps_fit E ms deps \<Longrightarrow> in_range (length ms) deps"
  by (fastforce simp: deps_fit_def in_range_def in_set_conv_nth)

lemma vals_ok_initial: "vals_ok ms deps (replicate (length ms) None)"
  by (simp add: vals_ok_def)

lemma kind_fits_unique: "kind_fits ms deps vals i a \<Longrightarrow> kind_fits ms deps vals i b \<Longrightarrow> a = b"
  by (auto simp: kind_fits_def split: if_splits)

text \<open>Storing a value of the fitting kind keeps the invariant, even when operations feed back.\<close>

lemma vals_ok_update:
  assumes inv: "vals_ok ms deps vals" and i: "i < length ms"
    and new: "value_wf mv" "kind_fits ms deps vals i (is_value mv)"
  shows "vals_ok ms deps (vals[i := Some mv])"
proof -
  have len: "length vals = length ms" using inv by (simp add: vals_ok_def)
  have same: "is_value mv = is_value old" if "vals ! i = Some old" for old
    using kind_fits_unique [OF new(2)] inv i that by (auto simp: vals_ok_def)
  have keep: "kind_fits ms deps (vals[i := Some mv]) j b" if "kind_fits ms deps vals j b" for j b
  proof (cases "mon_type (ms ! j) = RB_MONITOR_T__OP")
    case True
    with that obtain ps mv0 where ps: "deps ! j = Some ps" "ps \<noteq> []" "vals ! (hd ps) = Some mv0" "is_value mv0 = b"
      by (auto simp: kind_fits_def)
    have "\<exists>x. vals[i := Some mv] ! (hd ps) = Some x \<and> is_value x = b"
      using ps same len i by (cases "hd ps = i") auto
    with True ps show ?thesis by (auto simp: kind_fits_def)
  qed (use that in \<open>simp add: kind_fits_def\<close>)
  have "value_wf x \<and> kind_fits ms deps (vals[i := Some mv]) j (is_value x)"
    if j: "j < length ms" and x: "vals[i := Some mv] ! j = Some x" for j x
  proof (cases "j = i")
    case True
    with x i len have "x = mv" by simp
    with new keep True show ?thesis by simp
  next
    case False
    with x have "vals ! j = Some x" by simp
    with inv j have "value_wf x" "kind_fits ms deps vals j (is_value x)" by (auto simp: vals_ok_def)
    with keep show ?thesis by simp
  qed
  with len show ?thesis by (simp add: vals_ok_def)
qed

section \<open>No pass fails\<close>

lemma process_sensor_monitor_ok:
  assumes inv: "vals_ok ms deps vals" and fit: "deps_fit E ms deps" and i: "i < length ms"
    and tok: "split_tokens_ok ms" and E: "lib_eval libs = E" "prints_short E"
  shows "\<exists>v. process_sensor_monitor libs mem now (Some (Some s)) (ms ! i) (operands mem vals (deps ! i)) = Inr v
     \<and> (\<forall>mv. v = Some mv \<longrightarrow> value_wf mv \<and> kind_fits ms deps vals i (is_value mv))"
proof -
  have m: "mon_splittok (ms ! i) \<noteq> Some []" using tok i by (simp add: split_tokens_ok_def)
  show ?thesis
  proof (cases "mon_type (ms ! i)")
    case RB_MONITOR_T__SYSTEM
    with external_value_cases [OF m, of mem "system_solve_response (lib_shell libs)" now]
    show ?thesis by (auto simp: process_sensor_monitor_def kind_fits_def)
  next
    case RB_MONITOR_T__OID
    with external_value_cases [OF m, of mem "snmp_solve_response (lib_snmp libs) s" now]
    show ?thesis by (auto simp: process_sensor_monitor_def kind_fits_def)
  next
    case RB_MONITOR_T__OP
    show ?thesis
    proof (cases "deps ! i = None \<or> \<not> mem At_select")
      case True
      then have "operands mem vals (deps ! i) = None"
        by (auto simp: operands_def split: option.splits)
      with RB_MONITOR_T__OP show ?thesis
        by (simp add: process_sensor_monitor_def rb_monitor_get_op_result_def)
    next
      case False
      then obtain ps where ps: "deps ! i = Some ps" and ops:
        "operands mem vals (deps ! i) = Some (filled (map (\<lambda>p. vals ! p) ps))"
        by (auto simp: operands_def)
      have p: "ps \<noteq> []" "\<forall>p \<in> set ps. p < length ms"
        "\<And>f. ev_create E (mon_cmd_arg (ms ! i)) = Some f \<Longrightarrow> length (ev_variables E f) = length ps"
        using fit i ps by (auto simp: deps_fit_def)
      have "value_wf mv" if "Some mv \<in> set (map (\<lambda>p. vals ! p) ps)" for mv
        using that p(2) inv by (auto simp: vals_ok_def)
      then obtain v where v: "rb_monitor_get_op_result E mem (ms ! i) (Some (filled (map (\<lambda>p. vals ! p) ps))) now = Inr v"
        and res: "\<forall>mv. v = Some mv \<longrightarrow> value_wf mv \<and>
          (\<exists>mv0 rest. map (\<lambda>p. vals ! p) ps = Some mv0 # rest \<and> is_value mv = is_value mv0)"
        using op_result_cases [OF E(2), of "filled (map (\<lambda>p. vals ! p) ps)" "ms ! i" mem now] p(3)
        by auto
      have "kind_fits ms deps vals i (is_value mv)" if "v = Some mv" for mv
        using res that ps p(1) RB_MONITOR_T__OP by (cases ps) (auto simp: kind_fits_def)
      with v res RB_MONITOR_T__OP E(1) ops show ?thesis by (auto simp: process_sensor_monitor_def)
    qed
  qed
qed

definition turn_ok :: "'f matheval \<Rightarrow> 'f turn \<Rightarrow> bool" where
  "turn_ok E T \<longleftrightarrow> lib_eval (turn_libs T) = E"

lemma pass_step_ok:
  assumes inv: "vals_ok ms deps (fst s)" and fit: "deps_fit E ms deps" and i: "i < length ms"
    and tok: "split_tokens_ok ms" and E: "turn_ok E T" "prints_short E"
    and lay: "layout_ok (pr_layout P)"
  shows "\<exists>s'. pass_step P W ms deps (Some (Some se)) T i s = Inr s' \<and> vals_ok ms deps (fst s')"
proof -
  obtain vals out where s: "s = (vals, out)" by (cases s)
  with inv have inv': "vals_ok ms deps vals" by simp
  obtain v where v: "process_sensor_monitor (turn_libs T) (turn_mem T) (turn_now T) (Some (Some se)) (ms ! i)
      (operands (turn_mem T) vals (deps ! i)) = Inr v"
    and fits: "\<forall>mv. v = Some mv \<longrightarrow> value_wf mv \<and> kind_fits ms deps vals i (is_value mv)"
    using process_sensor_monitor_ok [OF inv' fit i tok _ E(2)] E(1) unfolding turn_ok_def by blast
  show ?thesis
  proof (cases v)
    case None
    with v s inv' show ?thesis by (simp add: pass_step_def)
  next
    case (Some mv)
    with fits have mv: "value_wf mv" "kind_fits ms deps vals i (is_value mv)" by auto
    have "value_wf o' \<and> is_value o' = is_value mv" if "vals ! i = Some o'" for o'
      using inv' i that kind_fits_unique mv(2) by (fastforce simp: vals_ok_def)
    from process_monitor_value_ok [OF lay mv(1) this]
    obtain mv' q' where p: "process_monitor_value P (turn_mem T) (ms ! i) mv (vals ! i) [] = Inr (Some mv', q')"
      "value_wf mv'" "is_value mv' = is_value mv" by metis
    have "vals_ok ms deps (vals[i := Some mv'])"
      by (rule vals_ok_update [OF inv' i p(2)]) (use mv p(3) in simp)
    with v Some p s show ?thesis by (simp add: pass_step_def)
  qed
qed

lemma pass_fold_ok:
  assumes fit: "deps_fit E ms deps" and tok: "split_tokens_ok ms" and short: "prints_short E"
    and lay: "layout_ok (pr_layout P)"
    and "\<forall>i \<in> set is. i < length ms \<and> turn_ok E (turns i)" and "vals_ok ms deps (fst s)"
  shows "\<exists>s'. pass_fold P W ms deps (Some (Some se)) turns is s = Inr s' \<and> vals_ok ms deps (fst s')"
  using assms(5,6)
proof (induction "is" arbitrary: s)
  case (Cons i "is")
  then obtain s' where "pass_step P W ms deps (Some (Some se)) (turns i) i s = Inr s'" "vals_ok ms deps (fst s')"
    using pass_step_ok [OF Cons.prems(2) fit _ tok _ short lay, of i "turns i" W se] Cons.prems(1) by auto
  with Cons show ?case by auto
qed simp

text \<open>The dependencies \<open>get_monitors_dependencies\<close> computes fit.\<close>

lemma all_deps_ok_fit:
  assumes "all_deps_ok E (map Some ms) ds"
  obtains deps where "ds = stored_deps deps" and "deps_fit E ms deps"
proof -
  define dec where "dec d = map_option (\<lambda>l. SOME ps. l = pos_list ps) d" for d :: "int list option"
  have inj: "(SOME ps. pos_list qs = pos_list ps) = qs" for qs
    by (rule some_equality) (auto simp: pos_list_def inj_map_eq_map inj_on_def)
  have len: "length ds = length ms" using assms by (auto simp: all_deps_ok_def dest: list_all2_lengthD)
  have d: "deps_ok E (map Some ms) (ms ! i) (ds ! i)" if "i < length ms" for i
    using assms that by (auto simp: all_deps_ok_def list_all2_conv_all_nth)
  have "ds = stored_deps (map dec ds)"
  proof (rule nth_equalityI)
    fix i assume "i < length ds"
    with d [of i] len show "ds ! i = stored_deps (map dec ds) ! i"
      by (cases "ds ! i") (auto simp: stored_deps_def dec_def inj elim!: deps_okD)
  qed (simp add: stored_deps_def)
  moreover have "deps_fit E ms (map dec ds)"
    unfolding deps_fit_def
  proof (intro conjI allI impI)
    fix i ps assume i: "i < length ms" and ps: "map dec ds ! i = Some ps"
    then obtain l where l: "ds ! i = Some l" using len by (auto simp: dec_def)
    with d [OF i] obtain f qs where q: "mon_type (ms ! i) = RB_MONITOR_T__OP"
      "ev_create E (mon_cmd_arg (ms ! i)) = Some f" "l = pos_list qs" "qs \<noteq> []"
      "length (ev_variables E f) = length qs" "\<forall>p \<in> set qs. p < length (map Some ms)"
      by (auto elim: deps_okD)
    with ps l i len have "ps = qs" by (simp add: dec_def inj)
    with q show "mon_type (ms ! i) = RB_MONITOR_T__OP" and "ps \<noteq> []" and "\<forall>p \<in> set ps. p < length ms"
      by auto
    fix g assume "ev_create E (mon_cmd_arg (ms ! i)) = Some g"
    with q \<open>ps = qs\<close> show "length (ev_variables E g) = length ps" by simp
  qed (simp add: len)
  ultimately show thesis by (rule that)
qed

end
