(* ===== verification/Sensor.thy ===== *)
theory Sensor
  imports Safety
begin

text \<open>
  Sensors, src/rb_sensor.c: the record, the parser of a JSON sensor with its enrichment and its
  defaults, the checks, and the processing of a sensor. A sensor the parser accepts has everything
  a pass over its monitors needs, except for one allocation the code does not check.
\<close>

section \<open>The record\<close>

record 'j rb_sensor =
  sen_enrichment :: "'j option"
  sen_snmp :: snmp_params
  sen_monitors :: "'j monitors_array option"
  sen_last_vals :: "values_array option"
  sen_op_vars :: "dependencies option"
  sen_refcnt :: "32 word"

definition SENSOR_NAME_ENRICHMENT_KEY :: string where
  "SENSOR_NAME_ENRICHMENT_KEY = ''sensor_name''"

definition SENSOR_ID_ENRICHMENT_KEY :: string where
  "SENSOR_ID_ENRICHMENT_KEY = ''sensor_id''"

definition rb_sensor_name :: "'j json_c \<Rightarrow> 'j rb_sensor \<Rightarrow> string option" where
  "rb_sensor_name J sensor =
     jc_string J (case jc_get J (sen_enrichment sensor) SENSOR_NAME_ENRICHMENT_KEY of
                    None \<Rightarrow> None | Some v \<Rightarrow> v)"

text \<open>\<open>check_setted\<close>: \<open>aok\<close> after a check; the messages it prints are left out.\<close>

definition check_setted :: "'a option \<Rightarrow> bool \<Rightarrow> bool" where
  "check_setted ptr aok = (if aok \<and> ptr = None then False else aok)"

section \<open>Enrichment\<close>

text \<open>Adding a member reads through the object table, which only objects have.\<close>

definition sensor_create_enrichment ::
    "'j json_c \<Rightarrow> (string \<Rightarrow> bool) \<Rightarrow> string \<Rightarrow> int64 \<Rightarrow> 'j \<Rightarrow> ('j \<times> bool) outcome" where
  "sensor_create_enrichment J mem sensor_name sensor_id sensor_enrichment =
     (if jc_type J (Some sensor_enrichment) \<noteq> Json_object then Inl Null_deref
      else
        let (e1, name_rc) = add_json_string J (mem SENSOR_NAME_ENRICHMENT_KEY) sensor_enrichment
                              SENSOR_NAME_ENRICHMENT_KEY sensor_name
        in if \<not> name_rc then Inr (e1, False)
           else if 0 < sint sensor_id
           then let (e2, id_rc) = add_json_int64 J (mem SENSOR_ID_ENRICHMENT_KEY) e1
                                    SENSOR_ID_ENRICHMENT_KEY sensor_id
                in Inr (e2, id_rc)
           else Inr (e1, True))"

section \<open>Parsing\<close>

text \<open>The allocations of the parser, by what they are for.\<close>

record sensor_mem =
  sm_sensor :: bool
  sm_key :: "string \<Rightarrow> bool"
  sm_enrichment :: bool
  sm_monitors :: bool
  sm_monitor :: "nat \<Rightarrow> string \<Rightarrow> bool"
  sm_deps :: bool
  sm_dep :: "nat \<Rightarrow> string \<Rightarrow> bool"
  sm_last_vals :: bool

text \<open>\<open>rb_monitor_value_array_new\<close>, then the count set to the capacity.\<close>

definition new_last_vals :: "bool \<Rightarrow> nat \<Rightarrow> values_array option" where
  "new_last_vals mem n = map_option (\<lambda>a. a\<lparr>arr_count := n\<rparr>) (rb_array_new mem n)"

text \<open>
  \<open>sensor_common_attrs_parse_json\<close>: the sensor as it is left, and the value returned. The
  timeout is an \<open>int64_t\<close> read into an \<open>int\<close>.
\<close>

definition sensor_common_attrs_parse_json ::
    "'j json_c \<Rightarrow> 'f matheval \<Rightarrow> sensor_mem \<Rightarrow> 'j rb_sensor \<Rightarrow> 'j option \<Rightarrow> ('j rb_sensor \<times> bool) outcome" where
  "sensor_common_attrs_parse_json J E mem sensor sensor_info =
     (let sensor_id = parse_cjson_child_int64 J sensor_info SENSOR_ID_ENRICHMENT_KEY 0
      in case parse_cjson_child_str J sensor_info SENSOR_NAME_ENRICHMENT_KEY of
           None \<Rightarrow> Inr (sensor, False)
         | Some sensor_name \<Rightarrow>
      (case jc_get J sensor_info ''monitors'' of
         None \<Rightarrow> Inr (sensor, False)
       | Some None \<Rightarrow> Inr (sensor, False)
       | Some (Some sensor_monitors) \<Rightarrow>
           let timeout = ucast (parse_cjson_child_int64 J sensor_info ''timeout''
                            (scast (sp_timeout (sen_snmp sensor)))) in
           obind (parse_cjson_child_dup_str J (sm_key mem ''sensor_ip'') sensor_info ''sensor_ip'') (\<lambda>peer.
           obind (parse_cjson_child_dup_str J (sm_key mem ''community'') sensor_info ''community'') (\<lambda>comm.
           obind (parse_cjson_child_dup_str J (sm_key mem ''snmp_version'') sensor_info ''snmp_version'') (\<lambda>ver.
           let sensor1 = sensor\<lparr>sen_snmp := (sen_snmp sensor)
                 \<lparr>sp_timeout := timeout, sp_peername := peer, sp_community := comm,
                  sp_version := (case ver of None \<Rightarrow> sp_version (sen_snmp sensor)
                                           | Some _ \<Rightarrow> net_snmp_version ver)\<rparr>\<rparr>;
               enrichment = (case jc_get J sensor_info ''enrichment'' of
                               Some (Some e) \<Rightarrow> Some e
                             | _ \<Rightarrow> if sm_enrichment mem then Some (jc_new_object J) else None)
           in case enrichment of
                None \<Rightarrow> Inr (sensor1, False)
              | Some e \<Rightarrow>
                  obind (sensor_create_enrichment J (sm_key mem) sensor_name sensor_id e) (\<lambda>(e', rc).
                  obind (parse_rb_monitors J (sm_monitors mem) (sm_monitor mem) (Some sensor_monitors) (Some e')) (\<lambda>monitors.
                  let sensor2 = sensor1\<lparr>sen_enrichment := Some e', sen_monitors := monitors\<rparr>
                  in if \<not> rc then Inr (sensor2, False)
                     else case monitors of
                            None \<Rightarrow> Inr (sensor2, False)
                          | Some ms \<Rightarrow>
                              obind (get_monitors_dependencies E (sm_deps mem) (sm_dep mem) ms) (\<lambda>deps.
                              let last_vals = new_last_vals (sm_last_vals mem) (arr_count ms);
                                  sensor3 = sensor2\<lparr>sen_op_vars := deps, sen_last_vals := last_vals\<rparr>
                              in Inr (sensor3, last_vals \<noteq> None)))))))))"

definition sensor_common_attrs_check_sensor :: "'j rb_sensor \<Rightarrow> bool" where
  "sensor_common_attrs_check_sensor sensor =
     check_setted (sen_monitors sensor)
       (check_setted (sp_community (sen_snmp sensor))
         (check_setted (sp_peername (sen_snmp sensor)) True))"

definition sensor_common_attrs ::
    "'j json_c \<Rightarrow> 'f matheval \<Rightarrow> sensor_mem \<Rightarrow> 'j rb_sensor \<Rightarrow> 'j option \<Rightarrow> ('j rb_sensor \<times> bool) outcome" where
  "sensor_common_attrs J E mem sensor sensor_info =
     obind (sensor_common_attrs_parse_json J E mem sensor sensor_info) (\<lambda>(s, rc).
       Inr (s, rc \<and> sensor_common_attrs_check_sensor s))"

text \<open>The sensor \<open>calloc\<close> leaves, with the defaults; version 1 is the number 0.\<close>

definition sensor_set_defaults :: "worker_info \<Rightarrow> 'j rb_sensor" where
  "sensor_set_defaults worker_info =
     \<lparr>sen_enrichment = None,
      sen_snmp = \<lparr>sp_peername = None, sp_community = None, sp_timeout = ucast (wi_timeout worker_info),
                  sp_version = SNMP_VERSION_1\<rparr>,
      sen_monitors = None, sen_last_vals = None, sen_op_vars = None, sen_refcnt = 1\<rparr>"

definition parse_rb_sensor ::
    "'j json_c \<Rightarrow> 'f matheval \<Rightarrow> sensor_mem \<Rightarrow> 'j option \<Rightarrow> worker_info \<Rightarrow> 'j rb_sensor option outcome" where
  "parse_rb_sensor J E mem sensor_info worker_info =
     (if \<not> sm_sensor mem then Inr None
      else obind (sensor_common_attrs J E mem (sensor_set_defaults worker_info) sensor_info)
             (\<lambda>(s, sensor_ok). Inr (if sensor_ok then Some s else None)))"

section \<open>Processing\<close>

definition process_rb_sensor ::
    "'j printing \<Rightarrow> snmp_lib \<Rightarrow> pass_mem \<Rightarrow> (nat \<Rightarrow> 'f turn) \<Rightarrow> worker_info \<Rightarrow> 'j rb_sensor
      \<Rightarrow> rb_message_array tailq \<Rightarrow> produced list \<Rightarrow> ('j rb_sensor \<times> pass_result) outcome" where
  "process_rb_sensor P S PM turns worker_info sensor ret out =
     (case (sen_monitors sensor, sen_last_vals sensor) of
        (Some monitors, Some last_vals) \<Rightarrow>
          obind (process_monitors_array P S PM turns worker_info monitors last_vals (sen_op_vars sensor)
                   (sen_snmp sensor) ret out) (\<lambda>r.
            Inr (sensor\<lparr>sen_last_vals := Some (pr_last r)\<rparr>, r))
      | _ \<Rightarrow> Inl Null_deref)"

section \<open>What parsing establishes\<close>

lemma parse_rb_monitors_loop_ok:
  assumes "rb_array_wf ret" and "None \<notin> set (rb_array_contents ret)"
    and "\<And>m. Some m \<in> set (rb_array_contents ret) \<Longrightarrow> Q m"
    and parsed: "\<And>i m. parse_rb_monitor J (mem i) (jc_array_idx J a i) e = Inr (Some m) \<Longrightarrow> Q m"
    and "parse_rb_monitors_loop J mem a e is ret = Inr r"
  shows "rb_array_wf r \<and> None \<notin> set (rb_array_contents r) \<and> arr_size r = arr_size ret
     \<and> (\<forall>m. Some m \<in> set (rb_array_contents r) \<longrightarrow> Q m)"
  using assms(1-3,5)
proof (induction "is" arbitrary: ret)
  case (Cons i "is")
  show ?case
  proof (cases "rb_array_full ret")
    case True
    with Cons.prems show ?thesis by auto
  next
    case False
    with Cons.prems(4) obtain mo where mo: "parse_rb_monitor J (mem i) (jc_array_idx J a i) e = Inr mo"
      by (auto simp: obind_Inr_iff)
    show ?thesis
    proof (cases mo)
      case None
      with False mo Cons.prems(4) have "parse_rb_monitors_loop J mem a e is ret = Inr r" by simp
      from Cons.IH [OF Cons.prems(1-3) this] show ?thesis .
    next
      case (Some m)
      obtain b where b: "rb_array_add ret (Some m) = Inr b" "rb_array_wf b" "arr_size b = arr_size ret"
        "rb_array_contents b = rb_array_contents ret @ [Some m]"
        using rb_arr.add_room [OF Cons.prems(1) False] by blast
      with False mo Some Cons.prems(4) have "parse_rb_monitors_loop J mem a e is b = Inr r" by simp
      moreover have "Q m" using parsed mo Some by blast
      ultimately show ?thesis using Cons.IH [of b] b Cons.prems(2,3) by auto
    qed
  qed
qed simp

lemma parse_rb_monitors_ok:
  assumes "parse_rb_monitors J mem_array mem a e = Inr (Some r)"
    and "\<And>i m. parse_rb_monitor J (mem i) (jc_array_idx J a i) e = Inr (Some m) \<Longrightarrow> Q m"
  obtains ms where "rb_array_wf r" and "rb_array_contents r = map Some ms" and "\<forall>m \<in> set ms. Q m"
    and "length ms \<le> jc_array_length J a"
proof -
  have loop: "parse_rb_monitors_loop J mem a e [0..<jc_array_length J a] (rb_array_fresh (jc_array_length J a)) = Inr r"
    using assms(1) by (auto simp: parse_rb_monitors_def Let_def obind_Inr_iff rb_array_new_def split: if_splits)
  have "rb_array_wf r \<and> None \<notin> set (rb_array_contents r)
      \<and> arr_size r = arr_size (rb_array_fresh (jc_array_length J a) :: 'a monitors_array)
      \<and> (\<forall>m. Some m \<in> set (rb_array_contents r) \<longrightarrow> Q m)"
    by (rule parse_rb_monitors_loop_ok [OF rb_arr.wf_fresh _ _ _ loop]) (use assms(2) in \<open>auto simp: rb_arr.contents_fresh\<close>)
  then have r: "rb_array_wf r" "None \<notin> set (rb_array_contents r)" "arr_size r = jc_array_length J a"
    "\<forall>m. Some m \<in> set (rb_array_contents r) \<longrightarrow> Q m"
    by (simp_all add: rb_arr.capacity_fresh)
  define ms where "ms = map the (rb_array_contents r)"
  have ms: "rb_array_contents r = map Some ms"
    using r(2) by (auto simp: ms_def intro!: nth_equalityI) (metis nth_mem option.collapse)
  then have "\<forall>m \<in> set ms. Q m" using r(4) by auto
  moreover have "length ms \<le> jc_array_length J a"
    using rb_arr.within_capacity [OF r(1)] r(3) ms by simp
  ultimately show thesis using that r(1) ms by blast
qed

lemma parse_rb_sensor_cases:
  assumes "parse_rb_sensor J E mem sensor_info W = Inr (Some s)"
  obtains ms mons where "sen_monitors s = Some mons" and "rb_array_wf mons"
    and "rb_array_contents mons = map Some ms"
    and "sen_last_vals s = Some (filled (replicate (length ms) None))"
    and "sp_peername (sen_snmp s) \<noteq> None" and "sp_community (sen_snmp s) \<noteq> None"
    and "sen_refcnt s = 1"
    and "sm_deps mem \<Longrightarrow> sen_op_vars s \<noteq> None"
    and "\<not> sm_deps mem \<Longrightarrow> sen_op_vars s = None"
    and "\<And>ds. sen_op_vars s = Some ds \<Longrightarrow> all_deps_ok E (map Some ms) ds"
    and "\<forall>m \<in> set ms. (mon_type m = RB_MONITOR_T__OP \<longrightarrow> \<not> mon_timestamp_given m)
           \<and> (\<forall>op. mon_splitop m = Some op \<longrightarrow> valid_split_op op)"
proof -
  define Q :: "'a rb_monitor \<Rightarrow> bool" where "Q m \<longleftrightarrow> (mon_type m = RB_MONITOR_T__OP \<longrightarrow> \<not> mon_timestamp_given m)
      \<and> (\<forall>op. mon_splitop m = Some op \<longrightarrow> valid_split_op op)" for m
  have Q: "parse_rb_monitor J mem' j e = Inr (Some m) \<Longrightarrow> Q m" for mem' j e m
    using parse_rb_monitor0_fields by (fastforce simp: parse_rb_monitor_def Q_def split: option.splits)
  from assms have common: "sensor_common_attrs J E mem (sensor_set_defaults W) sensor_info = Inr (s, True)"
    by (auto simp: parse_rb_sensor_def obind_Inr_iff split: if_splits)
  then have parsed: "sensor_common_attrs_parse_json J E mem (sensor_set_defaults W) sensor_info = Inr (s, True)"
    and check: "sensor_common_attrs_check_sensor s"
    by (auto simp: sensor_common_attrs_def obind_Inr_iff)
  from check have set: "sp_peername (sen_snmp s) \<noteq> None" "sp_community (sen_snmp s) \<noteq> None"
    by (auto simp: sensor_common_attrs_check_sensor_def check_setted_def split: if_splits)
  from parsed obtain mons e' jm where mons: "sen_monitors s = Some mons"
    and pm: "parse_rb_monitors J (sm_monitors mem) (sm_monitor mem) jm e' = Inr (Some mons)"
    and deps: "get_monitors_dependencies E (sm_deps mem) (sm_dep mem) mons = Inr (sen_op_vars s)"
    and last: "sen_last_vals s = new_last_vals True (arr_count mons)" and ref: "sen_refcnt s = 1"
    by (auto simp: sensor_common_attrs_parse_json_def Let_def obind_Inr_iff sensor_set_defaults_def
        new_last_vals_def rb_array_new_def split: option.splits if_splits prod.splits)
  obtain ms where ms: "rb_array_wf mons" "rb_array_contents mons = map Some ms" "\<forall>m \<in> set ms. Q m"
    by (rule parse_rb_monitors_ok [where Q = Q, OF pm]) (use Q in blast)+
  have count: "arr_count mons = length ms" using length_rb_array_contents [OF ms(1)] ms(2) by simp
  have none: "None \<notin> set (rb_array_contents mons)" using ms(2) by auto
  have "sen_last_vals s = Some (filled (replicate (length ms) None))"
    by (simp add: last count new_last_vals_def rb_array_fresh_def filled_def)
  moreover have "sm_deps mem \<Longrightarrow> sen_op_vars s \<noteq> None"
    and "\<And>ds. sen_op_vars s = Some ds \<Longrightarrow> all_deps_ok E (map Some ms) ds"
    using get_monitors_dependencies_all_ok [OF none, of E "sm_deps mem" "sm_dep mem"] deps ms(2) by auto
  moreover have "\<not> sm_deps mem \<Longrightarrow> sen_op_vars s = None"
    using deps by (simp add: get_monitors_dependencies_def)
  ultimately show thesis
    using that [of mons ms] mons ms set ref unfolding Q_def by blast
qed

section \<open>Sensors that can be processed\<close>

text \<open>
  What the parser leaves and every pass keeps: dependencies that fit the monitors, and values of
  the kind each monitor dictates.
\<close>

definition sensor_ok :: "'f matheval \<Rightarrow> 'j rb_sensor \<Rightarrow> bool" where
  "sensor_ok E s \<longleftrightarrow>
     (\<exists>mons ms deps vals.
        sen_monitors s = Some mons \<and> rb_array_wf mons \<and> rb_array_contents mons = map Some ms
        \<and> split_tokens_ok ms
        \<and> sen_op_vars s = Some (stored_deps deps) \<and> deps_fit E ms deps
        \<and> sen_last_vals s = Some (filled vals) \<and> vals_ok ms deps vals)"

lemma parsed_sensor_ok:
  assumes "parse_rb_sensor J E mem sensor_info W = Inr (Some s)" and "sm_deps mem"
    and "\<And>mons ms. sen_monitors s = Some mons \<Longrightarrow> rb_array_contents mons = map Some ms \<Longrightarrow> split_tokens_ok ms"
  shows "sensor_ok E s"
proof (rule parse_rb_sensor_cases [OF assms(1)])
  fix ms mons
  assume mons: "sen_monitors s = Some mons" "rb_array_wf mons" "rb_array_contents mons = map Some ms"
    and last: "sen_last_vals s = Some (filled (replicate (length ms) None))"
    and deps: "sm_deps mem \<Longrightarrow> sen_op_vars s \<noteq> None"
    and fit: "\<And>ds. sen_op_vars s = Some ds \<Longrightarrow> all_deps_ok E (map Some ms) ds"
  from deps assms(2) obtain ds where ds: "sen_op_vars s = Some ds" by auto
  obtain deps' where "ds = stored_deps deps'" "deps_fit E ms deps'"
    using all_deps_ok_fit [OF fit [OF ds]] .
  then show ?thesis
    unfolding sensor_ok_def using mons last ds assms(3) [OF mons(1,3)] vals_ok_initial [of ms deps'] by blast
qed

lemma pass_step_out: "pass_step P W ms deps ctx T i s = Inr s' \<Longrightarrow> prefix (snd s) (snd s')"
  by (cases s) (auto simp: pass_step_def obind_Inr_iff split: option.split_asm)

lemma pass_fold_out: "pass_fold P W ms deps ctx turns is s = Inr s' \<Longrightarrow> prefix (snd s) (snd s')"
proof (induction "is" arbitrary: s)
  case (Cons i "is")
  then obtain s1 where "pass_step P W ms deps ctx (turns i) i s = Inr s1"
    "pass_fold P W ms deps ctx turns is s1 = Inr s'" by (auto simp: obind_Inr_iff)
  from prefix_order.trans [OF pass_step_out [OF this(1)] Cons.IH [OF this(2)]] show ?case .
qed simp

lemma process_rb_sensor_ok:
  assumes ok: "sensor_ok E s" and lay: "layout_ok (pr_layout P)" and short: "prints_short E"
    and turns: "\<forall>i. turn_ok E (turns i)" and ctx: "pm_ctx PM"
  shows "\<exists>s' r. process_rb_sensor P S PM turns W s [] out = Inr (s', r) \<and> sensor_ok E s'
     \<and> pr_queue r = [] \<and> prefix out (pr_out r)
     \<and> (pr_aok r \<longleftrightarrow> pass_session S PM W (sen_snmp s) \<noteq> None)"
proof -
  obtain mons ms deps vals where mons: "sen_monitors s = Some mons" "rb_array_wf mons"
    "rb_array_contents mons = map Some ms" and tok: "split_tokens_ok ms"
    and d: "sen_op_vars s = Some (stored_deps deps)" "deps_fit E ms deps"
    and v: "sen_last_vals s = Some (filled vals)" "vals_ok ms deps vals"
    using ok by (auto simp: sensor_ok_def)
  have len: "length vals = length ms" using v(2) by (simp add: vals_ok_def)
  have count: "arr_count mons = length ms" using length_rb_array_contents [OF mons(2)] mons(3) by simp
  show ?thesis
  proof (cases "pass_session S PM W (sen_snmp s)")
    case None
    have "arr_count mons \<le> length (elms (filled vals))" using count len by simp
    from process_monitors_array_no_session [OF None this, of P turns "sen_op_vars s" "[]" out]
    show ?thesis
      using mons(1) v(1) None ok by (simp add: process_rb_sensor_def sensor_ok_def)
  next
    case (Some se)
    let ?W = "fst (open_session S (pm_session PM) W (sen_snmp s))"
    obtain r where r: "pass_fold P ?W ms deps (Some (Some se)) turns [0..<length ms] (vals, out) = Inr r"
      "vals_ok ms deps (fst r)"
      using pass_fold_ok [OF d(2) tok short lay, of "[0..<length ms]" turns "(vals, out)" ?W se] turns v(2)
      by auto
    have "process_monitors_array P S PM turns W mons (filled vals) (Some (stored_deps deps)) (sen_snmp s) [] out
        = Inr (pass_finished ?W r)"
      using process_monitors_array_eq [OF mons(2,3) deps_fit_in_range [OF d(2)] len Some, of P turns out] ctx r(1)
      by simp
    moreover have "sensor_ok E (s\<lparr>sen_last_vals := Some (filled (fst r))\<rparr>)"
      unfolding sensor_ok_def using mons tok d r(2) by auto
    moreover have "prefix out (snd r)" using pass_fold_out [OF r(1)] by simp
    ultimately show ?thesis
      using mons(1) v(1) d(1) Some by (simp add: process_rb_sensor_def pass_finished_def)
  qed
qed

text \<open>Without the dependency array, which the parser does not check, the first monitor is fatal.\<close>

lemma process_monitor_i_no_deps: "process_monitor_i P W mons None ctx T i st = Inl Null_deref"
  by (simp add: process_monitor_i_def dependency_at_def)

lemma process_rb_sensor_no_deps:
  assumes parsed: "parse_rb_sensor J E mem sensor_info W0 = Inr (Some s)" and nodeps: "\<not> sm_deps mem"
    and some: "sen_monitors s = Some mons" "0 < arr_count mons"
    and sess: "pass_session S PM W (sen_snmp s) = Some se"
  shows "process_rb_sensor P S PM turns W s [] out = Inl Null_deref"
proof (rule parse_rb_sensor_cases [OF parsed])
  fix ms mons'
  assume mons: "sen_monitors s = Some mons'" "rb_array_wf mons'" "rb_array_contents mons' = map Some ms"
    and last: "sen_last_vals s = Some (filled (replicate (length ms) None))"
    and none: "\<not> sm_deps mem \<Longrightarrow> sen_op_vars s = None"
  have count: "arr_count mons' = length ms" using length_rb_array_contents [OF mons(2)] mons(3) by simp
  then have upt: "[0..<arr_count mons'] = 0 # [Suc 0..<length ms]"
    using some mons(1) by (simp add: upt_conv_Cons)
  obtain W' o' where op: "open_session S (pm_session PM) W (sen_snmp s) = (W', o')" by fastforce
  with sess have o': "o' = Some (Some se)" and cur: "pm_current PM"
    by (auto simp: pass_session_def split: option.splits if_splits)
  have copy: "copy_values (pm_current PM) (arr_count mons') (filled (replicate (length ms) None))
      = Inr (Some (filled (replicate (length ms) None)))"
    using copy_values_filled [of "pm_current PM" "replicate (length ms) None"] cur count by simp
  have "process_monitors_array P S PM turns W mons' (filled (replicate (length ms) None)) None
      (sen_snmp s) [] out = Inl Null_deref"
    unfolding process_monitors_array_def op Let_def prod.case copy o' upt by (simp add: process_monitor_i_no_deps)
  then show ?thesis
    using mons(1) last none [OF nodeps] by (simp add: process_rb_sensor_def)
qed

end
