(* ===== verification/Updates.thy ===== *)
theory Updates
  imports Safety
begin

text \<open>
  What a new value sends: the update rule of \<open>process_monitor_value\<close>, its filter on the children of
  a vector, and the path of an SNMP integer from the agent's answer to the text of its message.
\<close>

section \<open>Vectors\<close>

text \<open>A child that need not be sent again.\<close>

definition unchanged :: "dne \<Rightarrow> scalar option \<Rightarrow> scalar option \<Rightarrow> bool" where
  "unchanged d old new =
     (case (old, new) of
        (Some a, Some b) \<Rightarrow> \<not> older a b \<and> \<not> d (val a) (val b)
      | _ \<Rightarrow> False)"

definition children_scalars :: "scalar option list \<Rightarrow> monitor_value option list" where
  "children_scalars cs = map (map_option MV_value) cs"

lemma children_scalars_simps [simp]:
  "children_scalars [] = []"
  "children_scalars (c # cs) = map_option MV_value c # children_scalars cs"
  "length (children_scalars cs) = length cs"
  by (simp_all add: children_scalars_def)

lemma changed_children_scalars:
  "\<exists>ch. changed_children d (children_scalars ns) (children_scalars olds) = Inr (children_scalars ch)
     \<and> length ch = length ns
     \<and> (\<forall>i < length ns. ch ! i = (if i < length olds \<and> unchanged d (olds ! i) (ns ! i) then None else ns ! i))"
proof (induction ns arbitrary: olds)
  case Nil
  show ?case by (rule exI [of _ "[]"]) simp
next
  case (Cons n ns)
  show ?case
  proof (cases olds)
    case Nil
    then show ?thesis by (intro exI [of _ "n # ns"]) simp
  next
    case olds: (Cons old_i olds')
    from Cons.IH [of olds'] obtain ch where ch:
      "changed_children d (children_scalars ns) (children_scalars olds') = Inr (children_scalars ch)"
      "length ch = length ns"
      "\<forall>i < length ns. ch ! i = (if i < length olds' \<and> unchanged d (olds' ! i) (ns ! i) then None else ns ! i)"
      by blast
    define c where "c = (if unchanged d old_i n then None else n)"
    have "changed_children d (children_scalars (n # ns)) (children_scalars olds) = Inr (children_scalars (c # ch))"
      using ch(1) olds by (cases n; cases old_i) (auto simp: c_def unchanged_def)
    moreover have "\<forall>i < length (n # ns). (c # ch) ! i
        = (if i < length olds \<and> unchanged d (olds ! i) ((n # ns) ! i) then None else (n # ns) ! i)"
      using ch(3) olds by (auto simp: c_def nth_Cons split: nat.splits)
    ultimately show ?thesis using ch(2) by (intro exI [of _ "c # ch"]) simp
  qed
qed

lemma MV_scalars_children: "MV_scalars cs sp = MV_array (children_scalars cs) (map_option MV_value sp)"
  by (simp add: MV_scalars_def children_scalars_def)

lemma process_monitor_value_vector:
  assumes lay: "layout_ok (pr_layout P)" and ne: "ns \<noteq> []" and send: "mon_send monitor"
    and stamped: "mon_timestamp_given monitor"
  shows "\<exists>a ch. process_monitor_value P no_oom monitor (MV_scalars ns sp) (Some (MV_scalars olds osp)) q
         = Inr (Some (MV_scalars ns osp), q @ [a])
     \<and> messages_of a = value_messages (pr_json P) monitor ch sp
     \<and> length ch = length ns
     \<and> (\<forall>i < length ns. ch ! i
          = (if i < length olds \<and> unchanged (pr_dne P) (olds ! i) (ns ! i) then None else ns ! i))"
proof -
  obtain ch where ch: "changed_children (pr_dne P) (children_scalars ns) (children_scalars olds) = Inr (children_scalars ch)"
    "length ch = length ns"
    "\<forall>i < length ns. ch ! i
       = (if i < length olds \<and> unchanged (pr_dne P) (olds ! i) (ns ! i) then None else ns ! i)"
    using changed_children_scalars by blast
  then have "ch \<noteq> []" using ne by auto
  from print_monitor_value_array_ok [OF lay this, of "pr_json P" sp monitor]
  obtain a where a: "print_monitor_value (pr_layout P) (pr_json P) no_oom (MV_scalars ch sp) monitor = Inr (Some a)"
    "messages_of a = value_messages (pr_json P) monitor ch sp" by blast
  have "process_monitor_value P no_oom monitor (MV_scalars ns sp) (Some (MV_scalars olds osp)) q
      = Inr (Some (MV_scalars ns osp), q @ [a])"
    using stamped send ch(1) a(1)
    by (simp add: process_monitor_value_def update_value_def MV_scalars_children process_monitor_value_v_def
        process_monitor_value_v_print_def children_of_def split_op_result_of_def rb_message_list_push_def)
  with a ch show ?thesis by blast
qed

section \<open>Scalars\<close>

lemma process_monitor_value_scalar:
  assumes lay: "layout_ok (pr_layout P)" and send: "mon_send monitor"
  shows "\<exists>a. messages_of a = [value_message (pr_json P) monitor s NO_INSTANCE]
     \<and> process_monitor_value P no_oom monitor (MV_value s) (map_option MV_value old) q
         = Inr (if mon_timestamp_given monitor \<and> unchanged (pr_dne P) old (Some s)
                then (map_option MV_value old, q) else (Some (MV_value s), q @ [a]))"
proof -
  obtain a where "print_monitor_value (pr_layout P) (pr_json P) no_oom (MV_value s) monitor = Inr (Some a)"
    "messages_of a = [value_message (pr_json P) monitor s NO_INSTANCE]"
    using print_monitor_value_scalar_ok [OF lay] by blast
  then show ?thesis
    using send
    by (cases old) (auto simp: process_monitor_value_def update_value_def unchanged_def
        rb_message_list_push_def split: if_splits)
qed

lemma process_monitor_value_silent:
  assumes "\<not> mon_send monitor" and "value_wf mv" and "layout_ok (pr_layout P)"
    and "\<And>o'. old = Some o' \<Longrightarrow> value_wf o' \<and> is_value o' = is_value mv"
  shows "\<exists>mv'. process_monitor_value P mem monitor mv old q = Inr (Some mv', q)"
proof -
  obtain mv' q' where p: "process_monitor_value P mem monitor mv old q = Inr (Some mv', q')"
    using process_monitor_value_ok [OF assms(3,2,4)] by blast
  then have "q' = q"
    using assms(1)
    by (auto simp: process_monitor_value_def process_monitor_value_v_def obind_Inr_iff
        split: if_splits option.splits)
  with p show ?thesis by blast
qed

section \<open>The text of an integer\<close>

lemma snmp_integer_value:
  assumes "snmp_get S session (mon_cmd_arg monitor) = Some (Asn_integer w)" and "mon_splittok monitor = None"
  shows "rb_monitor_get_external_value no_oom monitor (snmp_solve_response S session) now =
     Inr (Some (MV_value \<lparr>timestamp = now, val = fl_of_int (sint w), bad_value = False,
                          string_value = print_ld w\<rparr>))"
proof -
  have "print_ld w \<noteq> []" by (simp add: print_ld_def)
  then show ?thesis
    using assms
    by (simp add: rb_monitor_get_external_value_def snmp_solve_response_def Let_def print_ld_fits
        process_novector_monitor_def)
qed

lemma integer_text_exact:
  assumes "\<bar>sint w\<bar> < 2 ^ 53"
  shows "print_ld (fl_to_int64 (fl_of_int (sint w))) = print_ld w"
  using fl_to_int64_of_int [OF assms] by simp

text \<open>With a \<open>printbuf\<close> that appends, the text of a value is the concatenation of its parts.\<close>

lemma monitor_value_text_plain:
  assumes app: "printbuf_appends J" and grp: "mon_group_id monitor = None"
    and enr: "jc_members J (mon_enrichment monitor) = []"
  shows "monitor_value_text J v monitor NO_INSTANCE =
     ''{'' @ ''\"timestamp\":'' @ print_lu (timestamp v) @ '',\"monitor\":\"'' @ mon_name monitor @ ''\"''
       @ (if mon_integer monitor then '',\"value\":'' @ print_ld (fl_to_int64 (val v))
          else '',\"value\":\"'' @ print_lf (val v) @ ''\"'')
       @ ''}''"
proof -
  have sp: "jc_sprintbuf J b s = b @ s" for b s using app by (simp add: printbuf_appends_def)
  show ?thesis
    unfolding monitor_value_text_def Let_def sp
    by (simp add: grp enr print_monitor_value_enrichment_def)
qed

end
