(* ===== verification/Vector_Text.thy ===== *)
theory Vector_Text
  imports Vectors
begin

text \<open>
  The vector parser read as a decoder: on tokens that are printed integers, with or without a
  timestamp, joined by a separator that cannot be taken for part of a number, it returns the
  integers in their places, and the split operation is their exact sum or their correctly rounded
  mean.
\<close>

text \<open>A separator whose first character neither continues a number nor is a colon.\<close>

definition good_sep :: "string \<Rightarrow> bool" where
  "good_sep sep \<longleftrightarrow> sep \<noteq> [] \<and> ends_int sep \<and> hd sep \<noteq> CHR ''-'' \<and> hd sep \<noteq> CHR '':''"

text \<open>What is left of a token is nothing, or starts with the separator.\<close>

definition token_end :: "string \<Rightarrow> string \<Rightarrow> bool" where
  "token_end sep r \<longleftrightarrow> r = [] \<or> (\<exists>u. r = sep @ u)"

lemma token_end_ends_int: "good_sep sep \<Longrightarrow> token_end sep r \<Longrightarrow> ends_int r"
  by (cases sep) (auto simp: good_sep_def token_end_def ends_int_def)

text \<open>The timestamp and the number of a child.\<close>

definition reading :: "monitor_value option \<Rightarrow> (time_t \<times> double) option" where
  "reading c = (case c of Some (MV_value s) \<Rightarrow> Some (timestamp s, val s) | _ \<Rightarrow> None)"

lemma child_vals_reading: "child_vals c = (case reading c of None \<Rightarrow> [] | Some (t, x) \<Rightarrow> [x])"
  by (auto simp: child_vals_def reading_def split: option.splits monitor_value.splits)

lemma present_vals_readings:
  "map reading cs = map (\<lambda>x. Some (f x, g x)) xs \<Longrightarrow> present_vals cs = map g xs"
proof (induction cs arbitrary: xs)
  case (Cons c cs)
  then obtain y ys where xs: "xs = y # ys" by (cases xs) auto
  with Cons show ?case by (simp add: present_vals_def child_vals_reading)
qed (simp add: present_vals_def)

section \<open>Tokens\<close>

lemma vector_children_join:
  assumes sep: "sep \<noteq> []" and free: "\<forall>x \<in> set xs. hd sep \<notin> set (txt x)"
    and child: "\<And>i x r. x \<in> set xs \<Longrightarrow> token_end sep r \<Longrightarrow>
      reading (vector_child mem monitor sep now i (txt x @ r)) = g x"
    and xs: "xs \<noteq> []"
  shows "map reading (vector_children mem monitor sep now i (token_starts sep (join sep (map txt xs)))) = map g xs"
  using xs free child
proof (induction xs arbitrary: i rule: induct_list012)
  case (2 x)
  have "token_starts sep (txt x) = [txt x]"
    using 2 sep by (intro token_starts_None strstr_absent) auto
  then show ?case using 2(3) [of x "[]" i] by (simp add: token_end_def)
next
  case (3 x y zs)
  have "token_starts sep (join sep (map txt (x # y # zs)))
      = (txt x @ sep @ join sep (map txt (y # zs))) # token_starts sep (join sep (map txt (y # zs)))"
    using token_starts_join_Cons [of sep "txt x" "txt y" "map txt zs"] sep 3(4) by simp
  moreover have "reading (vector_child mem monitor sep now i (txt x @ sep @ join sep (map txt (y # zs)))) = g x"
    by (rule 3(5)) (auto simp: token_end_def)
  moreover have "map reading (vector_children mem monitor sep now (Suc i)
      (token_starts sep (join sep (map txt (y # zs))))) = map g (y # zs)"
    using 3(4,5) by (intro 3(2)) auto
  ultimately show ?case by simp
qed simp

lemma set_show_int: "c \<in> set (show_int z) \<Longrightarrow> is_digit c \<or> c = CHR ''-''"
  by (auto simp: show_int_def nat_digits_are_digits split: if_splits)

lemma good_sep_free: "good_sep sep \<Longrightarrow> hd sep \<notin> set (show_int z)"
  using set_show_int by (fastforce simp: good_sep_def ends_int_def)

lemma not_sep: "sep \<noteq> [] \<Longrightarrow> hd sep \<notin> set t \<Longrightarrow> t \<noteq> [] \<Longrightarrow> t @ r \<noteq> sep"
  by (cases t) auto

lemma strstr_token_end:
  assumes "sep \<noteq> []" and "hd sep \<notin> set t" and "token_end sep r"
  shows "(case strstr (t @ r) sep of None \<Rightarrow> [] | Some e \<Rightarrow> e) = r"
  using assms(3) strstr_absent [OF assms(2,1)] strstr_skip [OF assms(2,1)]
  by (auto simp: token_end_def)

section \<open>Without timestamps\<close>

lemma vector_child_int:
  assumes "good_sep sep" and "token_end sep r" and "\<bar>z\<bar> < 2 ^ 64"
    and "\<not> mon_timestamp_given monitor" and "mem (At_child i)"
  shows "reading (vector_child mem monitor sep now i (show_int z @ r)) = Some (now, fl_of_int z)"
proof -
  have sep: "sep \<noteq> []" using assms(1) by (simp add: good_sep_def)
  note free = good_sep_free [OF assms(1)]
  have "show_int z @ r \<noteq> sep" using not_sep [OF sep free] by simp
  moreover have "strtod (show_int z @ r) = (fl_of_int z, False, r)"
    by (rule strtod_show_int64 [OF token_end_ends_int [OF assms(1,2)] assms(3)])
  ultimately show ?thesis
    using assms(4,5)
    by (simp add: vector_child_def extract_vector_value_def Let_def process_novector_monitor_def reading_def)
qed

section \<open>With timestamps\<close>

definition sample_text :: "nat \<times> int \<Rightarrow> string" where
  "sample_text s = nat_digits (fst s) @ '':'' @ show_int (snd s)"

lemma colon_free: "CHR '':'' \<notin> set (nat_digits t)"
  using nat_digits_are_digits [of "CHR '':''" t] by (auto simp: is_digit_def)

lemma sample_free: "good_sep sep \<Longrightarrow> hd sep \<notin> set (sample_text s)"
  using good_sep_free [of sep "snd s"] nat_digits_are_digits [of "hd sep" "fst s"]
  by (auto simp: sample_text_def good_sep_def ends_int_def)

lemma sscanf_tu_digits:
  assumes "t < 2 ^ 64" and "r = [] \<or> \<not> is_digit (hd r)"
  shows "sscanf_tu (nat_digits t @ r) = Some (of_nat t)"
proof -
  obtain c cs where c: "nat_digits t = c # cs" "is_digit c" using hd_nat_digits by blast
  note nl = digit_not_letter [OF c(2)]
  have "split_sign (dropWhile is_space (nat_digits t @ r)) = (False, nat_digits t @ r)"
    using c nl by simp
  then show ?thesis
    using assms(1) takeWhile_digits [OF assms(2), of t] by (simp add: sscanf_tu_def)
qed

lemma vector_child_sample:
  assumes "good_sep sep" and "token_end sep r" and "\<bar>z\<bar> < 2 ^ 64" and "0 < t" and "t < 2 ^ 64"
    and "mon_timestamp_given monitor" and "mem (At_child i)"
  shows "reading (vector_child mem monitor sep now i (sample_text (t, z) @ r)) = Some (of_nat t, fl_of_int z)"
proof -
  have sep: "sep \<noteq> []" using assms(1) by (simp add: good_sep_def)
  note free = sample_free [OF assms(1), of "(t, z)"]
  have ne: "sample_text (t, z) @ r \<noteq> sep"
    by (rule not_sep [OF sep free]) (simp add: sample_text_def)
  have stop: "(case strstr (sample_text (t, z) @ r) sep of None \<Rightarrow> [] | Some e \<Rightarrow> e) = r"
    by (rule strstr_token_end [OF sep free assms(2)])
  have colon: "strstr (sample_text (t, z) @ r) '':'' = Some ('':'' @ show_int z @ r)"
    using strstr_skip [of "'':''" "nat_digits t" "show_int z @ r"] colon_free [of t]
    by (simp add: sample_text_def)
  have scan: "sscanf_tu (sample_text (t, z) @ r) = Some (of_nat t)"
    using sscanf_tu_digits [OF assms(5), of "'':'' @ show_int z @ r"]
    by (simp add: sample_text_def is_digit_def)
  have num: "strtod (show_int z @ r) = (fl_of_int z, False, r)"
    by (rule strtod_show_int64 [OF token_end_ends_int [OF assms(1,2)] assms(3)])
  have nz: "(of_nat t :: time_t) \<noteq> 0"
    using assms(4,5) by (simp add: word_of_nat_eq_0_iff nat_dvd_not_less)
  have "extract_vector_value (sample_text (t, z) @ r) sep (Some DEFAULT_TIMESTAMP_SEP)
      = Some (show_int z @ r, length (show_int z @ r) - length r, fl_of_int z, of_nat t)"
    unfolding extract_vector_value_def Let_def stop DEFAULT_TIMESTAMP_SEP_def
    using colon scan num by simp
  then show ?thesis
    using ne nz assms(6,7) by (simp add: vector_child_def process_novector_monitor_def reading_def)
qed

section \<open>Whole vectors\<close>

text \<open>The timestamp and number of the split operation of a vector.\<close>

definition readings :: "monitor_value \<Rightarrow> (time_t \<times> double) option list" where
  "readings mv = (case mv of MV_value _ \<Rightarrow> [] | MV_array cs _ \<Rightarrow> map reading cs)"

definition split_reading :: "monitor_value \<Rightarrow> (time_t \<times> double) option" where
  "split_reading mv = (case mv of MV_value _ \<Rightarrow> None | MV_array _ sp \<Rightarrow> reading sp)"

lemma readings_vector_result:
  assumes "map reading (vector_children mem monitor sep now 0 (token_starts sep buf)) = map (\<lambda>x. Some (f x, fl_of_int (g x))) xs"
    and "xs \<noteq> []" and "(\<Sum>x \<leftarrow> xs. \<bar>g x\<bar>) < 2 ^ 53" and "mem At_split_op"
  shows "readings (vector_result mem monitor sep now buf) = map (\<lambda>x. Some (f x, fl_of_int (g x))) xs"
    and "split_reading (vector_result mem monitor sep now buf) =
      (case mon_splitop monitor of
         None \<Rightarrow> None
       | Some op \<Rightarrow> Some (now, split_op_value op (fl_of_int (\<Sum>x \<leftarrow> xs. g x)) (length xs)))"
proof -
  have pv: "present_vals (vector_children mem monitor sep now 0 (token_starts sep buf)) = map (\<lambda>x. fl_of_int (g x)) xs"
    by (rule present_vals_readings [OF assms(1)])
  have "fl_sum (map fl_of_int (map g xs)) = fl_of_int (sum_list (map g xs))"
    by (rule fl_sum_of_int) (use assms(3) in \<open>simp add: comp_def\<close>)
  then have acc: "fl_sum (map (\<lambda>x. fl_of_int (g x)) xs) = fl_of_int (\<Sum>x \<leftarrow> xs. g x)"
    by (simp add: comp_def)
  show "readings (vector_result mem monitor sep now buf) = map (\<lambda>x. Some (f x, fl_of_int (g x))) xs"
    using assms(1) by (simp add: vector_result_def Let_def readings_def)
  show "split_reading (vector_result mem monitor sep now buf) =
      (case mon_splitop monitor of
         None \<Rightarrow> None
       | Some op \<Rightarrow> Some (now, split_op_value op (fl_of_int (\<Sum>x \<leftarrow> xs. g x)) (length xs)))"
    using assms(2,4)
    by (simp add: vector_result_def Let_def split_reading_def pv acc split_op_monitor_def reading_def
        process_novector_monitor_def split: option.splits)
qed

lemma vector_of_ints:
  fixes now :: time_t and monitor :: "'j rb_monitor"
  assumes "good_sep sep" and "zs \<noteq> []" and "(\<Sum>z \<leftarrow> zs. \<bar>z\<bar>) < 2 ^ 53"
    and "\<not> mon_timestamp_given monitor"
  defines "mv \<equiv> vector_result no_oom monitor sep now (join sep (map show_int zs))"
  shows "readings mv = map (\<lambda>z. Some (now, fl_of_int z)) zs"
    and "split_reading mv =
      (case mon_splitop monitor of
         None \<Rightarrow> None
       | Some op \<Rightarrow> Some (now, split_op_value op (fl_of_int (sum_list zs)) (length zs)))"
proof -
  have small: "\<bar>z\<bar> < 2 ^ 64" if "z \<in> set zs" for z
  proof -
    have "\<bar>z\<bar> \<le> (\<Sum>z \<leftarrow> zs. \<bar>z\<bar>)" using that by (intro member_le_sum_list) auto
    with assms(3) show ?thesis by simp
  qed
  have m: "map reading (vector_children no_oom monitor sep now 0 (token_starts sep (join sep (map show_int zs))))
      = map (\<lambda>z. Some (now, fl_of_int z)) zs"
    using assms small good_sep_free [OF assms(1)]
    by (intro vector_children_join) (auto simp: good_sep_def intro!: vector_child_int)
  show "readings mv = map (\<lambda>z. Some (now, fl_of_int z)) zs"
    and "split_reading mv =
      (case mon_splitop monitor of
         None \<Rightarrow> None
       | Some op \<Rightarrow> Some (now, split_op_value op (fl_of_int (sum_list zs)) (length zs)))"
    unfolding mv_def using readings_vector_result [OF m assms(2)] assms(3)
    by (simp_all only: list.map_ident)
qed

lemma vector_of_samples:
  fixes now :: time_t and monitor :: "'j rb_monitor"
  assumes "good_sep sep" and "ss \<noteq> []" and "(\<Sum>(t, z) \<leftarrow> ss. \<bar>z\<bar>) < 2 ^ 53"
    and "\<forall>(t, z) \<in> set ss. 0 < t \<and> t < 2 ^ 64" and "mon_timestamp_given monitor"
  defines "mv \<equiv> vector_result no_oom monitor sep now (join sep (map sample_text ss))"
  shows "readings mv = map (\<lambda>(t, z). Some (of_nat t, fl_of_int z)) ss"
proof -
  have small: "\<bar>z\<bar> < 2 ^ 64" if "(t, z) \<in> set ss" for t z
  proof -
    have "\<bar>z\<bar> \<in> set (map (\<lambda>(t, z). \<bar>z\<bar>) ss)" using that by force
    then have "\<bar>z\<bar> \<le> (\<Sum>(t, z) \<leftarrow> ss. \<bar>z\<bar>)" by (intro member_le_sum_list) auto
    with assms(3) show ?thesis by simp
  qed
  have m: "map reading (vector_children no_oom monitor sep now 0 (token_starts sep (join sep (map sample_text ss))))
      = map (\<lambda>s. Some (of_nat (fst s), fl_of_int (snd s))) ss"
  proof (rule vector_children_join)
    fix i x r assume x: "x \<in> set ss" and r: "token_end sep r"
    then show "reading (vector_child no_oom monitor sep now i (sample_text x @ r))
        = Some (of_nat (fst x), fl_of_int (snd x))"
      using vector_child_sample [OF assms(1) r small [of "fst x" "snd x"] _ _ assms(5), of "fst x" no_oom i now]
        assms(4) by (cases x) auto
  qed (use assms sample_free [OF assms(1)] in \<open>auto simp: good_sep_def\<close>)
  show ?thesis
    unfolding mv_def using readings_vector_result(1) [OF m assms(2)] assms(3)
    by (simp add: case_prod_unfold)
qed

section \<open>Blank tokens\<close>

text \<open>A separator that no number starts with.\<close>

definition no_number :: "char \<Rightarrow> bool" where
  "no_number c \<longleftrightarrow> \<not> is_space c \<and> \<not> is_digit c \<and> c \<notin> {CHR ''-'', CHR ''+'', CHR ''.''}
      \<and> to_lower c \<notin> {CHR ''i'', CHR ''n''}"

lemma to_lower_zero: "to_lower c = CHR ''0'' \<longleftrightarrow> c = CHR ''0''"
proof
  assume low: "to_lower c = CHR ''0''"
  show "c = CHR ''0''"
  proof (cases "65 \<le> (of_char c :: nat) \<and> (of_char c :: nat) \<le> 90")
    case True
    then have "char_of ((of_char c :: nat) + 32) = CHR ''0''" using low by (simp add: to_lower_def)
    then have "(of_char (char_of ((of_char c :: nat) + 32)) :: nat) = 48" by simp
    then have "((of_char c :: nat) + 32) mod 256 = 48" by (simp only: of_char_of)
    with True show ?thesis by simp
  next
    case False
    then have "to_lower c = c" unfolding to_lower_def by (rule if_not_P)
    with low show ?thesis by simp
  qed
qed (simp add: to_lower_def)

lemma strtod_no_number:
  assumes "no_number c"
  shows "strtod (c # s) = (fl_zero, False, c # s)"
proof -
  have "c \<noteq> CHR ''0''" using assms by (auto simp: no_number_def is_digit_def)
  then have "strtod_mag False (c # s) = None"
    using assms by (auto simp: no_number_def strtod_mag_def ci_prefix_Cons strtod_dec_def
        scan_mantissa_def to_lower_zero split: if_splits)
  then show ?thesis using assms by (simp add: strtod_def no_number_def)
qed

text \<open>
  A blank token gives a child of value 0, unless it is followed by exactly one separator and the
  end of the text: then it gives none.
\<close>

lemma vector_child_blank:
  assumes sep: "sep = c # cs" "no_number c" and plain: "\<not> mon_timestamp_given monitor" "mem (At_child i)"
  shows "reading (vector_child mem monitor sep now i []) = Some (now, fl_zero)"
    and "u \<noteq> [] \<Longrightarrow> reading (vector_child mem monitor sep now i (sep @ u)) = Some (now, fl_zero)"
    and "reading (vector_child mem monitor sep now i sep) = None"
  using sep plain strtod_no_number [OF sep(2), of "cs @ u"]
  by (simp_all add: vector_child_def extract_vector_value_def Let_def process_novector_monitor_def
      reading_def del: strstr.simps)

end
