(* ===== verification/Message_Json.thy ===== *)
theory Message_Json
  imports Messages
begin

text \<open>
  What the consumers of the messages rely on: the text that src/rb_value.c prints is a JSON object. The
  reference is a reader of flat JSON objects after RFC 8259 (without white space, which the program does
  not print, and without the escape of code points), and the members a message should have. Printing and
  reading is the identity as long as no text needs an escape, since the program escapes nothing.
\<close>

section \<open>A reader of flat JSON objects\<close>

text \<open>A number is kept as its literal.\<close>

datatype json_leaf = J_string string | J_number string | J_bool bool | J_null

abbreviation quote_char :: char where "quote_char \<equiv> CHR 0x22"
abbreviation backslash :: char where "backslash \<equiv> CHR 0x5C"

definition unescaped :: "char \<Rightarrow> char option" where
  "unescaped e =
     map_of [(quote_char, quote_char), (backslash, backslash), (CHR ''/'', CHR ''/''), (CHR ''b'', CHR 0x08),
       (CHR ''f'', CHR 0x0C), (CHR ''n'', CHR 0x0A), (CHR ''r'', CHR 0x0D), (CHR ''t'', CHR 0x09)] e"

text \<open>The characters of a string after its opening quote, and what follows the closing one.\<close>

fun read_string :: "string \<Rightarrow> (string \<times> string) option" where
  "read_string [] = None"
| "read_string (c # cs) =
     (if c = quote_char then Some ([], cs)
      else if c = backslash
      then (case cs of
              [] \<Rightarrow> None
            | e # r \<Rightarrow>
                (case unescaped e of
                   None \<Rightarrow> None
                 | Some x \<Rightarrow> map_option (\<lambda>(s, t). (x # s, t)) (read_string r)))
      else if (of_char c :: nat) < 32 then None
      else map_option (\<lambda>(s, t). (c # s, t)) (read_string cs))"

text \<open>The grammar of numbers: an integer without leading zeros, a fraction, an exponent.\<close>

definition digits_then :: "(string \<Rightarrow> bool) \<Rightarrow> string \<Rightarrow> bool" where
  "digits_then next' s \<longleftrightarrow> takeWhile is_digit s \<noteq> [] \<and> next' (dropWhile is_digit s)"

fun exponent_ok :: "string \<Rightarrow> bool" where
  "exponent_ok [] = True"
| "exponent_ok (c # s) \<longleftrightarrow>
     (c = CHR ''e'' \<or> c = CHR ''E'') \<and>
     digits_then (\<lambda>r. r = []) (case s of [] \<Rightarrow> [] | d # t \<Rightarrow> if d = CHR ''+'' \<or> d = CHR ''-'' then t else s)"

fun fraction_ok :: "string \<Rightarrow> bool" where
  "fraction_ok [] = True"
| "fraction_ok (c # s) \<longleftrightarrow> (if c = CHR ''.'' then digits_then exponent_ok s else exponent_ok (c # s))"

definition unsigned_ok :: "string \<Rightarrow> bool" where
  "unsigned_ok s \<longleftrightarrow>
     digits_then fraction_ok s \<and> (hd s = CHR ''0'' \<longrightarrow> takeWhile is_digit s = ''0'')"

definition number_ok :: "string \<Rightarrow> bool" where
  "number_ok s \<longleftrightarrow> unsigned_ok (case s of [] \<Rightarrow> [] | c # t \<Rightarrow> if c = CHR ''-'' then t else s)"

definition number_char :: "char \<Rightarrow> bool" where
  "number_char c \<longleftrightarrow> is_digit c \<or> c \<in> set ''+-.eE''"

definition read_number :: "string \<Rightarrow> (json_leaf \<times> string) option" where
  "read_number s =
     (let n = takeWhile number_char s
      in if number_ok n then Some (J_number n, dropWhile number_char s) else None)"

definition read_leaf :: "string \<Rightarrow> (json_leaf \<times> string) option" where
  "read_leaf s =
     (case s of
        [] \<Rightarrow> None
      | c # cs \<Rightarrow>
          if c = quote_char then map_option (\<lambda>(x, t). (J_string x, t)) (read_string cs)
          else if take 4 s = ''true'' then Some (J_bool True, drop 4 s)
          else if take 5 s = ''false'' then Some (J_bool False, drop 5 s)
          else if take 4 s = ''null'' then Some (J_null, drop 4 s)
          else read_number s)"

text \<open>A member from its opening quote on.\<close>

definition read_member :: "string \<Rightarrow> ((string \<times> json_leaf) \<times> string) option" where
  "read_member s =
     (case s of
        [] \<Rightarrow> None
      | c # cs \<Rightarrow>
          if c \<noteq> quote_char then None
          else
            (case read_string cs of
               Some (key, d # r) \<Rightarrow>
                 if d \<noteq> CHR '':'' then None else map_option (\<lambda>(v, t). ((key, v), t)) (read_leaf r)
             | _ \<Rightarrow> None))"

lemma read_string_shorter: "read_string s = Some (x, t) \<Longrightarrow> length t < length s"
  by (induction s arbitrary: x t rule: read_string.induct)
    (force split: if_splits list.splits option.splits prod.splits)+

lemma read_leaf_shorter: "read_leaf s = Some (v, t) \<Longrightarrow> length t \<le> length s"
proof (cases s)
  case (Cons c cs)
  have "length (dropWhile number_char s) \<le> length s" by (rule length_dropWhile_le)
  moreover assume "read_leaf s = Some (v, t)"
  ultimately show ?thesis using Cons read_string_shorter [of cs]
    by (auto simp: read_leaf_def read_number_def Let_def split: if_splits)
qed (simp add: read_leaf_def)

lemma read_member_shorter: "read_member s = Some (m, t) \<Longrightarrow> length t < length s"
proof -
  assume m: "read_member s = Some (m, t)"
  then obtain c cs key d r v where "s = c # cs" "read_string cs = Some (key, d # r)" "read_leaf r = Some (v, t)"
    by (auto simp: read_member_def split: list.splits if_splits option.splits)
  with read_string_shorter [of cs key "d # r"] read_leaf_shorter [of r v t] show ?thesis by simp
qed

text \<open>What follows a member: the end of the object and of the text, or the next member.\<close>

function read_more :: "string \<Rightarrow> (string \<times> json_leaf) list option" where
  "read_more s =
     (case s of
        [] \<Rightarrow> None
      | c # cs \<Rightarrow>
          if c = CHR ''}'' then (if cs = [] then Some [] else None)
          else if c \<noteq> CHR '','' then None
          else (case read_member cs of
                  None \<Rightarrow> None
                | Some (m, t) \<Rightarrow> map_option ((#) m) (read_more t)))"
  by pat_completeness auto
termination
  by (relation "measure length") (auto dest: read_member_shorter)

declare read_more.simps [simp del]

definition read_object :: "string \<Rightarrow> (string \<times> json_leaf) list option" where
  "read_object s =
     (case s of
        [] \<Rightarrow> None
      | c # cs \<Rightarrow>
          if c \<noteq> CHR ''{'' then None
          else if cs = ''}'' then Some []
          else (case read_member cs of
                  None \<Rightarrow> None
                | Some (m, t) \<Rightarrow> map_option ((#) m) (read_more t)))"

section \<open>Printed members are read back\<close>

text \<open>A text that needs no escape.\<close>

definition plain :: "string \<Rightarrow> bool" where
  "plain s \<longleftrightarrow> (\<forall>c \<in> set s. c \<noteq> quote_char \<and> c \<noteq> backslash \<and> 32 \<le> (of_char c :: nat))"

lemma plain_simps [simp]:
  "plain []" "plain (c # s) \<longleftrightarrow> (c \<noteq> quote_char \<and> c \<noteq> backslash \<and> 32 \<le> (of_char c :: nat)) \<and> plain s"
  "plain (s @ t) \<longleftrightarrow> plain s \<and> plain t" "plain (replicate n c) \<longleftrightarrow> n = 0 \<or> plain [c]"
  by (auto simp: plain_def)

lemma digit_plain: "is_digit c \<Longrightarrow> c \<noteq> quote_char \<and> c \<noteq> backslash \<and> 32 \<le> (of_char c :: nat)"
  by (auto simp: is_digit_def)

lemma plain_nat_digits [simp]: "plain (nat_digits n)"
  using nat_digits_are_digits digit_plain unfolding plain_def by blast

lemma plain_show_int [simp]: "plain (show_int z)"
  by (simp add: show_int_def)

lemma plain_print_lf [simp]: "plain (print_lf x)"
  by (cases x) (simp_all add: sign_str_def pad6_def Let_def)

lemma read_plain_string: "plain s \<Longrightarrow> read_string (s @ quote_char # t) = Some (s, t)"
  by (induction s) auto

text \<open>The numbers the program prints are literals.\<close>

lemma nat_digits_zero: "hd (nat_digits n) = CHR ''0'' \<Longrightarrow> n = 0"
proof (induction n rule: nat_digits.induct)
  case (1 n)
  show ?case
  proof (cases "n < 10")
    case True
    then have "digit_char n = CHR ''0''" using 1(2) by (subst (asm) nat_digits.simps) simp
    then have "digit_val (digit_char n) = digit_val (CHR ''0'')" by simp
    with True show ?thesis by (simp add: digit_val_digit_char) (simp add: digit_val_def)
  next
    case False
    then have "hd (nat_digits (n div 10)) = CHR ''0''" using 1(2) by (subst (asm) nat_digits.simps) simp
    with 1(1) [OF False] False show ?thesis by simp
  qed
qed

lemma unsigned_nat_digits:
  assumes "fraction_ok r" and "r = [] \<or> \<not> is_digit (hd r)"
  shows "unsigned_ok (nat_digits n @ r)"
proof -
  have "hd (nat_digits n @ r) = CHR ''0'' \<longrightarrow> nat_digits n = ''0''"
    using nat_digits_zero [of n] by (auto simp: nat_digits.simps [of 0] digit_char_def)
  then show ?thesis
    using assms by (simp add: unsigned_ok_def digits_then_def takeWhile_digits dropWhile_digits)
qed

lemma number_signed:
  assumes "unsigned_ok s" and "hd s \<noteq> CHR ''-''"
  shows "number_ok (CHR ''-'' # s)" and "number_ok s"
  using assms by (simp add: number_ok_def) (cases s; use assms in \<open>simp add: number_ok_def\<close>)

lemma hd_nat_digits_sign [simp]: "hd (nat_digits n) \<noteq> CHR ''-''"
  using hd_nat_digits [of n] by (auto simp: is_digit_def)

lemma hd_nat_digits_append [simp]: "hd (nat_digits n @ r) \<noteq> CHR ''-''"
  using hd_nat_digits [of n] by (auto simp: is_digit_def)

lemma number_show_int [simp]: "number_ok (show_int z)"
  using number_signed [OF unsigned_nat_digits [of "[]"], of "nat (- z)"]
    number_signed [OF unsigned_nat_digits [of "[]"], of "nat z"] hd_nat_digits_append [of _ "[]"]
  by (simp add: show_int_def)

lemma pad6_digits: "c \<in> set (pad6 (nat_digits n)) \<Longrightarrow> is_digit c"
  by (auto simp: pad6_def nat_digits_are_digits) (simp add: is_digit_def)

lemma fraction_pad6: "fraction_ok (CHR ''.'' # pad6 (nat_digits n))"
proof -
  have all: "\<forall>c \<in> set (pad6 (nat_digits n)). is_digit c" using pad6_digits by blast
  have take: "takeWhile is_digit (pad6 (nat_digits n)) = pad6 (nat_digits n)"
    using all by (rule takeWhile_eq_all_conv [THEN iffD2])
  have drop: "dropWhile is_digit (pad6 (nat_digits n)) = []"
    using all by (rule dropWhile_eq_Nil_conv [THEN iffD2])
  have "pad6 (nat_digits n) \<noteq> []" by (simp add: pad6_def)
  with take drop show ?thesis
    by (simp only: fraction_ok.simps digits_then_def exponent_ok.simps if_True simp_thms)
qed

lemma number_print_lf: "\<exists>s m e. x = Fin s m e \<Longrightarrow> number_ok (print_lf x)"
proof (elim exE)
  fix s m e assume x: "x = Fin s m e"
  let ?n = "micros m e"
  have "unsigned_ok (nat_digits (?n div 1000000) @ CHR ''.'' # pad6 (nat_digits (?n mod 1000000)))"
    by (rule unsigned_nat_digits) (simp_all add: fraction_pad6 is_digit_def del: fraction_ok.simps)
  from number_signed [OF this hd_nat_digits_append] show ?thesis by (simp add: x sign_str_def Let_def)
qed

text \<open>A literal is read up to the comma or brace after it.\<close>

lemma digits_number_chars:
  "digits_then P s \<Longrightarrow> (\<And>r. P r \<Longrightarrow> \<forall>c \<in> set r. number_char c) \<Longrightarrow> \<forall>c \<in> set s. number_char c"
proof -
  assume s: "digits_then P s" and P: "\<And>r. P r \<Longrightarrow> \<forall>c \<in> set r. number_char c"
  have "\<forall>c \<in> set (takeWhile is_digit s). number_char c" by (auto simp: number_char_def dest: set_takeWhileD)
  moreover have "\<forall>c \<in> set (dropWhile is_digit s). number_char c" using s P [of "dropWhile is_digit s"] by (simp add: digits_then_def)
  ultimately show ?thesis using takeWhile_dropWhile_id [of is_digit s] by (metis Un_iff set_append)
qed

lemma exponent_number_chars: "exponent_ok s \<Longrightarrow> \<forall>c \<in> set s. number_char c"
proof (cases s)
  case (Cons c t)
  assume "exponent_ok s"
  then have t: "digits_then (\<lambda>r. r = []) (case t of [] \<Rightarrow> [] | d # u \<Rightarrow> if d = CHR ''+'' \<or> d = CHR ''-'' then u else t)"
    and c: "c = CHR ''e'' \<or> c = CHR ''E''" by (simp_all add: Cons)
  from t have "\<forall>x \<in> set (case t of [] \<Rightarrow> [] | d # u \<Rightarrow> if d = CHR ''+'' \<or> d = CHR ''-'' then u else t). number_char x"
    by (rule digits_number_chars) simp
  then have "\<forall>x \<in> set t. number_char x" by (cases t) (auto simp: number_char_def split: if_splits)
  with c show ?thesis by (auto simp: Cons number_char_def)
qed simp

lemma fraction_number_chars: "fraction_ok s \<Longrightarrow> \<forall>c \<in> set s. number_char c"
proof (cases s)
  case (Cons c t)
  assume f: "fraction_ok s"
  show ?thesis
  proof (cases "c = CHR ''.''")
    case True
    then have "\<forall>x \<in> set t. number_char x"
      using f digits_number_chars [of exponent_ok t] exponent_number_chars by (simp add: Cons)
    with True show ?thesis by (simp add: Cons number_char_def)
  next
    case False
    with f have "exponent_ok s" by (simp add: Cons del: exponent_ok.simps)
    then show ?thesis by (rule exponent_number_chars)
  qed
qed simp

lemma unsigned_number_chars: "unsigned_ok s \<Longrightarrow> s \<noteq> [] \<and> (\<forall>c \<in> set s. number_char c)"
proof -
  assume u: "unsigned_ok s"
  then have "digits_then fraction_ok s" by (simp add: unsigned_ok_def)
  then have "\<forall>c \<in> set s. number_char c" using fraction_number_chars by (rule digits_number_chars)
  with \<open>digits_then fraction_ok s\<close> show ?thesis by (auto simp: digits_then_def)
qed

lemma number_chars: "number_ok s \<Longrightarrow> s \<noteq> [] \<and> (\<forall>c \<in> set s. number_char c)"
proof (cases s)
  case Nil
  assume "number_ok s"
  with Nil show ?thesis by (simp add: number_ok_def unsigned_ok_def digits_then_def)
next
  case (Cons c t)
  assume "number_ok s"
  then have "unsigned_ok (if c = CHR ''-'' then t else s)" by (simp only: Cons number_ok_def list.case)
  then have "\<forall>x \<in> set (if c = CHR ''-'' then t else s). number_char x" using unsigned_number_chars by blast
  then show ?thesis by (auto simp: Cons number_char_def split: if_splits)
qed

definition ends_leaf :: "string \<Rightarrow> bool" where
  "ends_leaf t \<longleftrightarrow> t \<noteq> [] \<and> \<not> number_char (hd t)"

lemma read_number_literal: "number_ok n \<Longrightarrow> ends_leaf t \<Longrightarrow> read_number (n @ t) = Some (J_number n, t)"
  using number_chars [of n] by (cases t) (simp_all add: read_number_def ends_leaf_def takeWhile_append2 dropWhile_append2)

lemma not_number_chars: "\<not> number_char quote_char" "\<not> number_char CHR ''t''" "\<not> number_char CHR ''f''" "\<not> number_char CHR ''n''"
  by (simp_all add: number_char_def is_digit_def)

lemma read_leaf_number: "number_ok n \<Longrightarrow> ends_leaf t \<Longrightarrow> read_leaf (n @ t) = Some (J_number n, t)"
proof -
  assume n: "number_ok n" and t: "ends_leaf t"
  then obtain c cs where c: "n = c # cs" "number_char c" using number_chars [OF n] by (cases n) auto
  then have "c \<noteq> quote_char" "c \<noteq> CHR ''t''" "c \<noteq> CHR ''f''" "c \<noteq> CHR ''n''" using not_number_chars by auto
  then show ?thesis using read_number_literal [OF n t] c(1) by (simp add: read_leaf_def)
qed

section \<open>The printer of the reference\<close>

fun print_leaf :: "json_leaf \<Rightarrow> string" where
  "print_leaf (J_string s) = quote_char # s @ [quote_char]"
| "print_leaf (J_number n) = n"
| "print_leaf (J_bool b) = (if b then ''true'' else ''false'')"
| "print_leaf J_null = ''null''"

fun leaf_ok :: "json_leaf \<Rightarrow> bool" where
  "leaf_ok (J_string s) = plain s"
| "leaf_ok (J_number n) = number_ok n"
| "leaf_ok v = True"

definition print_member :: "string \<times> json_leaf \<Rightarrow> string" where
  "print_member m = quote_char # fst m @ [quote_char, CHR '':''] @ print_leaf (snd m)"

definition member_ok :: "string \<times> json_leaf \<Rightarrow> bool" where
  "member_ok m \<longleftrightarrow> plain (fst m) \<and> leaf_ok (snd m)"

text \<open>Members, a comma before each.\<close>

definition print_members :: "(string \<times> json_leaf) list \<Rightarrow> string" where
  "print_members ms = concat (map (\<lambda>m. CHR '','' # print_member m) ms)"

definition print_object :: "(string \<times> json_leaf) list \<Rightarrow> string" where
  "print_object ms = (case ms of [] \<Rightarrow> ''{}'' | m # ms' \<Rightarrow> CHR ''{'' # print_member m @ print_members ms' @ ''}'')"

lemma print_members_simps [simp]:
  "print_members [] = []" "print_members (m # ms) = CHR '','' # print_member m @ print_members ms"
  "print_members (ms @ ns) = print_members ms @ print_members ns"
  by (simp_all add: print_members_def)

lemma ends_leaf_simps [simp]: "ends_leaf (CHR '','' # t)" "ends_leaf (CHR ''}'' # t)"
  by (simp_all add: ends_leaf_def number_char_def is_digit_def)

lemma ends_leaf_members: "ends_leaf t \<Longrightarrow> ends_leaf (print_members ms @ t)"
  by (cases ms) simp_all

lemma read_print_leaf: "leaf_ok v \<Longrightarrow> ends_leaf t \<Longrightarrow> read_leaf (print_leaf v @ t) = Some (v, t)"
proof (cases v)
  case (J_string s)
  assume "leaf_ok v"
  with read_plain_string [of s t] show ?thesis by (simp add: J_string read_leaf_def)
next
  case (J_number n)
  assume "leaf_ok v" and "ends_leaf t"
  with read_leaf_number [of n t] show ?thesis by (simp add: J_number)
qed (simp_all add: read_leaf_def)

lemma read_print_member: "member_ok m \<Longrightarrow> ends_leaf t \<Longrightarrow> read_member (print_member m @ t) = Some (m, t)"
proof -
  assume m: "member_ok m" and t: "ends_leaf t"
  then have "read_string (fst m @ quote_char # CHR '':'' # print_leaf (snd m) @ t)
      = Some (fst m, CHR '':'' # print_leaf (snd m) @ t)"
    by (intro read_plain_string) (simp add: member_ok_def)
  with m read_print_leaf [OF _ t, of "snd m"] show ?thesis
    by (simp add: read_member_def print_member_def member_ok_def)
qed

lemma read_more_end [simp]: "read_more ''}'' = Some []"
  by (simp add: read_more.simps)

lemma read_more_members:
  "list_all member_ok ms \<Longrightarrow> ends_leaf t \<Longrightarrow> read_more (print_members ms @ t) = map_option ((@) ms) (read_more t)"
proof (induction ms)
  case (Cons m ms)
  then show ?case
    using read_print_member [OF _ ends_leaf_members [of t ms], of m]
    by (subst read_more.simps) (cases "read_more t"; simp)
next
  case Nil
  then show ?case by (cases "read_more t") simp_all
qed

lemma read_print_object: "list_all member_ok ms \<Longrightarrow> read_object (print_object ms) = Some ms"
proof (cases ms)
  case (Cons m ns)
  assume "list_all member_ok ms"
  then show ?thesis
    using read_more_members [of ns "''}''"] read_print_member [OF _ ends_leaf_members [of "''}''" ns], of m]
    by (simp add: Cons print_object_def read_object_def print_member_def)
qed (simp add: print_object_def read_object_def)

section \<open>The members of a message\<close>

text \<open>The members an enrichment adds: nothing for objects, arrays and what cannot be read.\<close>

definition enrichment_member :: "'j json_c \<Rightarrow> string \<times> 'j option \<Rightarrow> (string \<times> json_leaf) list" where
  "enrichment_member J kv =
     (let (k, j) = kv
      in map (Pair k)
           (case jc_type J j of
              Json_string \<Rightarrow> (case jc_string J j of None \<Rightarrow> [] | Some s \<Rightarrow> [J_string s])
            | Json_int \<Rightarrow> (let (i, err) = jc_int64 J j in if err then [] else [J_number (print_ld i)])
            | Json_null \<Rightarrow> [J_null]
            | Json_boolean \<Rightarrow> [J_bool (jc_boolean J j)]
            | Json_double \<Rightarrow> [J_number (print_lf (jc_double J j))]
            | _ \<Rightarrow> []))"

definition enrichment_members :: "'j json_c \<Rightarrow> 'j \<Rightarrow> (string \<times> json_leaf) list" where
  "enrichment_members J e = concat (map (enrichment_member J) (jc_members J e))"

definition name_member :: "'j rb_monitor \<Rightarrow> int \<Rightarrow> string \<times> json_leaf" where
  "name_member monitor n =
     (''monitor'', J_string (mon_name monitor
        @ (if n = NO_INSTANCE then [] else case mon_name_split_suffix monitor of None \<Rightarrow> [] | Some s \<Rightarrow> s)))"

definition value_members :: "scalar \<Rightarrow> 'j rb_monitor \<Rightarrow> int \<Rightarrow> (string \<times> json_leaf) list" where
  "value_members v monitor n =
     (if n = NO_INSTANCE then []
      else case mon_instance_prefix monitor of
             None \<Rightarrow> []
           | Some pre \<Rightarrow> [(''instance'', J_string (pre @ show_int n))])
     @ [(''value'', if mon_integer monitor then J_number (print_ld (fl_to_int64 (val v)))
                    else J_string (print_lf (val v)))]"

definition group_members :: "'j rb_monitor \<Rightarrow> (string \<times> json_leaf) list" where
  "group_members monitor =
     (case mon_group_id monitor of None \<Rightarrow> [] | Some g \<Rightarrow> [(''group_id'', J_number g)])"

definition message_members :: "'j json_c \<Rightarrow> scalar \<Rightarrow> 'j rb_monitor \<Rightarrow> int \<Rightarrow> (string \<times> json_leaf) list" where
  "message_members J v monitor n =
     (''timestamp'', J_number (print_lu (timestamp v))) # name_member monitor n # value_members v monitor n
       @ group_members monitor @ enrichment_members J (mon_enrichment monitor)"

lemma print_enrichment1:
  assumes "printbuf_appends J"
  shows "print_monitor_value_enrichment1 J buf kv = buf @ print_members (enrichment_member J kv)"
  using assms
  by (cases kv) (auto simp: printbuf_appends_def print_monitor_value_enrichment1_def enrichment_member_def
      print_monitor_value_enrichment_str_def print_monitor_value_enrichment_int_def print_member_def
      split: json_type.split option.split prod.split)

lemma print_enrichment:
  assumes "printbuf_appends J"
  shows "print_monitor_value_enrichment J buf e = buf @ print_members (enrichment_members J e)"
proof -
  have "foldl (print_monitor_value_enrichment1 J) b kvs
      = b @ print_members (concat (map (enrichment_member J) kvs))" for b kvs
    by (induction kvs arbitrary: b) (simp_all add: print_enrichment1 [OF assms])
  then show ?thesis by (simp add: print_monitor_value_enrichment_def enrichment_members_def)
qed

text \<open>The text, as the printer of the reference writes it; no text is looked at.\<close>

lemma monitor_value_text_members:
  assumes "printbuf_appends J"
  shows "monitor_value_text J v monitor n = print_object (message_members J v monitor n)"
proof -
  have sp: "jc_sprintbuf J = (@)" using assms by (auto simp: printbuf_appends_def fun_eq_iff)
  have name: "(case (n \<noteq> NO_INSTANCE, mon_name_split_suffix monitor) of
        (True, Some sfx) \<Rightarrow> b @ '',\"monitor\":\"'' @ mon_name monitor @ sfx @ ''\"''
      | _ \<Rightarrow> b @ '',\"monitor\":\"'' @ mon_name monitor @ ''\"'') = b @ print_members [name_member monitor n]" for b
    by (simp add: name_member_def print_member_def split: option.split)
  have v: "(let b4 = (case (n \<noteq> NO_INSTANCE, mon_instance_prefix monitor) of
                  (True, Some pre) \<Rightarrow> b @ '',\"instance\":\"'' @ pre @ show_int n @ ''\"''
                | _ \<Rightarrow> b)
      in if mon_integer monitor then b4 @ '',\"value\":'' @ print_ld (fl_to_int64 (val v))
         else b4 @ '',\"value\":\"'' @ print_lf (val v) @ ''\"'') = b @ print_members (value_members v monitor n)" for b
    by (simp add: Let_def value_members_def print_member_def split: option.split bool.split)
  have g: "(case mon_group_id monitor of Some gid \<Rightarrow> b @ '',\"group_id\":'' @ gid | None \<Rightarrow> b)
      = b @ print_members (group_members monitor)" for b
    by (simp add: group_members_def print_member_def split: option.split)
  show ?thesis
    unfolding monitor_value_text_def sp Let_def name v [unfolded Let_def] g print_enrichment [OF assms]
    by (simp add: print_object_def message_members_def print_member_def)
qed

text \<open>No text of the message needs an escape, the group is a number and no number is infinite.\<close>

definition finite_double :: "double \<Rightarrow> bool" where
  "finite_double x \<longleftrightarrow> (case x of Fin s m e \<Rightarrow> True | _ \<Rightarrow> False)"

definition enrichment_printable :: "'j json_c \<Rightarrow> string \<times> 'j option \<Rightarrow> bool" where
  "enrichment_printable J kv \<longleftrightarrow>
     (let (k, j) = kv
      in plain k \<and>
         (case jc_type J j of
            Json_string \<Rightarrow> (case jc_string J j of None \<Rightarrow> True | Some s \<Rightarrow> plain s)
          | Json_double \<Rightarrow> finite_double (jc_double J j)
          | _ \<Rightarrow> True))"

definition printable :: "'j json_c \<Rightarrow> 'j rb_monitor \<Rightarrow> bool" where
  "printable J monitor \<longleftrightarrow>
     plain (mon_name monitor) \<and> pred_option plain (mon_name_split_suffix monitor) \<and>
     pred_option plain (mon_instance_prefix monitor) \<and> pred_option number_ok (mon_group_id monitor) \<and>
     list_all (enrichment_printable J) (jc_members J (mon_enrichment monitor))"

lemma number_print_ld [simp]: "number_ok (print_ld w)"
  by (simp add: print_ld_def)

lemma number_print_lu [simp]: "number_ok (print_lu w)"
  using number_show_int [of "uint w"] by (simp add: print_lu_def show_int_def)

lemma number_finite_double: "finite_double x \<Longrightarrow> number_ok (print_lf x)"
  by (rule number_print_lf) (simp add: finite_double_def split: double.splits)

lemma enrichment_member_ok: "enrichment_printable J kv \<Longrightarrow> list_all member_ok (enrichment_member J kv)"
  by (cases kv) (auto simp: enrichment_printable_def enrichment_member_def member_ok_def number_finite_double
      split: json_type.splits option.splits prod.splits)

lemma enrichment_members_ok:
  "list_all (enrichment_printable J) (jc_members J e) \<Longrightarrow> list_all member_ok (enrichment_members J e)"
  using enrichment_member_ok [of J] unfolding enrichment_members_def list_all_iff by auto

lemma other_members_ok:
  assumes "printable J monitor"
  shows "list_all member_ok (value_members v monitor n)" and "list_all member_ok (group_members monitor)"
    and "list_all member_ok (enrichment_members J (mon_enrichment monitor))"
    and "member_ok (name_member monitor n)"
proof -
  note p = assms [unfolded printable_def]
  show "list_all member_ok (value_members v monitor n)"
    using p by (cases "mon_instance_prefix monitor") (simp_all add: value_members_def member_ok_def)
  show "list_all member_ok (group_members monitor)"
    using p by (cases "mon_group_id monitor") (simp_all add: group_members_def member_ok_def)
  show "list_all member_ok (enrichment_members J (mon_enrichment monitor))"
    using p by (simp add: enrichment_members_ok)
  show "member_ok (name_member monitor n)"
    using p by (cases "mon_name_split_suffix monitor") (simp_all add: name_member_def member_ok_def)
qed

lemma message_members_ok: "printable J monitor \<Longrightarrow> list_all member_ok (message_members J v monitor n)"
  by (simp add: message_members_def other_members_ok) (simp add: member_ok_def)

lemma text_reads_back:
  "printbuf_appends J \<Longrightarrow> printable J monitor \<Longrightarrow>
     read_object (monitor_value_text J v monitor n) = Some (message_members J v monitor n)"
  by (simp add: monitor_value_text_members read_print_object message_members_ok)

section \<open>The messages of a vector\<close>

fun children_members ::
    "'j json_c \<Rightarrow> 'j rb_monitor \<Rightarrow> scalar option list \<Rightarrow> nat \<Rightarrow> (string \<times> json_leaf) list list" where
  "children_members J monitor [] i = []"
| "children_members J monitor (None # cs) i = children_members J monitor cs (Suc i)"
| "children_members J monitor (Some v # cs) i =
     message_members J v monitor (int_of_size i) # children_members J monitor cs (Suc i)"

definition vector_members ::
    "'j json_c \<Rightarrow> 'j rb_monitor \<Rightarrow> scalar option list \<Rightarrow> scalar option \<Rightarrow> (string \<times> json_leaf) list list" where
  "vector_members J monitor cs sp =
     children_members J monitor cs 0
       @ (case sp of None \<Rightarrow> [] | Some v \<Rightarrow> [message_members J v monitor NO_INSTANCE])"

definition read_message :: "rb_message \<Rightarrow> (string \<times> json_leaf) list option" where
  "read_message m = (case payload m of None \<Rightarrow> None | Some p \<Rightarrow> read_object (take (msg_len m) p))"

lemma read_value_message:
  "printbuf_appends J \<Longrightarrow> printable J monitor \<Longrightarrow>
     read_message (value_message J monitor v n) = Some (message_members J v monitor n)"
  by (simp add: read_message_def value_message_def Let_def text_reads_back)

lemma read_children_messages:
  assumes "printbuf_appends J" and "printable J monitor"
  shows "map read_message (children_messages J monitor cs i) = map Some (children_members J monitor cs i)"
  using assms by (induction J monitor cs i rule: children_messages.induct) (simp_all add: read_value_message)

lemma read_value_messages:
  assumes "printbuf_appends J" and "printable J monitor"
  shows "map read_message (value_messages J monitor cs sp) = map Some (vector_members J monitor cs sp)"
  by (cases sp) (simp_all add: value_messages_def vector_members_def read_children_messages [OF assms]
      read_value_message [OF assms])

section \<open>Texts that need an escape\<close>

text \<open>
  A quote in the name of a monitor ends the string: what follows it is read as members of its own. The
  members after the name are the same.
\<close>

definition rest_members :: "'j json_c \<Rightarrow> scalar \<Rightarrow> 'j rb_monitor \<Rightarrow> int \<Rightarrow> (string \<times> json_leaf) list" where
  "rest_members J v monitor n =
     value_members v monitor n @ group_members monitor @ enrichment_members J (mon_enrichment monitor)"

lemma quote_in_name:
  assumes "printbuf_appends J" and "printable J (monitor\<lparr>mon_name := []\<rparr>)"
    and "mon_name monitor = a @ ''\",\"'' @ k @ ''\":\"'' @ b" and "plain a" "plain k" "plain b"
  shows "read_object (monitor_value_text J v monitor NO_INSTANCE) =
    Some ((''timestamp'', J_number (print_lu (timestamp v))) # (''monitor'', J_string a) # (k, J_string b)
            # rest_members J v monitor NO_INSTANCE)"
proof -
  let ?ms = "(''timestamp'', J_number (print_lu (timestamp v))) # (''monitor'', J_string a) # (k, J_string b)
            # rest_members J v monitor NO_INSTANCE"
  have "monitor_value_text J v monitor NO_INSTANCE = print_object ?ms"
    by (simp add: monitor_value_text_members [OF assms(1)] message_members_def name_member_def assms(3)
        rest_members_def print_object_def print_member_def)
  moreover have "list_all member_ok (rest_members J v monitor NO_INSTANCE)"
    using other_members_ok(1) [OF assms(2), of v NO_INSTANCE] other_members_ok(2,3) [OF assms(2)]
    by (simp add: rest_members_def value_members_def group_members_def)
  then have "list_all member_ok ?ms" using assms(4-6) by (simp add: member_ok_def)
  ultimately show ?thesis by (simp add: read_print_object)
qed

text \<open>The group is printed without quotes, and a text there ends the object for every reader.\<close>

lemma read_group_text:
  assumes "\<not> number_char c" and "c \<notin> {quote_char, CHR ''t'', CHR ''f'', CHR ''n''}"
  shows "read_more (print_members [(''group_id'', J_number (c # g))] @ t) = None"
proof -
  have "read_leaf (c # g @ t) = None"
    using assms by (simp add: read_leaf_def read_number_def Let_def number_ok_def unsigned_ok_def digits_then_def)
  then show ?thesis by (subst read_more.simps) (simp add: print_member_def read_member_def)
qed

lemma members_other_group [simp]:
  "value_members v (monitor\<lparr>mon_group_id := g\<rparr>) n = value_members v monitor n"
  "name_member (monitor\<lparr>mon_group_id := g\<rparr>) n = name_member monitor n"
  by (simp_all add: value_members_def name_member_def)

lemma text_in_group:
  assumes "printbuf_appends J" and "printable J (monitor\<lparr>mon_group_id := None\<rparr>)"
    and "mon_group_id monitor = Some (c # g)"
    and "\<not> number_char c" and "c \<notin> {quote_char, CHR ''t'', CHR ''f'', CHR ''n''}"
  shows "read_object (monitor_value_text J v monitor n) = None"
proof -
  let ?t = "(''timestamp'', J_number (print_lu (timestamp v)))"
  let ?ms = "name_member monitor n # value_members v monitor n"
  let ?rest = "print_members (group_members monitor) @ print_members (enrichment_members J (mon_enrichment monitor)) @ ''}''"
  have grp: "group_members monitor = [(''group_id'', J_number (c # g))]" by (simp add: group_members_def assms(3))
  have ms: "list_all member_ok ?ms"
    using other_members_ok(1) [OF assms(2), of v n] other_members_ok(4) [OF assms(2), of n] by simp
  have ends: "ends_leaf ?rest" by (simp add: grp)
  have "read_more ?rest = None" unfolding grp by (rule read_group_text [OF assms(4,5)])
  then have more: "read_more (print_members ?ms @ ?rest) = None"
    using read_more_members [OF ms ends] by simp
  have "read_member (print_member ?t @ print_members ?ms @ ?rest) = Some (?t, print_members ?ms @ ?rest)"
    by (rule read_print_member) (simp_all add: member_ok_def)
  with more have "read_object (CHR ''{'' # print_member ?t @ print_members ?ms @ ?rest) = None"
    by (simp add: read_object_def print_member_def)
  then show ?thesis
    by (simp add: monitor_value_text_members [OF assms(1)] message_members_def print_object_def)
qed

end
