(* ===== verification/Release.thy ===== *)
theory Release
  imports Sensor "HOL-Library.Multiset"
begin

text \<open>
  Who releases what. A value, a monitor or a sensor is here the tree of the blocks it is made of;
  the memory is the multiset of what is live: a block once, a JSON object as often as it is
  referenced. Releasing what is not live is a fault. Every release function frees exactly what its
  argument owns, and an update of a stored value keeps what it returns and frees the rest.
\<close>

section \<open>Memory\<close>

datatype resource = Block nat | Json_ref nat

type_synonym heap = "resource multiset"

text \<open>\<open>free\<close> of a block, or \<open>json_object_put\<close> of one reference.\<close>

definition release :: "resource \<Rightarrow> heap \<Rightarrow> heap outcome" where
  "release r H = (if r \<in># H then Inr (H - {#r#}) else Inl Use_after_free)"

text \<open>The same on a pointer that may be null.\<close>

definition release_opt :: "resource option \<Rightarrow> heap \<Rightarrow> heap outcome" where
  "release_opt p H = (case p of None \<Rightarrow> Inr H | Some r \<Rightarrow> release r H)"

fun release_all :: "resource list \<Rightarrow> heap \<Rightarrow> heap outcome" where
  "release_all [] H = Inr H"
| "release_all (r # rs) H = obind (release r H) (release_all rs)"

lemma release_all_append [simp]:
  "release_all (xs @ ys) H = obind (release_all xs H) (release_all ys)"
proof (induction xs arbitrary: H)
  case (Cons r xs)
  then show ?case by (cases "release r H") simp_all
qed simp

lemma release_all_eq:
  "release_all rs H = (if mset rs \<subseteq># H then Inr (H - mset rs) else Inl Use_after_free)"
proof (induction rs arbitrary: H)
  case (Cons r rs)
  show ?case
    using Cons [of "H - {#r#}"] by (auto simp: release_def insert_subset_eq_iff)
qed simp

text \<open>What owns its resources gives them back and leaves the rest of the memory alone.\<close>

lemma release_all_frame [simp]: "release_all rs (F + mset rs) = Inr F"
  by (simp add: release_all_eq)

lemma release_opt_eq: "release_opt p = release_all (case p of None \<Rightarrow> [] | Some r \<Rightarrow> [r])"
  by (rule ext) (simp add: release_opt_def obind_def split: option.splits sum.splits)

text \<open>No block is live twice.\<close>

definition heap_ok :: "heap \<Rightarrow> bool" where
  "heap_ok H \<longleftrightarrow> (\<forall>b. count H (Block b) \<le> 1)"

lemma heap_ok_mono: "heap_ok H \<Longrightarrow> G \<subseteq># H \<Longrightarrow> heap_ok G"
  by (metis heap_ok_def mset_subset_eq_count order_trans)

section \<open>The contract of a release function\<close>

locale releaser =
  fixes done_fn :: "'o \<Rightarrow> heap \<Rightarrow> heap outcome"
    and owned :: "'o \<Rightarrow> resource list"
  assumes done_owned: "done_fn v = release_all (owned v)"
begin

lemma done_frame: "done_fn v (F + mset (owned v)) = Inr F"
  by (simp add: done_owned)

lemma done_twice:
  assumes "heap_ok H" and "Block b \<in> set (owned v)" and "done_fn v H = Inr H'"
  shows "done_fn v H' = Inl Use_after_free"
proof -
  have sub: "mset (owned v) \<subseteq># H" and H': "H' = H - mset (owned v)"
    using assms(3) by (auto simp: done_owned release_all_eq split: if_splits)
  have "count (mset (owned v)) (Block b) \<ge> 1"
    using assms(2) by (simp add: Suc_le_eq count_greater_zero_iff)
  moreover have "count H (Block b) \<le> 1" using assms(1) by (simp add: heap_ok_def)
  ultimately have "count H' (Block b) < count (mset (owned v)) (Block b)"
    unfolding H' count_diff by linarith
  then have "\<not> mset (owned v) \<subseteq># H'" using mset_subset_eq_count leD by metis
  then show ?thesis by (simp add: done_owned release_all_eq)
qed

end

text \<open>The elements of an array one after the other, null pointers skipped.\<close>

fun done_elements :: "('o \<Rightarrow> heap \<Rightarrow> heap outcome) \<Rightarrow> 'o option list \<Rightarrow> heap \<Rightarrow> heap outcome" where
  "done_elements done_fn [] H = Inr H"
| "done_elements done_fn (e # es) H =
     obind (case e of None \<Rightarrow> Inr H | Some v \<Rightarrow> done_fn v H) (done_elements done_fn es)"

definition owned_opt :: "('o \<Rightarrow> resource list) \<Rightarrow> 'o option \<Rightarrow> resource list" where
  "owned_opt owned e = (case e of None \<Rightarrow> [] | Some v \<Rightarrow> owned v)"

lemma owned_opt_simps [simp]: "owned_opt owned None = []" "owned_opt owned (Some v) = owned v"
  by (simp_all add: owned_opt_def)

context releaser
begin

lemma done_elements_owned: "done_elements done_fn es = release_all (concat (map (owned_opt owned) es))"
proof
  show "done_elements done_fn es H = release_all (concat (map (owned_opt owned) es)) H" for H
  proof (induction es arbitrary: H)
    case (Cons e es)
    then show ?case by (cases e) (simp_all add: done_owned obind_def split: sum.splits)
  qed simp
qed

end

interpretation pointer: releaser release "\<lambda>r. [r]"
  by unfold_locales (auto simp: obind_def split: sum.splits)

lemma owned_pointers [simp]: "concat (map (owned_opt (\<lambda>r. [r])) ps) = List.map_filter id ps"
  by (induction ps) (auto simp: owned_opt_def map_filter_def split: option.splits)

section \<open>Values\<close>

text \<open>
  A value at its address, with the address of the array of its children. The text of a scalar is in
  the block of the scalar.
\<close>

datatype owned_value =
    OV_value nat scalar
  | OV_array nat nat "owned_value option list" "owned_value option"

fun stored :: "owned_value \<Rightarrow> monitor_value" where
  "stored (OV_value p s) = MV_value s"
| "stored (OV_array p c children sp) = MV_array (map (map_option stored) children) (map_option stored sp)"

fun rb_monitor_value_done :: "owned_value \<Rightarrow> heap \<Rightarrow> heap outcome"
and children_done :: "owned_value option list \<Rightarrow> heap \<Rightarrow> heap outcome" where
  "rb_monitor_value_done (OV_value p s) H = release (Block p) H"
| "rb_monitor_value_done (OV_array p c children split_op_result) H =
     obind (children_done children H) (\<lambda>H1.
     obind (case split_op_result of None \<Rightarrow> Inr H1 | Some mv \<Rightarrow> rb_monitor_value_done mv H1) (\<lambda>H2.
     obind (release (Block c) H2) (release (Block p))))"
| "children_done [] H = Inr H"
| "children_done (mv # mvs) H =
     obind (case mv of None \<Rightarrow> Inr H | Some v \<Rightarrow> rb_monitor_value_done v H) (children_done mvs)"

fun value_blocks :: "owned_value \<Rightarrow> resource list"
and children_blocks :: "owned_value option list \<Rightarrow> resource list" where
  "value_blocks (OV_value p s) = [Block p]"
| "value_blocks (OV_array p c children sp) =
     children_blocks children @ (case sp of None \<Rightarrow> [] | Some mv \<Rightarrow> value_blocks mv) @ [Block c, Block p]"
| "children_blocks [] = []"
| "children_blocks (mv # mvs) = (case mv of None \<Rightarrow> [] | Some v \<Rightarrow> value_blocks v) @ children_blocks mvs"

lemma value_done_eq:
  "rb_monitor_value_done v H = release_all (value_blocks v) H"
  "children_done vs H = release_all (children_blocks vs) H"
  by (induction v H and vs H rule: rb_monitor_value_done_children_done.induct)
    (auto simp: obind_def split: option.splits sum.splits)

interpretation value_mem: releaser rb_monitor_value_done value_blocks
  by unfold_locales (rule ext, rule value_done_eq)

text \<open>The vector constructor frees what it was given when it cannot allocate the vector.\<close>

definition owned_value_array ::
    "nat option \<Rightarrow> nat \<Rightarrow> owned_value option list \<Rightarrow> owned_value option \<Rightarrow> heap
      \<Rightarrow> (owned_value option \<times> heap) outcome" where
  "owned_value_array p c children split_op H =
     (case p of
        None \<Rightarrow>
          obind (case split_op of None \<Rightarrow> Inr H | Some mv \<Rightarrow> rb_monitor_value_done mv H) (\<lambda>H1.
          obind (done_elements rb_monitor_value_done children H1) (\<lambda>H2.
          obind (release (Block c) H2) (\<lambda>H3. Inr (None, H3))))
      | Some b \<Rightarrow> Inr (Some (OV_array b c children split_op), add_mset (Block b) H))"

lemma children_blocks_eq: "children_blocks vs = concat (map (owned_opt value_blocks) vs)"
  by (induction vs) (auto split: option.splits)

text \<open>A value and its memory together, or nothing.\<close>

abbreviation value_mem_of :: "owned_value option \<Rightarrow> heap" where
  "value_mem_of v \<equiv> mset (owned_opt value_blocks v)"

lemma owned_value_array_fails:
  "owned_value_array None c children sp
       (F + mset (children_blocks children) + value_mem_of sp + {#Block c#}) = Inr (None, F)"
proof -
  define gone where "gone = owned_opt value_blocks sp @ concat (map (owned_opt value_blocks) children) @ [Block c]"
  have "owned_value_array None c children sp H = obind (release_all gone H) (\<lambda>H'. Inr (None, H'))" for H
    by (cases sp) (simp_all add: owned_value_array_def value_mem.done_elements_owned value_done_eq gone_def
        obind_def split: sum.splits)
  moreover have "F + mset (children_blocks children) + value_mem_of sp + {#Block c#} = F + mset gone"
    by (simp add: children_blocks_eq gone_def)
  ultimately show ?thesis by (simp only: release_all_frame obind_simps)
qed

section \<open>Updates\<close>

text \<open>
  \<open>process_monitor_value_v\<close> and \<open>process_monitor_value\<close> with the memory they release: what they
  compute and print is that of Monitor_Array. The two swaps give the new vector the old children,
  which go with it.
\<close>

definition store_vector ::
    "'j printing \<Rightarrow> mem \<Rightarrow> 'j rb_monitor \<Rightarrow> owned_value \<Rightarrow> owned_value \<Rightarrow> heap
      \<Rightarrow> (rb_message_array option \<times> owned_value \<times> heap) outcome" where
  "store_vector P mem monitor new_mv old_mv H =
     obind (if mon_send monitor then process_monitor_value_v_print P mem monitor (stored new_mv) (stored old_mv)
            else Inr None) (\<lambda>ret.
       case (new_mv, old_mv) of
         (OV_array np nc new_children new_op, OV_array p c old_children old_op) \<Rightarrow>
           obind (rb_monitor_value_done (OV_array np c old_children new_op) H) (\<lambda>H'.
             Inr (ret, OV_array p nc new_children old_op, H'))
       | _ \<Rightarrow> Inl Bad_member)"

definition store_value ::
    "'j printing \<Rightarrow> mem \<Rightarrow> 'j rb_monitor \<Rightarrow> owned_value \<Rightarrow> owned_value option
      \<Rightarrow> rb_message_array tailq \<Rightarrow> heap \<Rightarrow> (owned_value option \<times> rb_message_array tailq \<times> heap) outcome" where
  "store_value P mem monitor monitor_value old_mv ret H =
     obind (update_value (pr_dne P) monitor (stored monitor_value) (map_option stored old_mv)) (\<lambda>upd.
     obind (if upd
            then obind (if mon_send monitor
                        then print_monitor_value (pr_layout P) (pr_json P) mem (stored monitor_value) monitor
                        else Inr None) (\<lambda>msgs.
                 obind (case old_mv of None \<Rightarrow> Inr H | Some old \<Rightarrow> rb_monitor_value_done old H) (\<lambda>H'.
                   Inr (msgs, Some monitor_value, H')))
            else case old_mv of
                   None \<Rightarrow> Inl Null_deref
                 | Some old \<Rightarrow>
                     if \<not> is_value (stored monitor_value)
                     then obind (store_vector P mem monitor monitor_value old H)
                            (\<lambda>(msgs, mv, H'). Inr (msgs, Some mv, H'))
                     else obind (rb_monitor_value_done monitor_value H) (\<lambda>H'. Inr (None, old_mv, H')))
       (\<lambda>(msgs, ret_mv, H').
       Inr (ret_mv, case msgs of None \<Rightarrow> ret | Some a \<Rightarrow> rb_message_list_push ret a, H')))"

lemma store_vector_refines:
  assumes "process_monitor_value_v P mem monitor (stored new) (stored old) = Inr (q, mv)"
  shows "\<exists>kept. store_vector P mem monitor new old
             (F + mset (value_blocks new) + mset (value_blocks old)) = Inr (q, kept, F + mset (value_blocks kept))
           \<and> stored kept = mv \<and> mset (value_blocks kept) \<subseteq># mset (value_blocks new) + mset (value_blocks old)"
proof -
  obtain np nc nch nop where n: "new = OV_array np nc nch nop"
    using assms by (cases new) (auto simp: process_monitor_value_v_def obind_Inr_iff children_of_def)
  obtain p c och oop where old: "old = OV_array p c och oop"
    using assms by (cases old) (auto simp: process_monitor_value_v_def obind_Inr_iff split_op_result_of_def)
  define kept where "kept = OV_array p nc nch oop"
  define gone where "gone = OV_array np c och nop"
  have "F + mset (value_blocks new) + mset (value_blocks old)
      = (F + mset (value_blocks kept)) + mset (value_blocks gone)"
    by (simp add: n old kept_def gone_def)
  then have "rb_monitor_value_done gone (F + mset (value_blocks new) + mset (value_blocks old))
      = Inr (F + mset (value_blocks kept))"
    by (simp only: value_mem.done_frame)
  moreover have "mset (value_blocks kept) \<subseteq># mset (value_blocks new) + mset (value_blocks old)"
    by (simp add: n old kept_def)
  ultimately show ?thesis
    using assms by (auto simp: store_vector_def process_monitor_value_v_def obind_Inr_iff children_of_def
        split_op_result_of_def n old kept_def gone_def)
qed

lemma store_value_refines:
  assumes "process_monitor_value P mem monitor (stored new) (map_option stored old) ret = Inr (mv, ret')"
  shows "\<exists>kept. store_value P mem monitor new old ret (F + mset (value_blocks new) + value_mem_of old)
             = Inr (kept, ret', F + value_mem_of kept)
           \<and> map_option stored kept = mv \<and> value_mem_of kept \<subseteq># mset (value_blocks new) + value_mem_of old"
proof -
  let ?H = "F + mset (value_blocks new) + value_mem_of old"
  obtain upd where u: "update_value (pr_dne P) monitor (stored new) (map_option stored old) = Inr upd"
    using assms by (auto simp: process_monitor_value_def obind_Inr_iff)
  then have "old \<noteq> None" if "\<not> upd" using that by (cases old) (auto simp: update_value_def)
  then consider "upd" | o' where "\<not> upd" "old = Some o'" "is_value (stored new)"
    | o' where "\<not> upd" "old = Some o'" "\<not> is_value (stored new)"
    by (cases "is_value (stored new)") auto
  then show ?thesis
  proof cases
    case 1
    have "(case old of None \<Rightarrow> Inr ?H | Some v \<Rightarrow> rb_monitor_value_done v ?H) = Inr (F + mset (value_blocks new))"
      using value_mem.done_frame by (cases old) simp_all
    with 1 show ?thesis
      using assms u by (auto simp: process_monitor_value_def store_value_def obind_Inr_iff)
  next
    case 2
    have "rb_monitor_value_done new ?H = Inr (F + value_mem_of old)"
      using value_mem.done_frame [of new "F + value_mem_of old"] by (simp add: ac_simps)
    with 2 show ?thesis
      using assms u by (auto simp: process_monitor_value_def store_value_def obind_Inr_iff)
  next
    case 3
    with assms u obtain q m where "process_monitor_value_v P mem monitor (stored new) (stored o') = Inr (q, m)"
      "mv = Some m" "ret' = (case q of None \<Rightarrow> ret | Some a \<Rightarrow> rb_message_list_push ret a)"
      by (auto simp: process_monitor_value_def obind_Inr_iff)
    with 3 u store_vector_refines [OF this(1), of F] show ?thesis
      by (auto simp: store_value_def)
  qed
qed


section \<open>Monitors\<close>

text \<open>The pointers of a monitor; \<open>argument\<close> is never set.\<close>

record owned_monitor =
  om_block :: resource
  om_name :: "resource option"
  om_argument :: "resource option"
  om_name_split_suffix :: "resource option"
  om_instance_prefix :: "resource option"
  om_group_id :: "resource option"
  om_splittok :: "resource option"
  om_splitop :: "resource option"
  om_cmd_arg :: "resource option"
  om_enrichment :: "resource option"

definition rb_monitor_done :: "owned_monitor \<Rightarrow> heap \<Rightarrow> heap outcome" where
  "rb_monitor_done m H =
     obind (release_opt (om_name m) H) (\<lambda>H.
     obind (release_opt (om_argument m) H) (\<lambda>H.
     obind (release_opt (om_name_split_suffix m) H) (\<lambda>H.
     obind (release_opt (om_instance_prefix m) H) (\<lambda>H.
     obind (release_opt (om_group_id m) H) (\<lambda>H.
     obind (release_opt (om_splittok m) H) (\<lambda>H.
     obind (release_opt (om_splitop m) H) (\<lambda>H.
     obind (release_opt (om_cmd_arg m) H) (\<lambda>H.
     obind (release_opt (om_enrichment m) H) (\<lambda>H.
       release (om_block m) H)))))))))"

definition pointers :: "resource option list \<Rightarrow> resource list" where
  "pointers ps = List.map_filter id ps"

lemma pointers_simps [simp]:
  "pointers [] = []" "pointers (None # ps) = pointers ps" "pointers (Some r # ps) = r # pointers ps"
  by (simp_all add: pointers_def List.map_filter_simps)

definition monitor_resources :: "owned_monitor \<Rightarrow> resource list" where
  "monitor_resources m =
     pointers [om_name m, om_argument m, om_name_split_suffix m, om_instance_prefix m, om_group_id m,
       om_splittok m, om_splitop m, om_cmd_arg m, om_enrichment m, Some (om_block m)]"

lemma pointers_append: "pointers (ps @ qs) = pointers ps @ pointers qs"
  by (induction ps) (simp_all add: pointers_def map_filter_def)

lemma release_pointers:
  "obind (release_opt p H) (release_all (pointers ps)) = release_all (pointers (p # ps)) H"
  by (cases p) (simp_all add: release_opt_def)

lemma release_last: "release r = release_all (pointers [Some r])"
  by (rule ext) (simp add: obind_def split: sum.splits)

interpretation monitor_mem: releaser rb_monitor_done monitor_resources
  by unfold_locales
    (rule ext, simp only: rb_monitor_done_def monitor_resources_def release_last release_pointers)

text \<open>\<open>rb_monitors_array_done\<close>: every element below the count, which must not be null.\<close>

fun monitors_done :: "owned_monitor option list \<Rightarrow> heap \<Rightarrow> heap outcome" where
  "monitors_done [] H = Inr H"
| "monitors_done (None # ms) H = Inl Null_deref"
| "monitors_done (Some m # ms) H = obind (rb_monitor_done m H) (monitors_done ms)"

definition rb_monitors_array_done :: "resource \<times> owned_monitor option list \<Rightarrow> heap \<Rightarrow> heap outcome" where
  "rb_monitors_array_done monitors_array H =
     obind (monitors_done (snd monitors_array) H) (release (fst monitors_array))"

lemma monitors_done_eq:
  "None \<notin> set ms \<Longrightarrow> monitors_done ms H = release_all (concat (map (owned_opt monitor_resources) ms)) H"
  by (induction ms H rule: monitors_done.induct)
    (simp_all add: monitor_mem.done_owned obind_def split: sum.splits)

text \<open>\<open>free_monitors_dependencies\<close>: the position lists below \<open>count\<close>, then the array.\<close>

definition free_monitors_dependencies ::
    "resource \<times> resource option list \<Rightarrow> nat \<Rightarrow> heap \<Rightarrow> heap outcome" where
  "free_monitors_dependencies deps n_deps H =
     (if length (snd deps) < n_deps then Inl Out_of_bounds
      else obind (done_elements release (take n_deps (snd deps)) H) (release (fst deps)))"

section \<open>Sensors\<close>

text \<open>An array is its block and its elements below the count.\<close>

record owned_sensor =
  os_block :: resource
  os_peername :: "resource option"
  os_community :: "resource option"
  os_op_vars :: "(resource \<times> resource option list) option"
  os_monitors :: "(resource \<times> owned_monitor option list) option"
  os_last_vals :: "(resource \<times> owned_value option list) option"
  os_enrichment :: "resource option"

definition sensor_done :: "owned_sensor \<Rightarrow> heap \<Rightarrow> heap outcome" where
  "sensor_done sensor H =
     obind (release_opt (os_peername sensor) H) (\<lambda>H.
     obind (release_opt (os_community sensor) H) (\<lambda>H.
     obind (case os_op_vars sensor of
              None \<Rightarrow> Inr H
            | Some deps \<Rightarrow>
                (case os_monitors sensor of
                   None \<Rightarrow> Inl Null_deref
                 | Some ms \<Rightarrow> free_monitors_dependencies deps (length (snd ms)) H)) (\<lambda>H.
     obind (case os_monitors sensor of None \<Rightarrow> Inr H | Some ms \<Rightarrow> rb_monitors_array_done ms H) (\<lambda>H.
     obind (case os_last_vals sensor of
              None \<Rightarrow> Inr H
            | Some vals \<Rightarrow> done_elements rb_monitor_value_done (snd vals) H) (\<lambda>H.
     obind (release_opt (map_option fst (os_last_vals sensor)) H) (\<lambda>H.
     obind (release_opt (os_enrichment sensor) H) (\<lambda>H.
       release (os_block sensor) H)))))))"

text \<open>What the parser of sensors leaves behind it, complete or not.\<close>

definition owned_sensor_wf :: "owned_sensor \<Rightarrow> bool" where
  "owned_sensor_wf sensor \<longleftrightarrow>
     (case os_op_vars sensor of
        None \<Rightarrow> True
      | Some deps \<Rightarrow> (\<exists>ms. os_monitors sensor = Some ms \<and> length (snd deps) = length (snd ms)))
     \<and> (case os_monitors sensor of None \<Rightarrow> True | Some ms \<Rightarrow> None \<notin> set (snd ms))"

definition array_resources :: "('o \<Rightarrow> resource list) \<Rightarrow> (resource \<times> 'o option list) option \<Rightarrow> resource list" where
  "array_resources owned a =
     (case a of None \<Rightarrow> [] | Some (b, es) \<Rightarrow> concat (map (owned_opt owned) es) @ [b])"

definition sensor_resources :: "owned_sensor \<Rightarrow> resource list" where
  "sensor_resources sensor =
     pointers [os_peername sensor, os_community sensor] @
     array_resources (\<lambda>r. [r]) (os_op_vars sensor) @
     array_resources monitor_resources (os_monitors sensor) @
     array_resources value_blocks (os_last_vals sensor) @
     pointers [os_enrichment sensor, Some (os_block sensor)]"

lemma obind_release_all: "obind (release_all xs H) (release_all ys) = release_all (xs @ ys) H"
  by simp

lemma sensor_done_eq:
  assumes "owned_sensor_wf sensor"
  shows "sensor_done sensor H = release_all (sensor_resources sensor) H"
proof -
  have deps: "(case os_op_vars sensor of
              None \<Rightarrow> Inr H
            | Some deps \<Rightarrow>
                (case os_monitors sensor of
                   None \<Rightarrow> Inl Null_deref
                 | Some ms \<Rightarrow> free_monitors_dependencies deps (length (snd ms)) H))
      = release_all (array_resources (\<lambda>r. [r]) (os_op_vars sensor)) H" for H
    using assms
    by (auto simp: owned_sensor_wf_def free_monitors_dependencies_def array_resources_def
        pointer.done_elements_owned obind_def split: option.splits sum.splits)
  have mons: "(case os_monitors sensor of None \<Rightarrow> Inr H | Some ms \<Rightarrow> rb_monitors_array_done ms H)
      = release_all (array_resources monitor_resources (os_monitors sensor)) H" for H
    using assms
    by (auto simp: owned_sensor_wf_def rb_monitors_array_done_def array_resources_def
        monitors_done_eq obind_def split: option.splits sum.splits)
  define es where "es = (case os_last_vals sensor of None \<Rightarrow> [] | Some a \<Rightarrow> concat (map (owned_opt value_blocks) (snd a)))"
  have vals: "(case os_last_vals sensor of
              None \<Rightarrow> Inr H
            | Some vals \<Rightarrow> done_elements rb_monitor_value_done (snd vals) H) = release_all es H" for H
    by (simp add: es_def value_mem.done_elements_owned split: option.splits)
  have ptr: "release_opt p H = release_all (pointers [p]) H" for p H
    by (cases p) (simp_all add: release_opt_eq)
  have "pointers [os_peername sensor] @ pointers [os_community sensor] @
     array_resources (\<lambda>r. [r]) (os_op_vars sensor) @ array_resources monitor_resources (os_monitors sensor) @
     es @ pointers [map_option fst (os_last_vals sensor)] @ pointers [os_enrichment sensor] @
     pointers [Some (os_block sensor)] = sensor_resources sensor"
    by (cases "os_peername sensor"; cases "os_community sensor"; cases "os_enrichment sensor";
        cases "os_last_vals sensor")
      (simp_all add: sensor_resources_def es_def array_resources_def split: prod.splits)
  moreover have "sensor_done sensor H = release_all (pointers [os_peername sensor] @ pointers [os_community sensor] @
     array_resources (\<lambda>r. [r]) (os_op_vars sensor) @ array_resources monitor_resources (os_monitors sensor) @
     es @ pointers [map_option fst (os_last_vals sensor)] @ pointers [os_enrichment sensor] @
     pointers [Some (os_block sensor)]) H"
    unfolding sensor_done_def deps mons vals ptr release_last obind_release_all by (rule refl)
  ultimately show ?thesis by (simp only:)
qed


section \<open>Parsing and rejecting\<close>

text \<open>
  The blocks of \<open>parse_rb_monitor0\<close>, each null when the member is missing or memory ran out; \<open>valid\<close>
  says whether the split operation is known.
\<close>

record monitor_allocs =
  ma_name :: "resource option"
  ma_split_op :: "resource option"
  ma_unit :: "resource option"
  ma_group_name :: "resource option"
  ma_monitor :: "resource option"
  ma_split :: "resource option"
  ma_name_split_suffix :: "resource option"
  ma_instance_prefix :: "resource option"
  ma_group_id :: "resource option"
  ma_cmd_arg :: "resource option"
  ma_enrichment :: "resource option"

definition owned_parse_rb_monitor0 ::
    "monitor_allocs \<Rightarrow> bool \<Rightarrow> heap \<Rightarrow> (owned_monitor option \<times> heap) outcome" where
  "owned_parse_rb_monitor0 a valid H =
     (if ma_name a = None then Inr (None, H)
      else
        let H = H + mset (pointers [ma_name a, ma_split_op a, ma_unit a, ma_group_name a]);
            bad = ma_split_op a \<noteq> None \<and> \<not> valid;
            aux_split_op = (if bad then None else ma_split_op a)
        in obind (if bad then release_opt (ma_split_op a) H else Inr H) (\<lambda>H.
           case ma_monitor a of
             None \<Rightarrow>
               obind (release_opt (ma_name a) H) (\<lambda>H.
               obind (release_opt aux_split_op H) (\<lambda>H.
               obind (release_opt (ma_unit a) H) (\<lambda>H. Inr (None, H))))
           | Some b \<Rightarrow>
               let H = H + mset (b # pointers [ma_split a, ma_name_split_suffix a, ma_instance_prefix a,
                                               ma_group_id a, ma_cmd_arg a, ma_enrichment a]);
                   ret = \<lparr>om_block = b, om_name = ma_name a, om_argument = None,
                          om_name_split_suffix = ma_name_split_suffix a,
                          om_instance_prefix = ma_instance_prefix a, om_group_id = ma_group_id a,
                          om_splittok = ma_split a, om_splitop = aux_split_op,
                          om_cmd_arg = ma_cmd_arg a, om_enrichment = ma_enrichment a\<rparr>
               in obind (if ma_enrichment a = None \<or> ma_cmd_arg a = None
                         then obind (rb_monitor_done ret H) (\<lambda>H. Inr (None, H))
                         else Inr (Some ret, H)) (\<lambda>(ret, H).
                  obind (release_opt (ma_group_name a) H) (\<lambda>H.
                  obind (release_opt (ma_unit a) H) (\<lambda>H. Inr (ret, H))))))"

definition ptr_mem :: "resource option \<Rightarrow> heap" where
  "ptr_mem p = (case p of None \<Rightarrow> {#} | Some r \<Rightarrow> {#r#})"

lemma ptr_mem_simps [simp]: "ptr_mem None = {#}" "ptr_mem (Some r) = {#r#}"
  by (simp_all add: ptr_mem_def)

lemma mset_pointers: "mset (pointers (p # ps)) = ptr_mem p + mset (pointers ps)"
  by (cases p) simp_all

lemma release_opt_ptr: "release_opt p H = (if ptr_mem p \<subseteq># H then Inr (H - ptr_mem p) else Inl Use_after_free)"
  by (cases p) (simp_all add: release_opt_def release_def)

text \<open>Every way out frees what it does not return, but for the name of the group.\<close>

lemma parsed_monitor_memory:
  "\<exists>m. owned_parse_rb_monitor0 a valid H =
     Inr (m, H + mset (owned_opt monitor_resources m) +
       mset (if ma_name a \<noteq> None \<and> ma_monitor a = None then pointers [ma_group_name a] else []))"
proof (cases "ma_name a")
  case (Some nm)
  note facts = owned_parse_rb_monitor0_def Let_def release_opt_ptr mset_pointers monitor_mem.done_owned
    release_all_eq monitor_resources_def
  show ?thesis
  proof (cases "ma_monitor a")
    case None
    with Some show ?thesis by (cases "ma_split_op a"; cases valid) (auto simp: facts)
  next
    case mon: (Some b)
    with Some show ?thesis
      by (cases "ma_enrichment a"; cases "ma_cmd_arg a"; cases "ma_split_op a"; cases valid) (auto simp: facts)
  qed
qed (simp add: owned_parse_rb_monitor0_def)


text \<open>
  The blocks of \<open>parse_rb_sensor\<close>. The enrichment is the object of the configuration when it has
  one, and then no reference is taken; otherwise a new object. \<open>sa_created\<close> is what
  \<open>sensor_create_enrichment\<close> returned.
\<close>

record sensor_allocs =
  sa_sensor :: "resource option"
  sa_name :: bool
  sa_monitors_given :: bool
  sa_peername :: "resource option"
  sa_community :: "resource option"
  sa_snmp_version :: "resource option"
  sa_config_enrichment :: "resource option"
  sa_new_enrichment :: "resource option"
  sa_created :: bool
  sa_monitors :: "(resource \<times> owned_monitor option list) option"
  sa_op_vars :: "(resource \<times> resource option list) option"
  sa_last_vals :: "resource option"

definition owned_attrs_parse_json ::
    "sensor_allocs \<Rightarrow> owned_sensor \<Rightarrow> heap \<Rightarrow> owned_sensor \<times> bool \<times> heap" where
  "owned_attrs_parse_json a sensor H =
     (if \<not> sa_name a \<or> \<not> sa_monitors_given a then (sensor, False, H)
      else
        let H = H + mset (pointers [sa_peername a, sa_community a, sa_snmp_version a]);
            sensor = sensor\<lparr>os_peername := sa_peername a, os_community := sa_community a\<rparr>;
            enrichment = (if sa_config_enrichment a = None then sa_new_enrichment a else sa_config_enrichment a);
            H = (if sa_config_enrichment a = None then H + mset (pointers [sa_new_enrichment a]) else H)
        in if enrichment = None then (sensor, False, H)
           else
             let sensor = sensor\<lparr>os_enrichment := enrichment, os_monitors := sa_monitors a\<rparr>;
                 H = H + mset (array_resources monitor_resources (sa_monitors a))
             in if \<not> sa_created a then (sensor, False, H)
                else case sa_monitors a of
                       None \<Rightarrow> (sensor, False, H)
                     | Some ms \<Rightarrow>
                         let H = H + mset (array_resources (\<lambda>r. [r]) (sa_op_vars a)) + mset (pointers [sa_last_vals a]);
                             sensor = sensor\<lparr>os_op_vars := sa_op_vars a,
                                os_last_vals := map_option (\<lambda>b. (b, replicate (length (snd ms)) None)) (sa_last_vals a)\<rparr>
                         in (sensor, sa_last_vals a \<noteq> None, H))"

definition owned_check_sensor :: "owned_sensor \<Rightarrow> bool" where
  "owned_check_sensor sensor \<longleftrightarrow>
     os_peername sensor \<noteq> None \<and> os_community sensor \<noteq> None \<and> os_monitors sensor \<noteq> None"

definition owned_parse_rb_sensor :: "sensor_allocs \<Rightarrow> heap \<Rightarrow> (owned_sensor option \<times> heap) outcome" where
  "owned_parse_rb_sensor a H =
     (case sa_sensor a of
        None \<Rightarrow> Inr (None, H)
      | Some b \<Rightarrow>
          let (sensor, rc, H) = owned_attrs_parse_json a
                \<lparr>os_block = b, os_peername = None, os_community = None, os_op_vars = None,
                 os_monitors = None, os_last_vals = None, os_enrichment = None\<rparr> (add_mset b H)
          in if rc \<and> owned_check_sensor sensor then Inr (Some sensor, H)
             else obind (sensor_done sensor H) (\<lambda>H. Inr (None, H)))"

text \<open>What \<open>parse_rb_monitors\<close> and \<open>get_monitors_dependencies\<close> return.\<close>

definition sensor_allocs_wf :: "sensor_allocs \<Rightarrow> bool" where
  "sensor_allocs_wf a \<longleftrightarrow>
     (case sa_monitors a of
        None \<Rightarrow> True
      | Some ms \<Rightarrow> None \<notin> set (snd ms)
          \<and> (case sa_op_vars a of None \<Rightarrow> True | Some deps \<Rightarrow> length (snd deps) = length (snd ms)))"

text \<open>The reference a sensor will give up without having taken it.\<close>

definition borrowed :: "sensor_allocs \<Rightarrow> heap" where
  "borrowed a =
     (if sa_sensor a \<noteq> None \<and> sa_name a \<and> sa_monitors_given a then ptr_mem (sa_config_enrichment a) else {#})"

text \<open>The duplicate of the version, which nothing frees.\<close>

definition leaked :: "sensor_allocs \<Rightarrow> heap" where
  "leaked a =
     (if sa_sensor a \<noteq> None \<and> sa_name a \<and> sa_monitors_given a then ptr_mem (sa_snmp_version a) else {#})"

lemma owned_attrs_memory:
  assumes "sensor_allocs_wf a" and "sa_sensor a = Some b"
    and "owned_attrs_parse_json a
                \<lparr>os_block = b, os_peername = None, os_community = None, os_op_vars = None,
                 os_monitors = None, os_last_vals = None, os_enrichment = None\<rparr> (add_mset b H) = (s, rc, H')"
  shows "owned_sensor_wf s \<and> H' + borrowed a = H + mset (sensor_resources s) + leaked a"
proof -
  have none: "concat (map (owned_opt value_blocks) (replicate n None)) = []" for n
    by (induction n) simp_all
  show ?thesis
    using assms
    by (auto simp: owned_attrs_parse_json_def sensor_allocs_wf_def owned_sensor_wf_def sensor_resources_def
        borrowed_def leaked_def mset_pointers array_resources_def none Let_def
        split: if_splits option.splits prod.splits)
qed

lemma parsed_sensor_memory:
  assumes "sensor_allocs_wf a" and "borrowed a \<subseteq># H"
  shows "\<exists>s H'. owned_parse_rb_sensor a H = Inr (s, H')
           \<and> H' = H - borrowed a + mset (owned_opt sensor_resources s) + leaked a"
proof (cases "sa_sensor a")
  case None
  then show ?thesis by (simp add: owned_parse_rb_sensor_def borrowed_def leaked_def)
next
  case (Some b)
  let ?s0 = "\<lparr>os_block = b, os_peername = None, os_community = None, os_op_vars = None,
                 os_monitors = None, os_last_vals = None, os_enrichment = None\<rparr>"
  obtain s rc H' where attrs: "owned_attrs_parse_json a ?s0 (add_mset b H) = (s, rc, H')"
    using prod_cases3 by blast
  from owned_attrs_memory [OF assms(1) Some attrs] have wf: "owned_sensor_wf s"
    and sum: "H' + borrowed a = H + mset (sensor_resources s) + leaked a" by simp_all
  obtain G where G: "H = G + borrowed a" using assms(2) by (metis subset_mset.diff_add)
  have "H' + borrowed a = (G + leaked a + mset (sensor_resources s)) + borrowed a"
    using sum by (simp add: G ac_simps)
  then have H': "H' = (H - borrowed a + leaked a) + mset (sensor_resources s)"
    unfolding add_right_cancel by (simp add: G)
  have rejected: "sensor_done s H' = Inr (H - borrowed a + leaked a)"
    unfolding sensor_done_eq [OF wf] H' by (rule release_all_frame)
  show ?thesis
    using rejected
    by (simp add: owned_parse_rb_sensor_def Some attrs, simp add: H' ac_simps)
qed


lemma rejected_sensor_memory:
  assumes "sensor_allocs_wf a" and "sa_sensor a \<noteq> None" and "sa_name a" and "sa_monitors_given a"
    and conf: "sa_config_enrichment a = Some j" and "count H j = 1" and "sa_snmp_version a \<noteq> Some j"
    and "owned_parse_rb_sensor a H = Inr (None, H')"
  shows "H' = H - {#j#} + ptr_mem (sa_snmp_version a) \<and> release j H' = Inl Use_after_free"
proof -
  have "borrowed a = {#j#}" and "leaked a = ptr_mem (sa_snmp_version a)"
    using assms(2-5) by (simp_all add: borrowed_def leaked_def)
  moreover from assms(6) have "j \<in># H" by (metis count_eq_zero_iff zero_neq_one)
  ultimately have H': "H' = H - {#j#} + ptr_mem (sa_snmp_version a)"
    using parsed_sensor_memory [OF assms(1), of H] assms(8) by simp
  have "count (ptr_mem (sa_snmp_version a)) j = 0"
    using assms(7) by (cases "sa_snmp_version a") auto
  then have "count H' j = 0" unfolding H' count_union count_diff using assms(6) by simp
  then have "j \<notin># H'" by (metis count_eq_zero_iff)
  then have "release j H' = Inl Use_after_free" by (simp add: release_def)
  with H' show ?thesis by (rule conjI)
qed

end
