(* ===== verification/Pass_Memory.thy ===== *)
theory Pass_Memory
  imports Release
begin

text \<open>
  The pass of src/rb_sensor_monitor_array.c with its memory: the values it allocates, the two arrays
  of pointers it makes (\<open>op_vars\<close> and \<open>current_iteration_values\<close>) and what it frees. The allocator is a
  parameter: it may return any block that is not live. The pass computes and sends what the pass of
  Monitor_Array does, never reads a value that was freed, and at its end the memory is what it was,
  with the old values replaced by the new ones.
\<close>

section \<open>The pass with its memory\<close>

text \<open>The address of the next block, and the addresses a value is built at.\<close>

record allocator =
  al_block :: "heap \<Rightarrow> nat"
  al_value :: "heap \<Rightarrow> monitor_value \<Rightarrow> owned_value"

definition allocator_ok :: "allocator \<Rightarrow> bool" where
  "allocator_ok A \<longleftrightarrow>
     (\<forall>H. heap_ok H \<longrightarrow> heap_ok (add_mset (Block (al_block A H)) H))
     \<and> (\<forall>H v. stored (al_value A H v) = v \<and> (heap_ok H \<longrightarrow> heap_ok (H + mset (value_blocks (al_value A H v)))))"

definition stored_array :: "owned_value rb_array \<Rightarrow> values_array" where
  "stored_array a =
     \<lparr>arr_size = arr_size a, arr_count = arr_count a, elms = map (map_option stored) (elms a)\<rparr>"

text \<open>Every value an array points to is live.\<close>

definition all_live :: "heap \<Rightarrow> owned_value rb_array option \<Rightarrow> bool" where
  "all_live H a =
     (case a of None \<Rightarrow> True
      | Some vs \<Rightarrow> list_all (\<lambda>e. value_mem_of e \<subseteq># H) (elms vs))"

record owned_pass =
  op_last :: "owned_value rb_array"
  op_current :: "owned_value rb_array"
  op_queue :: "rb_message_array tailq"
  op_out :: "produced list"
  op_heap :: heap

text \<open>The body of the loop over the monitors.\<close>

definition owned_monitor_i ::
    "allocator \<Rightarrow> 'j printing \<Rightarrow> worker_info \<Rightarrow> 'j monitors_array \<Rightarrow> dependencies option \<Rightarrow> process_ctx
      \<Rightarrow> 'f turn \<Rightarrow> nat \<Rightarrow> owned_pass \<Rightarrow> owned_pass outcome" where
  "owned_monitor_i A P W monitors monitors_deps ctx T i st =
     obind (dependency_at monitors_deps i) (\<lambda>deps_i.
     obind (rb_monitor_value_array_select (turn_mem T At_select) (Some (op_current st)) deps_i) (\<lambda>op_vars.
     let b = Block (al_block A (op_heap st));
         H = (if op_vars = None then op_heap st else add_mset b (op_heap st))
     in obind (elm_at monitors i) (\<lambda>monitor_i.
     case monitor_i of
       None \<Rightarrow> Inl Null_deref
     | Some monitor \<Rightarrow>
         if \<not> all_live H op_vars then Inl Use_after_free
         else obind (process_sensor_monitor (turn_libs T) (turn_mem T) (turn_now T) ctx monitor
                       (map_option stored_array op_vars)) (\<lambda>value'.
         obind (case value' of
                  None \<Rightarrow> Inr (op_last st, op_queue st, H)
                | Some v \<Rightarrow>
                    let mv = al_value A H v
                    in obind (elm_at (op_last st) i) (\<lambda>last_known_i.
                       obind (store_value P (turn_mem T) monitor mv last_known_i (op_queue st)
                                (H + mset (value_blocks mv))) (\<lambda>(kept, ret, H').
                       obind (set_elm (op_last st) i kept) (\<lambda>last'. Inr (last', ret, H')))))
           (\<lambda>(last', ret, H').
         obind (elm_at last' i) (\<lambda>e.
         obind (set_elm (op_current st) i e) (\<lambda>current'.
         obind (if op_vars = None then Inr H' else release b H') (\<lambda>H''.
         obind (returned (msg_list.drain (worker_process_sensor_send_array W) (ret, op_out st))) (\<lambda>(ret', out').
           Inr \<lparr>op_last = last', op_current = current', op_queue = ret', op_out = out', op_heap = H''\<rparr>)))))))))"

fun owned_monitors_loop ::
    "allocator \<Rightarrow> 'j printing \<Rightarrow> worker_info \<Rightarrow> 'j monitors_array \<Rightarrow> dependencies option \<Rightarrow> process_ctx
      \<Rightarrow> (nat \<Rightarrow> 'f turn) \<Rightarrow> nat list \<Rightarrow> owned_pass \<Rightarrow> owned_pass outcome" where
  "owned_monitors_loop A P W monitors monitors_deps ctx turns [] st = Inr st"
| "owned_monitors_loop A P W monitors monitors_deps ctx turns (i # is) st =
     obind (owned_monitor_i A P W monitors monitors_deps ctx (turns i) i st)
       (owned_monitors_loop A P W monitors monitors_deps ctx turns is)"

text \<open>
  \<open>process_monitors_array\<close> from the copy of the values to its release; the session and the context
  belong to the SNMP library and are opened as before.
\<close>

definition owned_monitors_array ::
    "allocator \<Rightarrow> 'j printing \<Rightarrow> snmp_lib \<Rightarrow> pass_mem \<Rightarrow> (nat \<Rightarrow> 'f turn) \<Rightarrow> worker_info \<Rightarrow> 'j monitors_array
      \<Rightarrow> owned_value rb_array \<Rightarrow> dependencies option \<Rightarrow> snmp_params \<Rightarrow> rb_message_array tailq
      \<Rightarrow> produced list \<Rightarrow> heap \<Rightarrow> (bool \<times> owned_pass) outcome" where
  "owned_monitors_array A P S PM turns W monitors last_known monitors_deps params ret out H =
     (let (W', sess) = open_session S (pm_session PM) W params;
          ctx = (if sess \<noteq> None \<and> pm_ctx PM then sess else None);
          n = arr_count monitors;
          b = Block (al_block A H);
          start = \<lparr>op_last = last_known, op_current = last_known, op_queue = ret, op_out = out, op_heap = H\<rparr>
      in if \<not> pm_current PM then Inr (False, start)
         else if length (elms last_known) < n then Inl Out_of_bounds
         else
           let current = \<lparr>arr_size = n, arr_count = n, elms = take n (elms last_known)\<rparr>;
               st = start\<lparr>op_current := current, op_heap := add_mset b H\<rparr>
           in obind (case sess of
                       Some (Some s) \<Rightarrow>
                         obind (owned_monitors_loop A P W' monitors monitors_deps ctx turns [0..<n] st)
                           (\<lambda>st'. Inr (True, st'))
                     | _ \<Rightarrow> Inr (False, st)) (\<lambda>(aok, st').
              obind (release b (op_heap st')) (\<lambda>H'. Inr (aok, st'\<lparr>op_heap := H'\<rparr>))))"

section \<open>One monitor\<close>

definition vals_mem :: "owned_value option list \<Rightarrow> heap" where
  "vals_mem xs = mset (concat (map (owned_opt value_blocks) xs))"

lemma vals_mem_split:
  assumes "i < length xs"
  shows "\<exists>R. vals_mem xs = value_mem_of (xs ! i) + R \<and> (\<forall>e. vals_mem (xs[i := e]) = value_mem_of e + R)"
proof (intro exI conjI allI)
  let ?R = "vals_mem (take i xs) + vals_mem (drop (Suc i) xs)"
  show "vals_mem xs = value_mem_of (xs ! i) + ?R"
    by (subst id_take_nth_drop [OF assms]) (simp add: vals_mem_def)
  show "vals_mem (xs[i := e]) = value_mem_of e + ?R" for e
    using assms by (simp add: upd_conv_take_nth_drop vals_mem_def)
qed

lemma value_live: "i < length xs \<Longrightarrow> value_mem_of (xs ! i) \<subseteq># vals_mem xs"
  using vals_mem_split by fastforce

lemma stored_array_filled [simp]: "stored_array (filled xs) = filled (map (map_option stored) xs)"
  by (simp add: stored_array_def filled_def)

definition owned_state :: "heap \<Rightarrow> owned_value option list \<times> produced list \<Rightarrow> owned_pass" where
  "owned_state F s =
     \<lparr>op_last = filled (fst s), op_current = filled (fst s), op_queue = [], op_out = snd s,
      op_heap = F + vals_mem (fst s)\<rparr>"

lemma operands_stored:
  assumes "in_range n deps" and "length xs = n" and "i < n"
  shows "map_option stored_array (operands mem xs (deps ! i)) = operands mem (map (map_option stored) xs) (deps ! i)"
proof (cases "deps ! i")
  case (Some ps)
  then have "Some ps \<in> set deps" using assms by (metis in_range_def nth_mem)
  then have "\<forall>p \<in> set ps. p < length xs" using assms(1,2) by (auto simp: in_range_def)
  then show ?thesis by (auto simp: operands_def Some)
qed (simp add: operands_def)

lemma operands_live:
  assumes "in_range n deps" and "length xs = n" and "i < n" and "vals_mem xs \<subseteq># H"
  shows "all_live H (operands mem xs (deps ! i))"
proof (cases "deps ! i")
  case (Some ps)
  then have "Some ps \<in> set deps" using assms by (metis in_range_def nth_mem)
  then have "\<forall>p \<in> set ps. p < length xs" using assms(1,2) by (auto simp: in_range_def)
  then have "\<forall>p \<in> set ps. value_mem_of (xs ! p) \<subseteq># H"
    using value_live assms(4) by (metis subset_mset.order_trans)
  then show ?thesis by (simp add: operands_def Some all_live_def list_all_iff)
qed (simp add: operands_def all_live_def)

abbreviation stored_list :: "owned_value option list \<Rightarrow> monitor_value option list" where
  "stored_list xs \<equiv> map (map_option stored) xs"

text \<open>The value of a turn is built, stored, and the memory of what it replaces is gone.\<close>

lemma store_at:
  assumes "process_monitor_value P mem monitor (stored mv) (map_option stored (xs ! i)) q = Inr (r, q')"
    and "i < length xs" and "vals_mem xs \<subseteq># H"
  shows "\<exists>kept. store_value P mem monitor mv (xs ! i) q (H + mset (value_blocks mv))
             = Inr (kept, q', H - vals_mem xs + vals_mem (xs[i := kept]))
           \<and> map_option stored kept = r
           \<and> H - vals_mem xs + vals_mem (xs[i := kept]) \<subseteq># H + mset (value_blocks mv)"
proof -
  obtain R where R: "vals_mem xs = value_mem_of (xs ! i) + R" "\<And>e. vals_mem (xs[i := e]) = value_mem_of e + R"
    using vals_mem_split [OF assms(2)] by blast
  obtain G where G: "H = G + vals_mem xs"
    using assms(3) by (metis subset_mset.diff_add)
  obtain kept where k: "store_value P mem monitor mv (xs ! i) q (G + R + mset (value_blocks mv) + value_mem_of (xs ! i))
      = Inr (kept, q', G + R + value_mem_of kept)"
    "map_option stored kept = r" "value_mem_of kept \<subseteq># mset (value_blocks mv) + value_mem_of (xs ! i)"
    using store_value_refines [OF assms(1), of "G + R"] by blast
  have before: "H + mset (value_blocks mv) = G + R + mset (value_blocks mv) + value_mem_of (xs ! i)"
    by (simp add: G R)
  have after: "H - vals_mem xs + vals_mem (xs[i := kept]) = G + R + value_mem_of kept"
    by (simp add: G R(2))
  have "G + R + value_mem_of kept \<subseteq># H + mset (value_blocks mv)"
    using k(3) by (simp add: G R(1) ac_simps)
  then show ?thesis
    using k(1,2) unfolding before [symmetric] after [symmetric] by blast
qed

lemma mem_below:
  fixes F :: heap
  shows "X \<subseteq># add_mset b (F + X)" and "F + X \<subseteq># add_mset b (F + X)"
  by (metis mset_subset_eq_add_right union_mset_add_mset_left) (simp add: subset_mset.le_iff_add)

lemma heap_ok_block: "allocator_ok A \<Longrightarrow> heap_ok H \<Longrightarrow> heap_ok (add_mset (Block (al_block A H)) H)"
  by (simp add: allocator_ok_def)

lemma owned_monitor_i_refines:
  assumes A: "allocator_ok A" and mons: "rb_array_wf mons" "rb_array_contents mons = map Some ms"
    and deps: "in_range (length ms) deps" and len: "length xs = length ms" and i: "i < length ms"
    and ok: "heap_ok (F + vals_mem xs)"
    and step: "pass_step P W ms deps ctx T i (stored_list xs, out) = Inr s'"
  shows "\<exists>xs'. owned_monitor_i A P W mons (Some (stored_deps deps)) ctx T i (owned_state F (xs, out))
             = Inr (owned_state F (xs', snd s'))
           \<and> stored_list xs' = fst s' \<and> heap_ok (F + vals_mem xs')"
proof -
  have "arr_count mons = length ms"
    using length_rb_array_contents [OF mons(1)] mons(2) by simp
  then have m: "elm_at mons i = Inr (Some (ms ! i))"
    using elm_at_contents [OF mons(1), of i] mons(2) i by simp
  have dep: "dependency_at (Some (stored_deps deps)) i = Inr (stored_deps deps ! i)"
    using deps i by (simp add: dependency_at_def stored_deps_def in_range_def)
  define ops where "ops = operands (turn_mem T) xs (deps ! i)"
  have sel: "rb_monitor_value_array_select (turn_mem T At_select) (Some (filled xs)) (stored_deps deps ! i) = Inr ops"
    unfolding ops_def by (rule select_operands [OF deps len i])
  have ops: "map_option stored_array ops = operands (turn_mem T) (stored_list xs) (deps ! i)"
    unfolding ops_def by (rule operands_stored [OF deps len i])
  define b where "b = Block (al_block A (F + vals_mem xs))"
  define H where "H = (if ops = None then F + vals_mem xs else add_mset b (F + vals_mem xs))"
  have okH: "heap_ok H" using ok A by (simp add: H_def b_def heap_ok_block)
  have live: "vals_mem xs \<subseteq># H" using mem_below(1) by (simp add: H_def)
  have alive: "all_live H ops" unfolding ops_def by (rule operands_live [OF deps len i live])
  note facts = owned_monitor_i_def owned_state_def dep sel m b_def [symmetric] H_def [symmetric] alive ops
    Let_def len i msg_list.drain_eq rb_message_list_init_def send_all_eq
  obtain v where v: "process_sensor_monitor (turn_libs T) (turn_mem T) (turn_now T) ctx (ms ! i)
      (operands (turn_mem T) (stored_list xs) (deps ! i)) = Inr v"
    using step by (auto simp: pass_step_def Let_def obind_Inr_iff)
  show ?thesis
  proof (cases v)
    case None
    have "owned_monitor_i A P W mons (Some (stored_deps deps)) ctx T i (owned_state F (xs, out))
        = Inr (owned_state F (xs, out))"
      by (simp add: facts v None list_update_same_conv cong: if_cong split del: if_split)
        (simp add: H_def release_def)
    moreover have "s' = (stored_list xs, out)" using step by (simp add: pass_step_def v None)
    ultimately show ?thesis using ok by auto
  next
    case (Some x)
    define mv where "mv = al_value A H x"
    have mv: "stored mv = x" "heap_ok (H + mset (value_blocks mv))"
      using A okH by (simp_all add: mv_def allocator_ok_def)
    obtain r q where pmv: "process_monitor_value P (turn_mem T) (ms ! i) x (map_option stored (xs ! i)) [] = Inr (r, q)"
      and s': "s' = ((stored_list xs)[i := r], out @ concat (map (to_outputs W) (concat (map messages_of q))))"
      using step i len by (auto simp: pass_step_def v Some obind_Inr_iff)
    have "i < length xs" by (simp add: len i)
    from store_at [OF pmv [folded mv(1)] this live] obtain kept where
      k: "store_value P (turn_mem T) (ms ! i) mv (xs ! i) [] (H + mset (value_blocks mv))
            = Inr (kept, q, H - vals_mem xs + vals_mem (xs[i := kept]))"
      "map_option stored kept = r" "H - vals_mem xs + vals_mem (xs[i := kept]) \<subseteq># H + mset (value_blocks mv)"
      by blast
    have "owned_monitor_i A P W mons (Some (stored_deps deps)) ctx T i (owned_state F (xs, out))
        = Inr (owned_state F (xs[i := kept], snd s'))"
      by (simp add: facts v Some mv_def [symmetric] k(1) s' cong: if_cong split del: if_split)
        (simp add: H_def release_def)
    moreover have "F + vals_mem (xs[i := kept]) \<subseteq># H - vals_mem xs + vals_mem (xs[i := kept])"
      using mem_below(2) by (simp add: H_def)
    then have "heap_ok (F + vals_mem (xs[i := kept]))"
      using heap_ok_mono mv(2) k(3) subset_mset.order_trans by blast
    moreover have "stored_list (xs[i := kept]) = fst s'" using s' k(2) by (simp add: map_update)
    ultimately show ?thesis by blast
  qed
qed


section \<open>The whole pass\<close>

lemma owned_monitors_loop_refines:
  assumes A: "allocator_ok A" and mons: "rb_array_wf mons" "rb_array_contents mons = map Some ms"
    and deps: "in_range (length ms) deps"
    and "length xs = length ms" and "\<forall>i \<in> set is. i < length ms" and "heap_ok (F + vals_mem xs)"
    and "pass_fold P W ms deps ctx turns is (stored_list xs, out) = Inr s'"
  shows "\<exists>xs'. owned_monitors_loop A P W mons (Some (stored_deps deps)) ctx turns is (owned_state F (xs, out))
             = Inr (owned_state F (xs', snd s'))
           \<and> stored_list xs' = fst s' \<and> heap_ok (F + vals_mem xs')"
  using assms(5-)
proof (induction "is" arbitrary: xs out)
  case (Cons i "is")
  then have i: "i < length ms" by simp
  obtain s1 where s1: "pass_step P W ms deps ctx (turns i) i (stored_list xs, out) = Inr s1"
    "pass_fold P W ms deps ctx turns is s1 = Inr s'"
    using Cons.prems(4) by (auto simp: obind_Inr_iff)
  obtain xs1 where x: "owned_monitor_i A P W mons (Some (stored_deps deps)) ctx (turns i) i (owned_state F (xs, out))
        = Inr (owned_state F (xs1, snd s1))" "stored_list xs1 = fst s1" "heap_ok (F + vals_mem xs1)"
    using owned_monitor_i_refines [OF A mons deps Cons.prems(1) i Cons.prems(3) s1(1)] by blast
  have "length (fst s1) = length xs" using pass_step_length [OF s1(1)] by simp
  then have "length xs1 = length ms" using x(2) Cons.prems(1) by (metis length_map)
  moreover have "pass_fold P W ms deps ctx turns is (stored_list xs1, snd s1) = Inr s'"
    using s1(2) x(2) by simp
  ultimately show ?case using Cons.IH [of xs1 "snd s1"] Cons.prems(2) x(1,3) by simp
next
  case Nil
  then show ?case by (intro exI [of _ xs]) (auto simp: owned_state_def)
qed

lemma owned_monitors_array_refines:
  assumes A: "allocator_ok A" and mons: "rb_array_wf mons" "rb_array_contents mons = map Some ms"
    and deps: "in_range (length ms) deps" and len: "length xs = length ms" and ok: "heap_ok (F + vals_mem xs)"
    and run: "process_monitors_array P S PM turns W mons (filled (stored_list xs)) (Some (stored_deps deps)) params [] out
      = Inr r"
  shows "\<exists>xs' st. owned_monitors_array A P S PM turns W mons (filled xs) (Some (stored_deps deps)) params [] out
               (F + vals_mem xs) = Inr (pr_aok r, st)
           \<and> op_last st = filled xs' \<and> pr_last r = filled (stored_list xs') \<and> op_queue st = [] \<and> op_out st = pr_out r
           \<and> op_heap st = F + vals_mem xs' \<and> heap_ok (op_heap st)"
proof -
  have n: "arr_count mons = length xs"
    using length_rb_array_contents [OF mons(1)] mons(2) len by simp
  define b where "b = Block (al_block A (F + vals_mem xs))"
  obtain W' o' where sess0: "open_session S (pm_session PM) W params = (W', o')" by fastforce
  have cur: "\<lparr>arr_size = length ms, arr_count = length ms, elms = xs\<rparr> = filled xs"
    by (simp add: filled_def len)
  show ?thesis
  proof (cases "pass_session S PM W params")
    case None
    have "process_monitors_array P S PM turns W mons (filled (stored_list xs)) (Some (stored_deps deps)) params [] out
      = Inr \<lparr>pr_aok = False, pr_worker = W', pr_last = filled (stored_list xs), pr_queue = [], pr_out = out\<rparr>"
      by (simp add: process_monitors_array_no_session [OF None] n sess0)
    with run have "r = \<lparr>pr_aok = False, pr_worker = W', pr_last = filled (stored_list xs), pr_queue = [], pr_out = out\<rparr>"
      by simp
    moreover have "owned_monitors_array A P S PM turns W mons (filled xs) (Some (stored_deps deps)) params [] out
        (F + vals_mem xs) = Inr (False, owned_state F (xs, out))
      \<or> (\<exists>c. owned_monitors_array A P S PM turns W mons (filled xs) (Some (stored_deps deps)) params [] out
        (F + vals_mem xs) = Inr (False, (owned_state F (xs, out))\<lparr>op_current := c\<rparr>))"
      using None by (auto simp: owned_monitors_array_def sess0 n owned_state_def pass_session_def release_def Let_def
          split: option.splits)
    ultimately show ?thesis using ok by (auto simp: owned_state_def)
  next
    case (Some s)
    have len': "length (stored_list xs) = length ms" by (simp add: len)
    from Some have o': "o' = Some (Some s)" and pm: "pm_current PM"
      by (auto simp: pass_session_def sess0 split: option.splits if_splits)
    define ctx where "ctx = (if pm_ctx PM then Some (Some s) else None)"
    obtain s' where fold: "pass_fold P W' ms deps ctx turns [0..<length ms] (stored_list xs, out) = Inr s'"
      and r: "r = pass_finished W' s'"
      using run unfolding process_monitors_array_eq [OF mons deps len' Some]
      by (auto simp: sess0 ctx_def obind_Inr_iff)
    have "heap_ok ({#b#} + F + vals_mem xs)"
      using A ok by (simp add: b_def heap_ok_block)
    from owned_monitors_loop_refines [OF A mons deps len _ this fold] obtain xs' where
      l: "owned_monitors_loop A P W' mons (Some (stored_deps deps)) ctx turns [0..<length ms]
            (owned_state ({#b#} + F) (xs, out)) = Inr (owned_state ({#b#} + F) (xs', snd s'))"
        "stored_list xs' = fst s'" "heap_ok ({#b#} + F + vals_mem xs')" by auto
    have start: "\<lparr>op_last = filled xs, op_current = filled xs, op_queue = [], op_out = out,
        op_heap = add_mset b (F + vals_mem xs)\<rparr> = owned_state ({#b#} + F) (xs, out)"
      by (simp add: owned_state_def)
    have "owned_monitors_array A P S PM turns W mons (filled xs) (Some (stored_deps deps)) params [] out
        (F + vals_mem xs) = Inr (True, (owned_state F (xs', snd s')))"
      using l(1) pm
      by (simp add: owned_monitors_array_def sess0 o' n cur start b_def [symmetric] Let_def ctx_def [symmetric] len)
        (simp add: owned_state_def release_def)
    moreover have "heap_ok (F + vals_mem xs')" using l(3) heap_ok_mono by fastforce
    ultimately show ?thesis using l(2)
      by (intro exI [of _ xs'] exI [of _ "owned_state F (xs', snd s')"]) (simp add: owned_state_def r pass_finished_def)
  qed
qed


section \<open>Sensors\<close>

lemma sensor_pass_memory:
  assumes "sensor_ok E s" and "layout_ok (pr_layout P)" and "prints_short E"
    and "\<forall>i. turn_ok E (turns i)" and "pm_ctx PM" and "allocator_ok A"
    and mons: "sen_monitors s = Some mons" and last: "sen_last_vals s = Some (filled (stored_list xs))"
    and ok: "heap_ok (F + vals_mem xs)"
  shows "\<exists>r st xs'. process_rb_sensor P S PM turns W s [] out
             = Inr (s\<lparr>sen_last_vals := Some (filled (stored_list xs'))\<rparr>, r)
           \<and> owned_monitors_array A P S PM turns W mons (filled xs) (sen_op_vars s) (sen_snmp s) [] out
               (F + vals_mem xs) = Inr (pr_aok r, st)
           \<and> op_last st = filled xs' \<and> op_queue st = [] \<and> op_out st = pr_out r
           \<and> op_heap st = F + vals_mem xs' \<and> heap_ok (op_heap st)"
proof -
  obtain s' r where pass: "process_rb_sensor P S PM turns W s [] out = Inr (s', r)"
    using process_rb_sensor_ok [OF assms(1-5)] by blast
  obtain ms deps vals where ms: "rb_array_wf mons" "rb_array_contents mons = map Some ms"
    and d: "sen_op_vars s = Some (stored_deps deps)" "deps_fit E ms deps"
    and v: "filled vals = filled (stored_list xs)" "vals_ok ms deps vals"
    using assms(1) mons last by (auto simp: sensor_ok_def)
  have len: "length xs = length ms"
    using v filled_simps(4) by (metis length_map vals_ok_def)
  from pass mons last d have
    run: "process_monitors_array P S PM turns W mons (filled (stored_list xs)) (Some (stored_deps deps)) (sen_snmp s) [] out
       = Inr r" and s': "s' = s\<lparr>sen_last_vals := Some (pr_last r)\<rparr>"
    by (auto simp: process_rb_sensor_def obind_Inr_iff)
  show ?thesis
    using owned_monitors_array_refines [OF assms(6) ms deps_fit_in_range [OF d(2)] len ok run] pass s' d(1)
    by auto
qed

text \<open>A sensor that made a pass and is released leaves the memory it did not own, and nothing else.\<close>

lemma resources_with_values:
  "os_last_vals x = Some (b, xs) \<Longrightarrow> mset (sensor_resources (x\<lparr>os_last_vals := Some (b, ys)\<rparr>))
     = mset (sensor_resources (x\<lparr>os_last_vals := None\<rparr>)) + {#b#} + vals_mem ys"
  by (simp add: sensor_resources_def array_resources_def vals_mem_def)

lemma sensor_life_memory:
  assumes "sensor_ok E s" and "layout_ok (pr_layout P)" and "prints_short E"
    and "\<forall>i. turn_ok E (turns i)" and "pm_ctx PM" and "allocator_ok A"
    and "sen_monitors s = Some mons" and "sen_last_vals s = Some (filled (stored_list xs))"
    and wf: "owned_sensor_wf x" and x: "os_last_vals x = Some (b, xs)"
    and ok: "heap_ok (F + mset (sensor_resources x))"
  shows "\<exists>aok st xs'. owned_monitors_array A P S PM turns W mons (filled xs) (sen_op_vars s) (sen_snmp s) [] out
               (F + mset (sensor_resources x)) = Inr (aok, st)
           \<and> op_last st = filled xs'
           \<and> sensor_done (x\<lparr>os_last_vals := Some (b, xs')\<rparr>) (op_heap st) = Inr F"
proof -
  define G where "G = F + mset (sensor_resources (x\<lparr>os_last_vals := None\<rparr>)) + {#b#}"
  have "x\<lparr>os_last_vals := Some (b, xs)\<rparr> = x" using x by simp
  then have H: "F + mset (sensor_resources x) = G + vals_mem xs"
    using resources_with_values [OF x, of xs] by (simp add: G_def)
  have H': "G + vals_mem ys = F + mset (sensor_resources (x\<lparr>os_last_vals := Some (b, ys)\<rparr>))" for ys
    using resources_with_values [OF x, of ys] by (simp add: G_def)
  have "owned_sensor_wf (x\<lparr>os_last_vals := Some (b, ys)\<rparr>)" for ys
    using wf by (auto simp: owned_sensor_wf_def split: option.splits)
  then have "sensor_done (x\<lparr>os_last_vals := Some (b, ys)\<rparr>) (G + vals_mem ys) = Inr F" for ys
    unfolding H' by (simp only: sensor_done_eq release_all_frame)
  then show ?thesis
    using sensor_pass_memory [OF assms(1-8) ok [unfolded H], of S W out] unfolding H by fastforce
qed

end
