(* ===== verification/Pass_Resources.thy ===== *)
theory Pass_Resources
  imports Pass_Memory
begin

text \<open>
  What else a pass allocates besides its values: the arrays and the buffers of the messages, which
  print_monitor_value makes and the sending function of main frees; the evaluator and the variables of
  an operation; the session of SNMP. Messages and operations give everything back, on every path and
  under every failure of allocation; a session leaves the duplicate of the community behind.
\<close>

section \<open>The memory of messages\<close>

text \<open>An array of messages at its address, and the addresses of the payloads.\<close>

record owned_messages =
  om_block :: resource
  om_array :: rb_message_array
  om_payloads :: "resource option list"

abbreviation new_block :: "allocator \<Rightarrow> heap \<Rightarrow> resource" where
  "new_block A H \<equiv> Block (al_block A H)"

definition owned_messages_array ::
    "allocator \<Rightarrow> msg_layout \<Rightarrow> bool \<Rightarrow> nat \<Rightarrow> heap \<Rightarrow> (owned_messages option \<times> heap) outcome" where
  "owned_messages_array A L mem s H =
     obind (new_messages_array L mem s) (\<lambda>a.
       case a of
         None \<Rightarrow> Inr (None, H)
       | Some ret \<Rightarrow> Inr (Some \<lparr>om_block = new_block A H, om_array = ret, om_payloads = replicate s None\<rparr>,
                         add_mset (new_block A H) H))"

text \<open>
  The buffer is a \<open>struct printbuf\<close> with its bytes; the message keeps the bytes, the structure is
  freed.
\<close>

definition owned_print_value0 ::
    "allocator \<Rightarrow> msg_layout \<Rightarrow> 'j json_c \<Rightarrow> mem \<Rightarrow> nat \<Rightarrow> monitor_value \<Rightarrow> 'j rb_monitor \<Rightarrow> int
      \<Rightarrow> owned_messages \<times> heap \<Rightarrow> (owned_messages \<times> heap) outcome" where
  "owned_print_value0 A L J mem i mv monitor instance' s =
     (let (om, H) = s
      in if \<not> mem (At_printbuf i) then Inr (om, H)
         else
           let buf = new_block A H;
               bytes = new_block A (add_mset buf H)
           in obind (print_monitor_value0 L J mem (om_array om) i mv monitor instance') (\<lambda>ret.
              obind (release buf (add_mset bytes (add_mset buf H))) (\<lambda>H'.
                Inr (om\<lparr>om_array := ret, om_payloads := (om_payloads om)[i := Some bytes]\<rparr>, H'))))"

fun owned_print_children ::
    "allocator \<Rightarrow> msg_layout \<Rightarrow> 'j json_c \<Rightarrow> mem \<Rightarrow> 'j rb_monitor \<Rightarrow> monitor_value option list \<Rightarrow> nat \<Rightarrow> nat
      \<Rightarrow> owned_messages \<times> heap \<Rightarrow> ((owned_messages \<times> heap) \<times> nat) outcome" where
  "owned_print_children A L J mem monitor [] i i_msgs s = Inr (s, i_msgs)"
| "owned_print_children A L J mem monitor (None # cs) i i_msgs s =
     owned_print_children A L J mem monitor cs (Suc i) i_msgs s"
| "owned_print_children A L J mem monitor (Some c # cs) i i_msgs s =
     obind (owned_print_value0 A L J mem i_msgs c monitor (int_of_size i) s) (\<lambda>s'.
       owned_print_children A L J mem monitor cs (Suc i) (Suc i_msgs) s')"

definition set_count :: "nat \<Rightarrow> owned_messages \<Rightarrow> owned_messages" where
  "set_count n om = om\<lparr>om_array := (om_array om)\<lparr>msg_count := n\<rparr>\<rparr>"

definition owned_print_monitor_value ::
    "allocator \<Rightarrow> msg_layout \<Rightarrow> 'j json_c \<Rightarrow> mem \<Rightarrow> monitor_value \<Rightarrow> 'j rb_monitor \<Rightarrow> heap
      \<Rightarrow> (owned_messages option \<times> heap) outcome" where
  "owned_print_monitor_value A L J mem mv monitor H =
     (let ret_size = (case mv of
                        MV_value _ \<Rightarrow> 1
                      | MV_array cs sp \<Rightarrow> length cs + (if sp \<noteq> None then 1 else 0))
      in obind (owned_messages_array A L (mem At_messages) ret_size H) (\<lambda>(a, H1).
         (case a of
            None \<Rightarrow> Inr (None, H1)
          | Some ret \<Rightarrow>
              (case mv of
                 MV_value _ \<Rightarrow>
                   obind (owned_print_value0 A L J mem 0 mv monitor NO_INSTANCE (ret, H1)) (\<lambda>(r, H2). Inr (Some r, H2))
               | MV_array cs sp \<Rightarrow>
                   obind (owned_print_children A L J mem monitor cs 0 0 (ret, H1)) (\<lambda>((ret1, H2), i_msgs).
                   (case sp of
                      None \<Rightarrow> Inr (Some (set_count i_msgs ret1), H2)
                    | Some v \<Rightarrow>
                        obind (owned_print_value0 A L J mem i_msgs v monitor NO_INSTANCE (ret1, H2)) (\<lambda>(ret2, H3).
                          Inr (Some (set_count (Suc i_msgs) ret2), H3))))))))"

text \<open>The loop of \<open>worker_process_sensor_send_array\<close>: a message is read, handed over and freed.\<close>

fun owned_send_messages ::
    "worker_info \<Rightarrow> (rb_message \<times> resource option) list \<Rightarrow> produced list \<times> heap \<Rightarrow> (produced list \<times> heap) outcome" where
  "owned_send_messages W [] s = Inr s"
| "owned_send_messages W ((msg, p) # rest) s =
     (let (outs, H) = s
      in obind (release_opt p H) (\<lambda>H'. owned_send_messages W rest (outs @ to_outputs W msg, H')))"

definition owned_send_array ::
    "worker_info \<Rightarrow> owned_messages \<Rightarrow> produced list \<times> heap \<Rightarrow> (produced list \<times> heap) outcome" where
  "owned_send_array W om s =
     obind (owned_send_messages W (take (msg_count (om_array om)) (zip (msgs (om_array om)) (om_payloads om))) s)
       (\<lambda>(outs, H). obind (release (om_block om) H) (\<lambda>H'. Inr (outs, H')))"

section \<open>Messages are given back\<close>

text \<open>What an array owns: its block and the payloads it has.\<close>

definition messages_mem :: "owned_messages \<Rightarrow> heap" where
  "messages_mem om = add_mset (om_block om) (mset (List.map_filter id (om_payloads om)))"

text \<open>While it is printed: the first \<open>k\<close> messages may have a payload.\<close>

definition printed :: "nat \<Rightarrow> nat \<Rightarrow> heap \<Rightarrow> owned_messages \<times> heap \<Rightarrow> bool" where
  "printed n k F s \<longleftrightarrow>
     length (om_payloads (fst s)) = n \<and> length (msgs (om_array (fst s))) = n \<and>
     (\<forall>i. k \<le> i \<longrightarrow> i < n \<longrightarrow> om_payloads (fst s) ! i = None) \<and>
     heap_ok (snd s) \<and> snd s = F + messages_mem (fst s)"

lemma length_set_message: "set_message L a i m = Inr b \<Longrightarrow> length (msgs b) = length (msgs a) \<and> msg_count b = msg_count a"
  by (auto simp: set_message_def Let_def split: if_splits)

lemma length_print_value0:
  "print_monitor_value0 L J mem a i mv monitor n = Inr b \<Longrightarrow> length (msgs b) = length (msgs a)"
  by (auto simp: print_monitor_value0_def Let_def obind_Inr_iff dest: length_set_message split: if_splits)

lemma map_filter_new:
  "i < length ps \<Longrightarrow> ps ! i = None \<Longrightarrow>
     mset (List.map_filter id (ps[i := Some b])) = add_mset b (mset (List.map_filter id ps))"
proof (induction ps arbitrary: i)
  case (Cons p ps)
  then show ?case by (cases i) (auto split: option.splits)
qed simp

lemma owned_print_value0_refines:
  assumes A: "allocator_ok A" and s: "printed n k F s" and k: "k < n"
    and run: "print_monitor_value0 L J mem (om_array (fst s)) k mv monitor inst = Inr b"
  shows "\<exists>s'. owned_print_value0 A L J mem k mv monitor inst s = Inr s' \<and> om_array (fst s') = b \<and> printed n (Suc k) F s'"
proof -
  obtain om H where sp: "s = (om, H)" by fastforce
  show ?thesis
  proof (cases "mem (At_printbuf k)")
    case False
    then have "b = om_array om" using run by (simp add: sp print_monitor_value0_def)
    with False s show ?thesis by (auto simp: sp owned_print_value0_def printed_def)
  next
    case True
    define buf where "buf = new_block A H"
    define bytes where "bytes = new_block A (add_mset buf H)"
    define om' where "om' = om\<lparr>om_array := b, om_payloads := (om_payloads om)[k := Some bytes]\<rparr>"
    have "heap_ok H" using s by (auto simp: printed_def sp)
    then have "heap_ok (add_mset bytes (add_mset buf H))" unfolding bytes_def buf_def by (intro heap_ok_block [OF A])
    then have ok: "heap_ok (add_mset bytes H)"
      by (rule heap_ok_mono) (simp add: subset_eq_diff_conv)
    have "release buf (add_mset bytes (add_mset buf H)) = Inr (add_mset bytes H)"
      by (simp add: release_def add_mset_commute)
    then have "owned_print_value0 A L J mem k mv monitor inst s = Inr (om', add_mset bytes H)"
      using True run by (simp add: owned_print_value0_def sp om'_def buf_def bytes_def Let_def)
    moreover have "printed n (Suc k) F (om', add_mset bytes H)"
      using s k ok length_print_value0 [OF run] map_filter_new [of k "om_payloads om" bytes]
      by (simp add: printed_def sp om'_def messages_mem_def)
    ultimately show ?thesis by (auto simp: om'_def)
  qed
qed

lemma owned_print_children_refines:
  assumes A: "allocator_ok A"
  shows "printed n k F s \<Longrightarrow> k + length cs \<le> n \<Longrightarrow>
     print_children L J mem monitor cs i k (om_array (fst s)) = Inr (b, m) \<Longrightarrow>
     \<exists>s'. owned_print_children A L J mem monitor cs i k s = Inr (s', m) \<and> om_array (fst s') = b \<and> printed n m F s'
       \<and> m \<le> k + length cs"
proof (induction cs arbitrary: i k s)
  case Nil
  then show ?case by auto
next
  case (Cons c cs)
  show ?case
  proof (cases c)
    case None
    with Cons.IH [of k s "Suc i"] Cons.prems show ?thesis by fastforce
  next
    case (Some v)
    obtain a where a: "print_monitor_value0 L J mem (om_array (fst s)) k v monitor (int_of_size i) = Inr a"
      "print_children L J mem monitor cs (Suc i) (Suc k) a = Inr (b, m)"
      using Cons.prems(3) Some by (auto simp: obind_Inr_iff)
    obtain s1 where s1: "owned_print_value0 A L J mem k v monitor (int_of_size i) s = Inr s1"
      "om_array (fst s1) = a" "printed n (Suc k) F s1"
      using owned_print_value0_refines [OF A Cons.prems(1) _ a(1)] Cons.prems(2) by auto
    from Cons.IH [OF s1(3), of "Suc i"] Cons.prems(2) a(2) s1(1,2) Some show ?thesis by auto
  qed
qed

lemma printed_start:
  assumes "allocator_ok A" and "heap_ok H" and "new_messages_array L m n = Inr (Some a)"
  shows "owned_messages_array A L m n H =
     Inr (Some \<lparr>om_block = new_block A H, om_array = a, om_payloads = replicate n None\<rparr>, add_mset (new_block A H) H)"
    and "printed n 0 H (\<lparr>om_block = new_block A H, om_array = a, om_payloads = replicate n None\<rparr>, add_mset (new_block A H) H)"
proof -
  have "List.map_filter id (replicate n None) = ([] :: resource list)" by (induction n) simp_all
  moreover have "length (msgs a) = n" using assms(3) by (auto simp: new_messages_array_def Let_def split: if_splits)
  ultimately show "printed n 0 H (\<lparr>om_block = new_block A H, om_array = a, om_payloads = replicate n None\<rparr>,
      add_mset (new_block A H) H)"
    using heap_ok_block [OF assms(1,2)] by (simp add: printed_def messages_mem_def)
qed (simp add: owned_messages_array_def assms(3))

text \<open>The count at the end is at least what was printed, so no payload is out of reach.\<close>

definition released_by_sending :: "owned_messages \<Rightarrow> bool" where
  "released_by_sending om \<longleftrightarrow>
     length (om_payloads om) = length (msgs (om_array om)) \<and>
     (\<forall>i. msg_count (om_array om) \<le> i \<longrightarrow> i < length (om_payloads om) \<longrightarrow> om_payloads om ! i = None)"

lemma print_monitor_value_memory:
  assumes A: "allocator_ok A" and H: "heap_ok H" and run: "print_monitor_value L J mem mv monitor = Inr (Some a)"
  shows "\<exists>om. owned_print_monitor_value A L J mem mv monitor H = Inr (Some om, H + messages_mem om)
     \<and> om_array om = a \<and> released_by_sending om \<and> heap_ok (H + messages_mem om)"
proof (cases mv)
  case (MV_value v)
  obtain a0 where a0: "new_messages_array L (mem At_messages) 1 = Inr (Some a0)"
    "print_monitor_value0 L J mem a0 0 mv monitor NO_INSTANCE = Inr a"
    using run MV_value by (auto simp: print_monitor_value_def obind_Inr_iff split: option.splits)
  note start = printed_start [OF A H a0(1)]
  from owned_print_value0_refines [OF A start(2), of L J mem mv monitor NO_INSTANCE a] a0(2) obtain om H'
    where p: "owned_print_value0 A L J mem 0 mv monitor NO_INSTANCE
        (\<lparr>om_block = new_block A H, om_array = a0, om_payloads = replicate 1 None\<rparr>, add_mset (new_block A H) H)
        = Inr (om, H')" "om_array om = a" "printed 1 1 H (om, H')" by force
  have "msg_count a0 = 1" using a0(1) by (auto simp: new_messages_array_def Let_def split: if_splits)
  then have "msg_count a = 1"
    using a0(2) by (auto simp: print_monitor_value0_def Let_def obind_Inr_iff dest: length_set_message split: if_splits)
  with p start(1) show ?thesis
    by (auto simp: owned_print_monitor_value_def MV_value released_by_sending_def printed_def)
next
  case (MV_array cs sp)
  define n where "n = length cs + (if sp \<noteq> None then 1 else 0)"
  have steps: "\<exists>om H'. owned_messages_array A L (mem At_messages) n H = Inr (Some om0, H0)
       \<and> owned_print_children A L J mem monitor cs 0 0 (om0, H0) = Inr ((om, H'), m)
       \<and> om_array om = a1 \<and> printed n m H (om, H') \<and> m \<le> length cs"
    if "new_messages_array L (mem At_messages) n = Inr (Some a0)"
      and "print_children L J mem monitor cs 0 0 a0 = Inr (a1, m)"
      and "om0 = \<lparr>om_block = new_block A H, om_array = a0, om_payloads = replicate n None\<rparr>"
      and "H0 = add_mset (new_block A H) H" for a0 a1 m om0 H0
    using printed_start [OF A H that(1)] that(2-)
      owned_print_children_refines [OF A printed_start(2) [OF A H that(1)], of cs L J mem monitor 0 a1 m]
    by (force simp: n_def)
  show ?thesis
  proof (cases sp)
    case None
    obtain a0 a1 m where a0: "new_messages_array L (mem At_messages) n = Inr (Some a0)"
      "print_children L J mem monitor cs 0 0 a0 = Inr (a1, m)" and a: "a = a1\<lparr>msg_count := m\<rparr>"
      using run MV_array None by (auto simp: print_monitor_value_def obind_Inr_iff n_def split: option.splits)
    from steps [OF a0 refl refl] a None show ?thesis
      by (auto simp: owned_print_monitor_value_def MV_array n_def released_by_sending_def printed_def
          messages_mem_def set_count_def)
  next
    case (Some v)
    obtain a0 a1 m a2 where a0: "new_messages_array L (mem At_messages) n = Inr (Some a0)"
      "print_children L J mem monitor cs 0 0 a0 = Inr (a1, m)"
      and a2: "print_monitor_value0 L J mem a1 m v monitor NO_INSTANCE = Inr a2" "a = a2\<lparr>msg_count := Suc m\<rparr>"
      using run MV_array Some by (auto simp: print_monitor_value_def obind_Inr_iff n_def split: option.splits)
    from steps [OF a0 refl refl] obtain om H' where p: "owned_messages_array A L (mem At_messages) n H
          = Inr (Some \<lparr>om_block = new_block A H, om_array = a0, om_payloads = replicate n None\<rparr>, add_mset (new_block A H) H)"
        "owned_print_children A L J mem monitor cs 0 0
           (\<lparr>om_block = new_block A H, om_array = a0, om_payloads = replicate n None\<rparr>, add_mset (new_block A H) H)
         = Inr ((om, H'), m)" "om_array om = a1" "printed n m H (om, H')" "m \<le> length cs" by blast
    have "m < n" using p(5) by (simp add: n_def Some)
    from owned_print_value0_refines [OF A p(4) this, of L J mem v monitor NO_INSTANCE a2] a2(1) p(3) obtain om2 H2
      where "owned_print_value0 A L J mem m v monitor NO_INSTANCE (om, H') = Inr (om2, H2)"
        "om_array om2 = a2" "printed n (Suc m) H (om2, H2)" by force
    with p(1,2) a2(2) Some show ?thesis
      by (auto simp: owned_print_monitor_value_def MV_array n_def released_by_sending_def printed_def
          messages_mem_def set_count_def)
  qed
qed

lemma print_monitor_value_no_memory:
  assumes "print_monitor_value L J mem mv monitor = Inr None"
  shows "owned_print_monitor_value A L J mem mv monitor H = Inr (None, H)"
proof -
  define n where "n = (case mv of MV_value _ \<Rightarrow> 1 | MV_array cs sp \<Rightarrow> length cs + (if sp \<noteq> None then 1 else 0))"
  have "new_messages_array L (mem At_messages) n = Inr None"
    using assms by (auto simp: print_monitor_value_def Let_def n_def obind_Inr_iff
        split: option.splits monitor_value.splits)
  then show ?thesis
    by (simp add: owned_print_monitor_value_def Let_def n_def [symmetric] owned_messages_array_def)
qed

lemma owned_send_messages_eq:
  "owned_send_messages W l (outs, F + mset (List.map_filter id (map snd l)))
     = Inr (outs @ concat (map (to_outputs W) (map fst l)), F)"
proof (induction l arbitrary: outs)
  case (Cons m l)
  obtain msg p where m: "m = (msg, p)" by fastforce
  show ?case using Cons [of "outs @ to_outputs W msg"] by (cases p) (simp_all add: m release_opt_def release_def)
qed simp

lemma map_filter_none: "\<forall>p \<in> set ps. p = None \<Longrightarrow> List.map_filter id ps = []"
  by (induction ps) simp_all

lemma map_filter_append: "List.map_filter f (xs @ ys) = List.map_filter f xs @ List.map_filter f ys"
  by (simp add: List.map_filter_def)

lemma owned_send_array_releases:
  assumes "released_by_sending om"
  shows "owned_send_array W om (outs, F + messages_mem om)
     = Inr (worker_process_sensor_send_array W outs (om_array om), F)"
proof -
  define l where "l = take (msg_count (om_array om)) (zip (msgs (om_array om)) (om_payloads om))"
  let ?n = "msg_count (om_array om)"
  have len: "length (om_payloads om) = length (msgs (om_array om))" using assms by (simp add: released_by_sending_def)
  have "\<forall>p \<in> set (drop ?n (om_payloads om)). p = None"
    using assms by (auto simp: released_by_sending_def in_set_conv_nth)
  then have "List.map_filter id (om_payloads om) = List.map_filter id (take ?n (om_payloads om))"
    using map_filter_append [of id "take ?n (om_payloads om)" "drop ?n (om_payloads om)"] map_filter_none by simp
  moreover have l: "map snd l = take ?n (om_payloads om)" "map fst l = messages_of (om_array om)"
    by (simp_all add: l_def take_zip len messages_of_def)
  ultimately have mem: "F + messages_mem om = (add_mset (om_block om) F) + mset (List.map_filter id (map snd l))"
    by (simp add: messages_mem_def)
  have "owned_send_messages W l (outs, F + messages_mem om)
      = Inr (outs @ concat (map (to_outputs W) (messages_of (om_array om))), add_mset (om_block om) F)"
    unfolding mem l(2) [symmetric] by (rule owned_send_messages_eq)
  then show ?thesis
    by (simp add: owned_send_array_def l_def [symmetric] send_array_eq release_def)
qed

lemma messages_are_given_back:
  assumes "allocator_ok A" and "heap_ok H" and "print_monitor_value L J mem mv monitor = Inr (Some a)"
  shows "\<exists>om H'. owned_print_monitor_value A L J mem mv monitor H = Inr (Some om, H') \<and> om_array om = a \<and> heap_ok H'
     \<and> (\<forall>W outs. owned_send_array W om (outs, H') = Inr (worker_process_sensor_send_array W outs a, H))"
proof -
  obtain om where om: "owned_print_monitor_value A L J mem mv monitor H = Inr (Some om, H + messages_mem om)"
    "om_array om = a" "released_by_sending om" "heap_ok (H + messages_mem om)"
    using print_monitor_value_memory [OF assms] by blast
  with owned_send_array_releases [OF om(3)] show ?thesis by auto
qed

section \<open>The temporaries of an operation\<close>

definition owned_op_vars ::
    "allocator \<Rightarrow> bool \<Rightarrow> values_array \<Rightarrow> string list \<Rightarrow> heap \<Rightarrow> ((libmatheval_vars \<times> resource) option \<times> heap) outcome" where
  "owned_op_vars A mem op_vars names H =
     (case new_libmatheval_vars mem (arr_count op_vars) of
        None \<Rightarrow> Inr (None, H)
      | Some lm \<Rightarrow>
          let b = new_block A H
          in obind (op_vars_loop (rb_array_contents op_vars) names 0 0 lm) (\<lambda>r.
             case r of
               None \<Rightarrow> obind (release b (add_mset b H)) (\<lambda>H'. Inr (None, H'))
             | Some lm' \<Rightarrow> Inr (Some (lm', b), add_mset b H)))"

definition owned_op_result ::
    "allocator \<Rightarrow> 'f matheval \<Rightarrow> mem \<Rightarrow> 'j rb_monitor \<Rightarrow> values_array option \<Rightarrow> time_t \<Rightarrow> heap
      \<Rightarrow> (monitor_value option \<times> heap) outcome" where
  "owned_op_result A E mem monitor op_vars now H =
     (case op_vars of
        None \<Rightarrow> Inr (None, H)
      | Some a \<Rightarrow>
          if arr_count a = 0 then Inr (None, H)
          else
            case (if mem At_evaluator then ev_create E (mon_cmd_arg monitor) else None) of
              None \<Rightarrow> Inr (None, H)
            | Some f \<Rightarrow>
                let ev = new_block A H
                in obind (owned_op_vars A (mem At_matheval_vars) a (ev_variables E f) (add_mset ev H)) (\<lambda>(lm_opt, H1).
                   obind (case lm_opt of
                            None \<Rightarrow> Inr (None, H1)
                          | Some (lm, b) \<Rightarrow>
                              obind (elm_at a 0) (\<lambda>mv_0.
                              obind (case mv_0 of
                                       None \<Rightarrow> Inr None
                                     | Some (MV_array cs sp) \<Rightarrow>
                                         rb_monitor_op_vector E mem f a lm monitor (length cs) now
                                     | Some (MV_value s) \<Rightarrow> rb_monitor_op_value E mem f a lm now) (\<lambda>ret.
                              obind (release b H1) (\<lambda>H2. Inr (ret, H2))))) (\<lambda>(ret, H2).
                   obind (release ev H2) (\<lambda>H3. Inr (ret, H3)))))"

lemma owned_op_vars_eq:
  "owned_op_vars A mem a names H =
     obind (op_libmatheval_vars mem a names) (\<lambda>r. Inr (case r of
       None \<Rightarrow> (None, H) | Some lm \<Rightarrow> (Some (lm, new_block A H), add_mset (new_block A H) H)))"
  by (cases "new_libmatheval_vars mem (arr_count a)";
      simp add: owned_op_vars_def op_libmatheval_vars_def release_def obind_def Let_def split: sum.split option.split)

lemma owned_op_result_eq:
  "owned_op_result A E mem monitor op_vars now H =
     obind (rb_monitor_get_op_result E mem monitor op_vars now) (\<lambda>v. Inr (v, H))"
  by (simp add: owned_op_result_def rb_monitor_get_op_result_def owned_op_vars_eq release_def obind_def Let_def
      split: sum.split option.split monitor_value.split)

section \<open>The session of SNMP\<close>

text \<open>
  \<open>new_snmp_session\<close> and \<open>destroy_snmp_session\<close>, with the pointer to the community in the initial
  session that all passes share. An open session owns its structure, what the library opened, and the
  duplicate of the community in it, which the library frees with it. \<open>strdup\<close> is taken to succeed.
\<close>

record owned_session =
  se_struct :: resource
  se_handle :: resource
  se_community :: resource

definition owned_new_snmp_session ::
    "allocator \<Rightarrow> snmp_lib \<Rightarrow> bool \<Rightarrow> snmp_session \<Rightarrow> snmp_new_session_config \<Rightarrow> resource option \<Rightarrow> heap
      \<Rightarrow> (owned_session option \<times> resource option \<times> heap) outcome" where
  "owned_new_snmp_session A S mem initial_session config community H =
     (if \<not> mem then Inr (None, community, H)
      else
        let b = new_block A H; H1 = add_mset b H;
            dup = new_block A H1; H2 = add_mset dup H1
        in case snd (new_snmp_session S mem initial_session config) of
             None \<Rightarrow> obind (release b H2) (\<lambda>H3. Inr (None, Some dup, H3))
           | Some s \<Rightarrow>
               let h = new_block A H2; H3 = add_mset h H2;
                   own = new_block A H3; H4 = add_mset own H3
               in Inr (Some \<lparr>se_struct = b, se_handle = h, se_community = own\<rparr>, Some dup, H4))"

definition destroy_snmp_session :: "owned_session \<Rightarrow> heap \<Rightarrow> heap outcome" where
  "destroy_snmp_session s H =
     obind (release (se_community s) H) (\<lambda>H1. obind (release (se_handle s) H1) (release (se_struct s)))"

text \<open>The sessions of passes one after the other, each opened and closed.\<close>

fun owned_sessions ::
    "allocator \<Rightarrow> snmp_lib \<Rightarrow> snmp_session \<Rightarrow> snmp_new_session_config list \<Rightarrow> resource option \<Rightarrow> heap
      \<Rightarrow> (resource option \<times> heap) outcome" where
  "owned_sessions A S initial_session [] community H = Inr (community, H)"
| "owned_sessions A S initial_session (config # configs) community H =
     obind (owned_new_snmp_session A S True initial_session config community H) (\<lambda>(s, community', H1).
     obind (case s of None \<Rightarrow> Inr H1 | Some x \<Rightarrow> destroy_snmp_session x H1) (\<lambda>H2.
       owned_sessions A S (fst (new_snmp_session S True initial_session config)) configs community' H2))"

lemma session_leaks:
  assumes "allocator_ok A" and "heap_ok H"
  shows "\<exists>s dup H1. owned_new_snmp_session A S True initial_session config community H = Inr (s, Some dup, H1)
     \<and> (case s of None \<Rightarrow> Inr H1 | Some x \<Rightarrow> destroy_snmp_session x H1) = Inr (add_mset dup H)
     \<and> heap_ok (add_mset dup H)"
proof -
  define b where "b = new_block A H"
  define dup where "dup = new_block A (add_mset b H)"
  have "heap_ok (add_mset dup (add_mset b H))"
    unfolding dup_def b_def by (intro heap_ok_block [OF assms(1)] assms(2))
  then have "heap_ok (add_mset dup H)" by (rule heap_ok_mono) (simp add: subset_eq_diff_conv)
  then show ?thesis
    by (cases "snd (new_snmp_session S True initial_session config)")
      (simp_all add: owned_new_snmp_session_def Let_def b_def [symmetric] dup_def [symmetric] release_def
        destroy_snmp_session_def add_mset_commute)
qed

text \<open>Every pass leaves one block more.\<close>

lemma sessions_leak:
  assumes "allocator_ok A" and "heap_ok H"
  shows "\<exists>community' G. owned_sessions A S initial_session configs community H = Inr (community', H + G)
     \<and> size G = length configs \<and> heap_ok (H + G)"
  using assms(2)
proof (induction configs arbitrary: initial_session community H)
  case (Cons config configs)
  obtain s dup H1 where s: "owned_new_snmp_session A S True initial_session config community H = Inr (s, Some dup, H1)"
    "(case s of None \<Rightarrow> Inr H1 | Some x \<Rightarrow> destroy_snmp_session x H1) = Inr (add_mset dup H)"
    "heap_ok (add_mset dup H)"
    using session_leaks [OF assms(1) Cons.prems, of S initial_session config community] by blast
  from Cons.IH [OF s(3), of "fst (new_snmp_session S True initial_session config)" "Some dup"] obtain c G where
    "owned_sessions A S (fst (new_snmp_session S True initial_session config)) configs (Some dup) (add_mset dup H)
       = Inr (c, add_mset dup H + G)" "size G = length configs" "heap_ok (add_mset dup H + G)" by blast
  with s(1,2) show ?case by (intro exI [of _ c] exI [of _ "add_mset dup G"]) simp
qed (auto intro: exI [of _ "{#}"])

end
