(* ===== verification/Workers.thy ===== *)
theory Workers
  imports Prelude
begin

text \<open>
  The threads of src/main.c around the sensors: the main loop that queues every sensor over and
  over, the queue of src/rb_sensor_queue.h, and the workers that pop a sensor, try its lock,
  process it and put it back, with the reference counter of src/rb_sensor.c. The model is a step
  relation; a step reads or writes a sensor only where the code does, and a flag records whether a
  freed sensor was ever touched.
\<close>

section \<open>The state\<close>

record cell =
  refcnt :: "32 word"
  locked :: bool
  freed :: bool

text \<open>
  Where a worker is: waiting for a sensor; holding one it popped; processing it with the lock held;
  with the lock released; turned away by \<open>rb_sensor_trylock\<close>; or returned, having perhaps left with
  a sensor it popped after \<open>run\<close> was cleared.
\<close>

datatype worker_pc =
    Waiting | Popped nat | Processing nat | Unlocked nat | Skipped nat | Left "nat option"

text \<open>The main thread: before \<open>rb_sensor_get\<close> of sensor \<open>i\<close>, before queueing it, or out of its loop.\<close>

datatype main_pc = Main_next nat | Main_got nat | Main_left

record sys =
  cells :: "cell list"
  queue :: "nat list"
  workers :: "worker_pc list"
  main_at :: main_pc
  running :: bool
  touched_freed :: bool

section \<open>The operations on a sensor\<close>

definition touch :: "nat \<Rightarrow> sys \<Rightarrow> sys" where
  "touch s st = (if freed (cells st ! s) then st\<lparr>touched_freed := True\<rparr> else st)"

definition set_cell :: "nat \<Rightarrow> (cell \<Rightarrow> cell) \<Rightarrow> sys \<Rightarrow> sys" where
  "set_cell s f st = st\<lparr>cells := (cells st)[s := f (cells st ! s)]\<rparr>"

definition rb_sensor_get :: "nat \<Rightarrow> sys \<Rightarrow> sys" where
  "rb_sensor_get s st = set_cell s (\<lambda>c. c\<lparr>refcnt := refcnt c + 1\<rparr>) (touch s st)"

definition rb_sensor_put :: "nat \<Rightarrow> sys \<Rightarrow> sys" where
  "rb_sensor_put s st =
     set_cell s (\<lambda>c. if refcnt c - 1 = 0 then c\<lparr>refcnt := 0, freed := True\<rparr>
                     else c\<lparr>refcnt := refcnt c - 1\<rparr>) (touch s st)"

definition rb_sensor_trylock :: "nat \<Rightarrow> sys \<Rightarrow> sys \<times> bool" where
  "rb_sensor_trylock s st =
     (if locked (cells st ! s) then (touch s st, False)
      else (set_cell s (\<lambda>c. c\<lparr>locked := True\<rparr>) (touch s st), True))"

definition rb_sensor_unlock :: "nat \<Rightarrow> sys \<Rightarrow> sys" where
  "rb_sensor_unlock s st = set_cell s (\<lambda>c. c\<lparr>locked := False\<rparr>) (touch s st)"

definition at_worker :: "nat \<Rightarrow> worker_pc \<Rightarrow> sys \<Rightarrow> sys" where
  "at_worker w pc st = st\<lparr>workers := (workers st)[w := pc]\<rparr>"

section \<open>Steps\<close>

text \<open>
  \<open>cap\<close> bounds the queue: the elements memory can hold. A signal clears \<open>run\<close> at any time; every
  loop reads it where the code does.
\<close>

inductive sys_step :: "nat \<Rightarrow> sys \<Rightarrow> sys \<Rightarrow> bool" for cap where
  main_get:
    "main_at st = Main_next i \<Longrightarrow> i < length (cells st) \<Longrightarrow> running st \<Longrightarrow>
       sys_step cap st ((rb_sensor_get i st)\<lparr>main_at := Main_got i\<rparr>)"
| main_queue:
    "main_at st = Main_got i \<Longrightarrow> length (queue st) < cap \<Longrightarrow>
       sys_step cap st (st\<lparr>queue := queue st @ [i], main_at := Main_next (Suc i)\<rparr>)"
| main_again:
    "main_at st = Main_next i \<Longrightarrow> length (cells st) \<le> i \<Longrightarrow> running st \<Longrightarrow>
       sys_step cap st (st\<lparr>main_at := Main_next 0\<rparr>)"
| main_leave:
    "main_at st = Main_next i \<Longrightarrow> \<not> running st \<Longrightarrow> sys_step cap st (st\<lparr>main_at := Main_left\<rparr>)"
| pop:
    "w < length (workers st) \<Longrightarrow> workers st ! w = Waiting \<Longrightarrow> queue st = s # q \<Longrightarrow> running st \<Longrightarrow>
       sys_step cap st (at_worker w (Popped s) (st\<lparr>queue := q\<rparr>))"
| pop_leave:
    "w < length (workers st) \<Longrightarrow> workers st ! w = Waiting \<Longrightarrow> queue st = s # q \<Longrightarrow> \<not> running st \<Longrightarrow>
       sys_step cap st (at_worker w (Left (Some s)) (st\<lparr>queue := q\<rparr>))"
| leave:
    "w < length (workers st) \<Longrightarrow> workers st ! w = Waiting \<Longrightarrow> \<not> running st \<Longrightarrow>
       sys_step cap st (at_worker w (Left None) st)"
| trylock:
    "w < length (workers st) \<Longrightarrow> workers st ! w = Popped s \<Longrightarrow> rb_sensor_trylock s st = (st', got) \<Longrightarrow>
       sys_step cap st (at_worker w (if got then Processing s else Skipped s) st')"
| unlock:
    "w < length (workers st) \<Longrightarrow> workers st ! w = Processing s \<Longrightarrow>
       sys_step cap st (at_worker w (Unlocked s) (rb_sensor_unlock s st))"
| put:
    "w < length (workers st) \<Longrightarrow> workers st ! w = Unlocked s \<or> workers st ! w = Skipped s \<Longrightarrow>
       sys_step cap st (at_worker w Waiting (rb_sensor_put s st))"
| signal:
    "sys_step cap st (st\<lparr>running := False\<rparr>)"

inductive_cases sys_stepE: "sys_step cap st st'"

text \<open>Every sensor has the reference of the array; \<open>n\<close> workers wait.\<close>

definition initial_sys :: "nat \<Rightarrow> nat \<Rightarrow> sys" where
  "initial_sys sensors n =
     \<lparr>cells = replicate sensors \<lparr>refcnt = 1, locked = False, freed = False\<rparr>, queue = [],
      workers = replicate n Waiting, main_at = Main_next 0, running = True, touched_freed = False\<rparr>"

inductive reachable_sys :: "nat \<Rightarrow> nat \<Rightarrow> nat \<Rightarrow> sys \<Rightarrow> bool" for cap sensors n where
  init: "reachable_sys cap sensors n (initial_sys sensors n)"
| step: "reachable_sys cap sensors n st \<Longrightarrow> sys_step cap st st' \<Longrightarrow> reachable_sys cap sensors n st'"

section \<open>The invariant\<close>

fun holds_ref :: "nat \<Rightarrow> worker_pc \<Rightarrow> bool" where
  "holds_ref s (Popped t) \<longleftrightarrow> s = t"
| "holds_ref s (Processing t) \<longleftrightarrow> s = t"
| "holds_ref s (Unlocked t) \<longleftrightarrow> s = t"
| "holds_ref s (Skipped t) \<longleftrightarrow> s = t"
| "holds_ref s (Left t) \<longleftrightarrow> t = Some s"
| "holds_ref s Waiting \<longleftrightarrow> False"

fun holds_lock :: "nat \<Rightarrow> worker_pc \<Rightarrow> bool" where
  "holds_lock s (Processing t) \<longleftrightarrow> s = t"
| "holds_lock s pc \<longleftrightarrow> False"

text \<open>How many of a list satisfy a predicate, and how an update of one element changes it.\<close>

definition tally :: "('a \<Rightarrow> bool) \<Rightarrow> 'a list \<Rightarrow> nat" where
  "tally P xs = length (filter P xs)"

lemma tally_simps [simp]:
  "tally P [] = 0" "tally P (x # xs) = of_bool (P x) + tally P xs"
  "tally P (xs @ ys) = tally P xs + tally P ys"
  by (simp_all add: tally_def)

lemma tally_update:
  "i < length xs \<Longrightarrow> tally P (xs[i := x]) + of_bool (P (xs ! i)) = tally P xs + of_bool (P x)"
proof (induction xs arbitrary: i)
  case (Cons y xs)
  show ?case
  proof (cases i)
    case (Suc k)
    with Cons.IH [of k] Cons.prems show ?thesis by simp
  qed simp
qed simp

lemma tally_le: "tally P xs \<le> length xs"
  by (simp add: tally_def)

lemma tally_pos: "i < length xs \<Longrightarrow> P (xs ! i) \<Longrightarrow> 0 < tally P xs"
  by (auto simp: tally_def filter_empty_conv dest: nth_mem)

definition main_ref :: "nat \<Rightarrow> main_pc \<Rightarrow> nat" where
  "main_ref s m = of_bool (m = Main_got s)"

text \<open>The references to a sensor: the array's, the queue's, the workers' and the main thread's.\<close>

definition refs :: "sys \<Rightarrow> nat \<Rightarrow> nat" where
  "refs st s = 1 + tally (\<lambda>q. q = s) (queue st) + tally (holds_ref s) (workers st) + main_ref s (main_at st)"

definition sys_inv :: "nat \<Rightarrow> nat \<Rightarrow> nat \<Rightarrow> sys \<Rightarrow> bool" where
  "sys_inv cap sensors n st \<longleftrightarrow>
     length (cells st) = sensors \<and> length (workers st) = n \<and> length (queue st) \<le> cap
     \<and> (\<forall>s \<in> set (queue st). s < sensors)
     \<and> (\<forall>pc \<in> set (workers st). \<forall>s. holds_ref s pc \<longrightarrow> s < sensors)
     \<and> (\<forall>s. main_at st = Main_got s \<longrightarrow> s < sensors)
     \<and> (\<forall>s < sensors. refcnt (cells st ! s) = of_nat (refs st s) \<and> \<not> freed (cells st ! s)
           \<and> tally (holds_lock s) (workers st) = of_bool (locked (cells st ! s)))
     \<and> \<not> touched_freed st"

lemma sys_inv_initial: "sys_inv cap sensors n (initial_sys sensors n)"
proof -
  have "tally P (replicate n Waiting) = 0" if "\<not> P Waiting" for P
    using that by (simp add: tally_def)
  then show ?thesis by (auto simp: sys_inv_def initial_sys_def refs_def main_ref_def)
qed

section \<open>Preservation\<close>

lemma refs_bound: "sys_inv cap sensors n st \<Longrightarrow> refs st s \<le> cap + n + 2"
  using tally_le [of "\<lambda>q. q = s" "queue st"] tally_le [of "holds_ref s" "workers st"]
  by (auto simp: sys_inv_def refs_def main_ref_def)

lemma at_worker_fields [simp]:
  "cells (at_worker w pc st) = cells st" "queue (at_worker w pc st) = queue st"
  "main_at (at_worker w pc st) = main_at st" "touched_freed (at_worker w pc st) = touched_freed st"
  "workers (at_worker w pc st) = (workers st)[w := pc]" "running (at_worker w pc st) = running st"
  by (simp_all add: at_worker_def)

lemma set_cell_fields [simp]:
  "queue (set_cell s f st) = queue st" "workers (set_cell s f st) = workers st"
  "main_at (set_cell s f st) = main_at st" "touched_freed (set_cell s f st) = touched_freed st"
  "cells (set_cell s f st) = (cells st)[s := f (cells st ! s)]" "running (set_cell s f st) = running st"
  by (simp_all add: set_cell_def)

lemma touch_live: "\<not> freed (cells st ! s) \<Longrightarrow> touch s st = st"
  by (simp add: touch_def)

lemma sys_inv_live: "sys_inv cap sensors n st \<Longrightarrow> s < sensors \<Longrightarrow> \<not> freed (cells st ! s)"
  by (simp add: sys_inv_def)

lemma sys_inv_holder:
  "sys_inv cap sensors n st \<Longrightarrow> w < length (workers st) \<Longrightarrow> holds_ref s (workers st ! w) \<Longrightarrow> s < sensors"
  using nth_mem by (fastforce simp: sys_inv_def)

lemma set_update_workers: "pc \<in> set (xs[w := x]) \<Longrightarrow> pc = x \<or> pc \<in> set xs"
  using set_update_subset_insert by fastforce

text \<open>
  A worker's move: it needs the counters and locks of the new cells to match the new holders; the
  rest of the invariant is carried over.
\<close>

lemma sys_inv_move:
  assumes inv: "sys_inv cap sensors n st" and w: "w < length (workers st)"
    and cells: "length cs = sensors"
    and pc: "\<And>s. holds_ref s pc \<Longrightarrow> s < sensors" and q: "length q \<le> cap" "set q \<subseteq> set (queue st)"
    and same: "\<And>s. s < sensors \<Longrightarrow>
      refcnt (cs ! s) + of_bool (holds_ref s (workers st ! w)) + of_nat (tally (\<lambda>x. x = s) (queue st))
        = refcnt (cells st ! s) + of_bool (holds_ref s pc) + of_nat (tally (\<lambda>x. x = s) q)
      \<and> \<not> freed (cs ! s)
      \<and> of_bool (locked (cs ! s)) + of_bool (holds_lock s (workers st ! w))
        = of_bool (locked (cells st ! s)) + (of_bool (holds_lock s pc) :: nat)"
  shows "sys_inv cap sensors n (at_worker w pc (st\<lparr>cells := cs, queue := q\<rparr>))"
proof -
  let ?st' = "at_worker w pc (st\<lparr>cells := cs, queue := q\<rparr>)"
  have "refcnt (cs ! s) = of_nat (refs ?st' s) \<and> \<not> freed (cs ! s)
      \<and> tally (holds_lock s) (workers ?st') = of_bool (locked (cs ! s))" if s: "s < sensors" for s
  proof -
    have old: "refcnt (cells st ! s) = of_nat (refs st s)"
      "tally (holds_lock s) (workers st) = of_bool (locked (cells st ! s))"
      using inv s by (simp_all add: sys_inv_def)
    have t: "tally (holds_ref s) ((workers st)[w := pc]) + of_bool (holds_ref s (workers st ! w))
        = tally (holds_ref s) (workers st) + of_bool (holds_ref s pc)"
      "tally (holds_lock s) ((workers st)[w := pc]) + of_bool (holds_lock s (workers st ! w))
        = tally (holds_lock s) (workers st) + of_bool (holds_lock s pc)"
      using tally_update [OF w] by blast+
    have "refs ?st' s + of_bool (holds_ref s (workers st ! w)) + tally (\<lambda>x. x = s) (queue st)
        = refs st s + of_bool (holds_ref s pc) + tally (\<lambda>x. x = s) q"
      using t(1) by (simp add: refs_def)
    then have "(of_nat (refs ?st' s + of_bool (holds_ref s (workers st ! w)) + tally (\<lambda>x. x = s) (queue st)) :: 32 word)
        = of_nat (refs st s + of_bool (holds_ref s pc) + tally (\<lambda>x. x = s) q)" by simp
    then have "refcnt (cs ! s) + of_bool (holds_ref s (workers st ! w)) + of_nat (tally (\<lambda>x. x = s) (queue st))
        = of_nat (refs ?st' s) + of_bool (holds_ref s (workers st ! w)) + of_nat (tally (\<lambda>x. x = s) (queue st))"
      using same [OF s] old(1) by (simp only: of_nat_add of_nat_of_bool)
    then have "refcnt (cs ! s) = of_nat (refs ?st' s)" by (simp only: add_right_cancel)
    with same [OF s] t(2) old(2) show ?thesis by simp
  qed
  moreover have "\<forall>p \<in> set (workers ?st'). \<forall>s. holds_ref s p \<longrightarrow> s < sensors"
    using inv pc set_update_workers by (fastforce simp: sys_inv_def)
  ultimately show ?thesis
    using inv cells q by (auto simp: sys_inv_def)
qed

lemma sys_inv_step:
  assumes inv: "sys_inv cap sensors n st" and step: "sys_step cap st st'" and small: "cap + n + 2 < 2 ^ 32"
  shows "sys_inv cap sensors n st'"
  using step
proof cases
  case (main_get i)
  then have i: "i < sensors" using inv by (simp add: sys_inv_def)
  have t: "touch i st = st" by (rule touch_live) (rule sys_inv_live [OF inv i])
  have "refs st' s = refs st s + of_bool (s = i)" for s
    using main_get by (auto simp: refs_def main_ref_def rb_sensor_get_def t)
  then show ?thesis
    using inv i main_get by (auto simp: sys_inv_def rb_sensor_get_def t nth_list_update)
next
  case (main_queue i)
  then have "refs st' s = refs st s" for s by (auto simp: refs_def main_ref_def)
  then show ?thesis using inv main_queue by (auto simp: sys_inv_def)
next
  case (main_again i)
  then have "refs st' s = refs st s" for s by (simp add: refs_def main_ref_def)
  then show ?thesis using inv main_again by (auto simp: sys_inv_def)
next
  case (main_leave i)
  then have "refs st' s = refs st s" for s by (simp add: refs_def main_ref_def)
  then show ?thesis using inv main_leave by (auto simp: sys_inv_def)
next
  case (pop w s q)
  have eq: "st' = at_worker w (Popped s) (st\<lparr>cells := cells st, queue := q\<rparr>)" using pop by simp
  show ?thesis unfolding eq
    by (rule sys_inv_move [OF inv pop(2)]) (use inv pop in \<open>auto simp: sys_inv_def\<close>)
next
  case (pop_leave w s q)
  have eq: "st' = at_worker w (Left (Some s)) (st\<lparr>cells := cells st, queue := q\<rparr>)" using pop_leave by simp
  show ?thesis unfolding eq
    by (rule sys_inv_move [OF inv pop_leave(2)]) (use inv pop_leave in \<open>auto simp: sys_inv_def\<close>)
next
  case (leave w)
  have eq: "st' = at_worker w (Left None) (st\<lparr>cells := cells st, queue := queue st\<rparr>)" using leave by simp
  show ?thesis unfolding eq
    by (rule sys_inv_move [OF inv leave(2)]) (use inv leave in \<open>auto simp: sys_inv_def\<close>)
next
  case (trylock w s st1 got)
  have s: "s < sensors" using sys_inv_holder [OF inv trylock(2)] trylock(3) by simp
  have t: "touch s st = st" by (rule touch_live) (rule sys_inv_live [OF inv s])
  define cs where "cs = (if got then (cells st)[s := (cells st ! s)\<lparr>locked := True\<rparr>] else cells st)"
  have eq: "st' = at_worker w (if got then Processing s else Skipped s) (st\<lparr>cells := cs, queue := queue st\<rparr>)"
    using trylock by (auto simp: rb_sensor_trylock_def t cs_def set_cell_def split: if_splits)
  have got: "got \<longleftrightarrow> \<not> locked (cells st ! s)"
    using trylock(4) by (auto simp: rb_sensor_trylock_def split: if_splits)
  show ?thesis unfolding eq
    by (rule sys_inv_move [OF inv trylock(2)])
      (use inv trylock s got in \<open>auto simp: sys_inv_def cs_def nth_list_update split: if_splits\<close>)
next
  case (unlock w s)
  have s: "s < sensors" using sys_inv_holder [OF inv unlock(2)] unlock(3) by simp
  have t: "touch s st = st" by (rule touch_live) (rule sys_inv_live [OF inv s])
  have "0 < tally (holds_lock s) (workers st)" using tally_pos [OF unlock(2)] unlock(3) by simp
  then have lock: "locked (cells st ! s)" using inv s by (simp add: sys_inv_def)
  have eq: "st' = at_worker w (Unlocked s)
      (st\<lparr>cells := (cells st)[s := (cells st ! s)\<lparr>locked := False\<rparr>], queue := queue st\<rparr>)"
    using unlock by (simp add: rb_sensor_unlock_def t set_cell_def)
  show ?thesis unfolding eq
    by (rule sys_inv_move [OF inv unlock(2)])
      (use inv unlock s lock in \<open>auto simp: sys_inv_def nth_list_update\<close>)
next
  case (put w s)
  have h: "holds_ref s (workers st ! w)" using put(3) by auto
  have s: "s < sensors" by (rule sys_inv_holder [OF inv put(2) h])
  have t: "touch s st = st" by (rule touch_live) (rule sys_inv_live [OF inv s])
  have "0 < tally (holds_ref s) (workers st)" by (rule tally_pos [of w]) (use put(2) h in simp_all)
  then obtain k where k: "refs st s = Suc (Suc k)"
    by (metis refs_def add_Suc One_nat_def gr0_implies_Suc plus_1_eq_Suc add_Suc_right)
  have ref: "refcnt (cells st ! s) = of_nat (refs st s)" using inv s by (simp add: sys_inv_def)
  then have dec: "refcnt (cells st ! s) - 1 = of_nat (Suc k)" by (simp add: k)
  have "Suc k < 2 ^ 32" using refs_bound [OF inv, of s] small k by simp
  then have "(of_nat (Suc k) :: 32 word) \<noteq> 0"
    by (simp add: word_of_nat_eq_0_iff nat_dvd_not_less del: of_nat_Suc)
  then have nz: "refcnt (cells st ! s) - 1 \<noteq> 0" using dec by simp
  have eq: "st' = at_worker w Waiting
      (st\<lparr>cells := (cells st)[s := (cells st ! s)\<lparr>refcnt := refcnt (cells st ! s) - 1\<rparr>], queue := queue st\<rparr>)"
    using put nz by (simp add: rb_sensor_put_def t set_cell_def)
  show ?thesis unfolding eq
    by (rule sys_inv_move [OF inv put(2)])
      (use inv put s in \<open>auto simp: sys_inv_def nth_list_update\<close>)
next
  case signal
  then have "refs st' s = refs st s" for s by (simp add: refs_def)
  then show ?thesis using inv signal by (auto simp: sys_inv_def)
qed

lemma reachable_sys_inv:
  "reachable_sys cap sensors n st \<Longrightarrow> cap + n + 2 < 2 ^ 32 \<Longrightarrow> sys_inv cap sensors n st"
proof (induction rule: reachable_sys.induct)
  case init
  show ?case by (rule sys_inv_initial)
next
  case (step st st')
  then show ?case using sys_inv_step by blast
qed

lemma sys_inv_one_lock:
  assumes inv: "sys_inv cap sensors n st" and v: "v < length (workers st)" and w: "w < length (workers st)"
    and vs: "workers st ! v = Processing s" and ws: "workers st ! w = Processing s"
  shows "v = w"
proof (rule ccontr)
  assume "v \<noteq> w"
  have s: "s < sensors" using sys_inv_holder [OF inv v] vs by simp
  have "tally (holds_lock s) ((workers st)[w := Waiting]) + 1 = tally (holds_lock s) (workers st)"
    using tally_update [OF w, of "holds_lock s" Waiting] ws by simp
  moreover have "0 < tally (holds_lock s) ((workers st)[w := Waiting])"
    using tally_pos [of v "(workers st)[w := Waiting]" "holds_lock s"] v vs \<open>v \<noteq> w\<close> by simp
  moreover have "tally (holds_lock s) (workers st) \<le> 1" using inv s by (simp add: sys_inv_def)
  ultimately show False by simp
qed

end
