(* ===== verification/Zk.thy ===== *)
theory Zk
  imports CStdio "HOL-Library.Char_ord" "HOL-Library.List_Lexorder"
begin

text \<open>
  The decisions of src/rb_zk.c: which node of a lock directory leads and whom the others watch,
  which element of a queue is popped, which nodes a path needs, and the life of a queue element.
  The ZooKeeper client is a parameter: what each call returns; what it will call back with is the
  argument of the handlers. A handler returns the new state and the calls it made, in order.
\<close>

section \<open>Paths\<close>

text \<open>\<open>strrchr(path, '/')\<close>: what is before the last separator and what is after it.\<close>

definition last_separator :: "string \<Rightarrow> (string \<times> string) option" where
  "last_separator path =
     (if CHR ''/'' \<in> set path
      then Some (rev (tl (dropWhile (\<lambda>c. c \<noteq> CHR ''/'') (rev path))),
                 rev (takeWhile (\<lambda>c. c \<noteq> CHR ''/'') (rev path)))
      else None)"

text \<open>\<open>parent_node\<close>: the path cut at its last separator, and whether there was one.\<close>

definition parent_node :: "string \<Rightarrow> string \<times> bool" where
  "parent_node path =
     (case last_separator path of None \<Rightarrow> (path, False) | Some (before, after) \<Rightarrow> (before, True))"

lemma last_separator_append:
  "CHR ''/'' \<notin> set nm \<Longrightarrow> last_separator (dir @ CHR ''/'' # nm) = Some (dir, nm)"
proof -
  assume nm: "CHR ''/'' \<notin> set nm"
  have "takeWhile (\<lambda>c. c \<noteq> CHR ''/'') (rev nm @ CHR ''/'' # rev dir) = rev nm"
    using nm by (subst takeWhile_append2) auto
  moreover have "dropWhile (\<lambda>c. c \<noteq> CHR ''/'') (rev nm @ CHR ''/'' # rev dir) = CHR ''/'' # rev dir"
    using nm by (subst dropWhile_append2) auto
  ultimately show ?thesis by (simp add: last_separator_def)
qed

lemma parent_node_append: "CHR ''/'' \<notin> set nm \<Longrightarrow> parent_node (dir @ CHR ''/'' # nm) = (dir, True)"
  by (simp add: parent_node_def last_separator_append)

section \<open>Choosing among nodes\<close>

text \<open>
  \<open>strcmp\<close> on the names is the lexicographic order of their bytes. The loop of
  \<open>leader_previous_string\<close> over the children, null entries skipped.
\<close>

fun previous_loop :: "string option list \<Rightarrow> string \<Rightarrow> string option \<Rightarrow> string option" where
  "previous_loop [] my_str bef = bef"
| "previous_loop (None # ss) my_str bef = previous_loop ss my_str bef"
| "previous_loop (Some s # ss) my_str bef =
     previous_loop ss my_str
       (if s < my_str \<and> (case bef of None \<Rightarrow> True | Some b \<Rightarrow> b < s) then Some s else bef)"

definition leader_previous_string :: "string option list \<Rightarrow> string \<Rightarrow> string option" where
  "leader_previous_string strings my_str =
     (case last_separator my_str of
        None \<Rightarrow> None
      | Some (dir, nm) \<Rightarrow> previous_loop strings nm None)"

fun min_str_loop :: "string option list \<Rightarrow> string option \<Rightarrow> string option" where
  "min_str_loop [] m = m"
| "min_str_loop (None # ss) m = min_str_loop ss m"
| "min_str_loop (Some s # ss) m =
     min_str_loop ss (case m of None \<Rightarrow> Some s | Some b \<Rightarrow> if s < b then Some s else m)"

definition min_str :: "string option list \<Rightarrow> string option" where
  "min_str strings = min_str_loop strings None"

definition names_of :: "string option list \<Rightarrow> string set" where
  "names_of strings = {s. Some s \<in> set strings}"

lemma names_of_simps [simp]:
  "names_of [] = {}" "names_of (None # ss) = names_of ss" "names_of (Some s # ss) = insert s (names_of ss)"
  by (auto simp: names_of_def)

lemma finite_names_of [simp]: "finite (names_of ss)"
proof (induction ss)
  case (Cons a ss)
  then show ?case by (cases a) auto
qed simp

text \<open>The greatest name below mine, and the least name.\<close>

definition greatest_below :: "string set \<Rightarrow> string \<Rightarrow> string option \<Rightarrow> bool" where
  "greatest_below S m r \<longleftrightarrow>
     (case r of
        None \<Rightarrow> \<forall>s \<in> S. m \<le> s
      | Some b \<Rightarrow> b \<in> S \<and> b < m \<and> (\<forall>s \<in> S. s < m \<longrightarrow> s \<le> b))"

definition least_of :: "string set \<Rightarrow> string option \<Rightarrow> bool" where
  "least_of S r \<longleftrightarrow> (case r of None \<Rightarrow> S = {} | Some b \<Rightarrow> b \<in> S \<and> (\<forall>s \<in> S. b \<le> s))"

lemma previous_loop_inv:
  "greatest_below S m bef \<Longrightarrow> greatest_below (S \<union> names_of ss) m (previous_loop ss m bef)"
proof (induction ss m bef arbitrary: S rule: previous_loop.induct)
  case (3 s ss m bef)
  have "greatest_below (insert s S) m
      (if s < m \<and> (case bef of None \<Rightarrow> True | Some b \<Rightarrow> b < s) then Some s else bef)"
    using 3(2) by (cases bef) (auto simp: greatest_below_def not_less dest: less_le_trans)
  from 3(1) [OF this] show ?case by simp
qed auto

lemma min_str_loop_inv: "least_of S m \<Longrightarrow> least_of (S \<union> names_of ss) (min_str_loop ss m)"
proof (induction ss m arbitrary: S rule: min_str_loop.induct)
  case (3 s ss m)
  have "least_of (insert s S) (case m of None \<Rightarrow> Some s | Some b \<Rightarrow> if s < b then Some s else m)"
    using 3(2) by (cases m) (auto simp: least_of_def not_less intro: order.trans less_imp_le)
  from 3(1) [OF this] show ?case by simp
qed auto

lemma leader_previous_string_greatest:
  assumes "CHR ''/'' \<notin> set nm"
  shows "greatest_below (names_of strings) nm (leader_previous_string strings (dir @ ''/'' @ nm))"
  using previous_loop_inv [of "{}" nm None strings] last_separator_append [OF assms, of dir]
  by (simp add: leader_previous_string_def greatest_below_def)

lemma min_str_least: "least_of (names_of strings) (min_str strings)"
  using min_str_loop_inv [of "{}" None strings] by (simp add: min_str_def least_of_def)

section \<open>Creating a path\<close>

text \<open>
  The loop of \<open>rb_zk_create_recursive_node\<close>: the nodes it creates, \<open>pre\<close> being the text before the
  cursor and \<open>rest\<close> the text from it.
\<close>

function create_nodes :: "string \<Rightarrow> string \<Rightarrow> string list" where
  "create_nodes pre rest =
     (if CHR ''/'' \<in> set rest
      then let seg = takeWhile (\<lambda>c. c \<noteq> CHR ''/'') rest
           in (pre @ seg) # create_nodes (pre @ seg @ ''/'') (tl (dropWhile (\<lambda>c. c \<noteq> CHR ''/'') rest))
      else [pre @ rest])"
  by pat_completeness auto
termination
proof (relation "measure (\<lambda>(pre, rest). length rest)", simp)
  fix pre rest seg :: string
  assume slash: "CHR ''/'' \<in> set rest"
  have "length (dropWhile (\<lambda>c. c \<noteq> CHR ''/'') rest) \<le> length rest" by (rule length_dropWhile_le)
  moreover have "dropWhile (\<lambda>c. c \<noteq> CHR ''/'') rest \<noteq> []" using slash by (auto simp: dropWhile_eq_Nil_conv)
  ultimately have "length (tl (dropWhile (\<lambda>c. c \<noteq> CHR ''/'') rest)) < length rest"
    by (cases "dropWhile (\<lambda>c. c \<noteq> CHR ''/'') rest") auto
  then show "((pre @ seg @ ''/'', tl (dropWhile (\<lambda>c. c \<noteq> CHR ''/'') rest)), pre, rest)
      \<in> measure (\<lambda>(pre, rest). length rest)" by simp
qed

declare create_nodes.simps [simp del]

text \<open>
  The copy needs a byte more than the array \<open>aux_buf\<close> has; \<open>buf_size\<close> is its size, \<open>strlen(node)\<close>
  in the code.
\<close>

definition create_recursive_node :: "nat \<Rightarrow> string \<Rightarrow> string list outcome" where
  "create_recursive_node buf_size node =
     (if buf_size < length node + 1 then Inl Buffer_overflow
      else case node of [] \<Rightarrow> Inl Out_of_bounds | c # rest \<Rightarrow> Inr (create_nodes [c] rest))"

definition rb_zk_create_recursive_node :: "string \<Rightarrow> string list outcome" where
  "rb_zk_create_recursive_node node = create_recursive_node (length node) node"

lemma create_nodes_segments:
  assumes "segs \<noteq> []" and "\<forall>s \<in> set segs. CHR ''/'' \<notin> set s"
  shows "create_nodes pre (join ''/'' segs) = map (\<lambda>k. pre @ join ''/'' (take k segs)) [1..<Suc (length segs)]"
  using assms
proof (induction segs arbitrary: pre rule: induct_list012)
  case (2 s)
  then show ?case by (subst create_nodes.simps) simp
next
  case (3 s t ss)
  have s: "CHR ''/'' \<notin> set s" using 3(4) by simp
  have tw: "takeWhile (\<lambda>c. c \<noteq> CHR ''/'') (s @ CHR ''/'' # r) = s"
    and dw: "dropWhile (\<lambda>c. c \<noteq> CHR ''/'') (s @ CHR ''/'' # r) = CHR ''/'' # r" for r
    using s by (subst takeWhile_append2, auto) (subst dropWhile_append2, auto)
  have IH: "create_nodes (pre @ s @ ''/'') (join ''/'' (t # ss))
      = map (\<lambda>k. (pre @ s @ ''/'') @ join ''/'' (take k (t # ss))) [1..<Suc (length (t # ss))]"
    using 3(4) by (intro 3(2)) auto
  have shift: "(pre @ s @ ''/'') @ join ''/'' (take k (t # ss)) = pre @ join ''/'' (take (Suc k) (s # t # ss))"
    if "k \<in> set [1..<Suc (length (t # ss))]" for k
  proof -
    have "1 \<le> k" using that by (simp only: set_upt) simp
    then obtain j where "k = Suc j" by (cases k) auto
    then show ?thesis by simp
  qed
  have "create_nodes pre (join ''/'' (s # t # ss))
      = (pre @ s) # create_nodes (pre @ s @ ''/'') (join ''/'' (t # ss))"
    by (subst create_nodes.simps) (simp add: tw dw)
  also have "\<dots> = (pre @ s) # map (\<lambda>k. pre @ join ''/'' (take (Suc k) (s # t # ss))) [1..<Suc (length (t # ss))]"
    unfolding IH using shift by simp
  also have "\<dots> = map (\<lambda>k. pre @ join ''/'' (take k (s # t # ss))) [1..<Suc (length (s # t # ss))]"
    by (simp add: upt_conv_Cons map_Suc_upt [symmetric] comp_def del: upt_Suc)
  finally show ?case .
qed simp

section \<open>Calls and callbacks\<close>

text \<open>
  What the handlers ask of the client, and what they tell their users: the status and error
  callbacks of a lock, the error, data and delete callbacks of a queue element, and releases.
\<close>

datatype zk_call =
    Aget_children string
  | Awget_children string
  | Wexists string
  | Aget "string option"
  | Adelete "string option"
  | Acreate_lock string
  | Acreate string string

datatype zk_effect =
    Called zk_call
  | Mutex_status bool
  | Mutex_error string int
  | Mutex_unregistered
  | Mutex_freed
  | Queue_error string int
  | Queue_data string
  | Queue_deleted int
  | Unlock_mutex
  | Element_freed

type_synonym zk_rc = "zk_call \<Rightarrow> int"

section \<open>Locks\<close>

text \<open>
  \<open>struct rb_zk_mutex\<close>: its path, whether its owner leads, and whether it has an error callback. The
  status callback is always there.
\<close>

record zk_mutex =
  mx_path :: string
  mx_leader :: bool
  mx_error_cb :: bool

text \<open>The lock leaves the tree and the list of the context, its error callback is told, and it is freed.\<close>

definition rb_zk_mutex_error_done :: "zk_mutex \<Rightarrow> int \<Rightarrow> string \<Rightarrow> zk_effect list" where
  "rb_zk_mutex_error_done mutex rc error =
     Mutex_unregistered # (if mx_error_cb mutex then [Mutex_error error rc] else []) @ [Mutex_freed]"

definition rb_zk_mutex_done :: "zk_mutex \<Rightarrow> zk_effect list" where
  "rb_zk_mutex_done mutex = rb_zk_mutex_error_done (mutex\<lparr>mx_error_cb := False\<rparr>) 0 []"

definition directory_of :: "string \<Rightarrow> string" where
  "directory_of path = fst (parent_node (snprintf BUFSIZ path))"

definition leader_get_children_complete ::
    "zk_rc \<Rightarrow> int \<Rightarrow> string option list \<Rightarrow> zk_mutex \<Rightarrow> zk_mutex \<times> zk_effect list" where
  "leader_get_children_complete zk rc strings mutex =
     (if rc \<noteq> 0 then (mutex, [])
      else
        case leader_previous_string strings (mx_path mutex) of
          None \<Rightarrow> (mutex\<lparr>mx_leader := True\<rparr>, [Mutex_status True])
        | Some bef_str \<Rightarrow>
            let prev_node_path = snprintf BUFSIZ (directory_of (mx_path mutex) @ ''/'' @ bef_str);
                wget_rc = zk (Wexists prev_node_path)
            in (mutex, Called (Wexists prev_node_path)
                 # (if wget_rc \<noteq> 0 then rb_zk_mutex_error_done mutex wget_rc ''Can't wget previous node'' else [])))"

definition previous_leader_watcher :: "string \<Rightarrow> zk_effect list" where
  "previous_leader_watcher path = [Called (Aget_children (directory_of path))]"

text \<open>\<open>mem\<close> says whether the path can be duplicated.\<close>

text \<open>
  The lock takes the name of its node, if it can be duplicated; \<^term>\<open>None\<close> for the return code -1. The
  callers never pass a null name.
\<close>

definition override_leader_node :: "bool \<Rightarrow> string \<Rightarrow> zk_mutex \<Rightarrow> zk_mutex option" where
  [simp]: "override_leader_node mem leader_node lock = (if mem then Some (lock\<lparr>mx_path := leader_node\<rparr>) else None)"

definition create_mutex_node_complete ::
    "zk_rc \<Rightarrow> bool \<Rightarrow> int \<Rightarrow> string option \<Rightarrow> zk_mutex \<Rightarrow> zk_mutex \<times> zk_effect list" where
  "create_mutex_node_complete zk mem rc leader_node mutex =
     (if rc \<noteq> 0 then (mutex, rb_zk_mutex_error_done mutex rc ''Couldn't create leader node.'')
      else case leader_node of
             None \<Rightarrow> (mutex, rb_zk_mutex_error_done mutex rc ''NULL path when returning'')
           | Some node \<Rightarrow>
               (case override_leader_node mem node mutex of
                  None \<Rightarrow> (mutex, rb_zk_mutex_error_done mutex rc ''Error overriding leading node'')
                | Some lock \<Rightarrow>
                    let c = Aget_children (directory_of node)
                    in (lock, Called c
                         # (if zk c \<noteq> 0 then rb_zk_mutex_error_done lock rc ''Couldn't aget children'' else []))))"

definition rb_zk_mutex_lock0 :: "zk_rc \<Rightarrow> zk_mutex \<Rightarrow> zk_effect list" where
  "rb_zk_mutex_lock0 zk mutex =
     (let c = Acreate_lock (mx_path mutex)
      in Called c # (if zk c \<noteq> 0 then rb_zk_mutex_error_done mutex (zk c) ''Can't call acreate'' else []))"

text \<open>Who leads: the lowest name; everyone else watches the name just below its own.\<close>

lemma directory_of_node:
  assumes "CHR ''/'' \<notin> set nm" and "length dir + length nm + 1 < BUFSIZ - 1"
  shows "directory_of (dir @ CHR ''/'' # nm) = dir"
  using assms parent_node_append [OF assms(1), of dir] by (simp add: directory_of_def snprintf_def)

lemma leader_get_children_cases [consumes 4, case_names leads waits]:
  assumes nm: "CHR ''/'' \<notin> set nm" and path: "mx_path mutex = dir @ CHR ''/'' # nm"
    and short: "length dir + length nm + 1 < BUFSIZ - 1"
    and names: "\<forall>s \<in> names_of strings. length dir + length s + 1 < BUFSIZ - 1"
  obtains (leads) "\<forall>s \<in> names_of strings. nm \<le> s"
      and "leader_get_children_complete zk 0 strings mutex = (mutex\<lparr>mx_leader := True\<rparr>, [Mutex_status True])"
  | (waits) b where "b \<in> names_of strings" "b < nm" "\<forall>s \<in> names_of strings. s < nm \<longrightarrow> s \<le> b"
      and "leader_get_children_complete zk 0 strings mutex =
        (mutex, Called (Wexists (dir @ CHR ''/'' # b))
           # (if zk (Wexists (dir @ CHR ''/'' # b)) \<noteq> 0
              then rb_zk_mutex_error_done mutex (zk (Wexists (dir @ CHR ''/'' # b))) ''Can't wget previous node'' else []))"
proof -
  have dir: "directory_of (mx_path mutex) = dir" unfolding path by (rule directory_of_node [OF nm short])
  have g: "greatest_below (names_of strings) nm (leader_previous_string strings (mx_path mutex))"
    using leader_previous_string_greatest [OF nm, of strings dir] by (simp add: path)
  show thesis
  proof (cases "leader_previous_string strings (mx_path mutex)")
    case None
    with g show thesis by (intro leads) (simp_all add: leader_get_children_complete_def greatest_below_def)
  next
    case (Some b)
    with g have b: "b \<in> names_of strings" "b < nm" "\<forall>s \<in> names_of strings. s < nm \<longrightarrow> s \<le> b"
      by (simp_all add: greatest_below_def)
    have "length (dir @ CHR ''/'' # b) \<le> BUFSIZ - 1" using b(1) names by fastforce
    then have "snprintf BUFSIZ (dir @ CHR ''/'' # b) = dir @ CHR ''/'' # b" by (simp add: snprintf_def)
    with Some dir show thesis
      by (intro waits [OF b]) (simp add: leader_get_children_complete_def Let_def)
  qed
qed

lemma leader_get_children_decides:
  assumes nm: "CHR ''/'' \<notin> set nm" and path: "mx_path mutex = dir @ CHR ''/'' # nm"
    and short: "length (mx_path mutex) < BUFSIZ - 1"
    and names: "\<forall>s \<in> names_of strings. length dir + length s + 1 < BUFSIZ - 1"
    and up: "\<And>c. zk c = 0"
  shows "(\<forall>s \<in> names_of strings. nm \<le> s) \<and>
           leader_get_children_complete zk 0 strings mutex = (mutex\<lparr>mx_leader := True\<rparr>, [Mutex_status True])
       \<or> (\<exists>b \<in> names_of strings. b < nm \<and> (\<forall>s \<in> names_of strings. s < nm \<longrightarrow> s \<le> b) \<and>
           leader_get_children_complete zk 0 strings mutex =
             (mutex, [Called (Wexists (dir @ CHR ''/'' # b))]))"
proof (rule leader_get_children_cases [OF nm path _ names, where zk = zk])
  show "length dir + length nm + 1 < BUFSIZ - 1" using short path by simp
qed (use up in auto)

text \<open>
  Unlocking deletes the node while the client is connected; otherwise the node is gone with the
  session, or so the code takes it. The completion of the deletion frees the lock.
\<close>

definition delete_mutex_completed :: "zk_mutex \<Rightarrow> zk_effect list" where
  "delete_mutex_completed mutex = rb_zk_mutex_done mutex"

definition rb_zk_mutex_unlock :: "bool \<Rightarrow> zk_mutex \<Rightarrow> zk_effect list" where
  "rb_zk_mutex_unlock connected mutex =
     (if connected then [Called (Adelete (Some (mx_path mutex)))] else delete_mutex_completed mutex)"

section \<open>Queue elements\<close>

text \<open>
  \<open>struct rb_zk_queue_element\<close>, with its three callbacks given, as sensors_queue_poll_loop_start of
  rb_monitor_zk.c does. \<open>q_mutex\<close> says whether it waits under a lock, \<open>q_freed\<close> whether it was
  released. \<open>q_element_path\<close> is the text asprintf allocates.
\<close>

record queue_element =
  q_path :: string
  q_element_path :: "string option"
  q_ignore_watcher :: bool
  q_mutex :: bool
  q_refcnt :: "64 word"
  q_freed :: bool

definition new_queue_element :: "string \<Rightarrow> queue_element" where
  "new_queue_element path =
     \<lparr>q_path = path, q_element_path = None, q_ignore_watcher = False, q_mutex = False, q_refcnt = 1,
      q_freed = False\<rparr>"

definition rb_zk_queue_element_decref :: "queue_element \<Rightarrow> queue_element \<times> zk_effect list" where
  "rb_zk_queue_element_decref q =
     (if q_refcnt q - 1 = 0 then (q\<lparr>q_refcnt := 0, q_freed := True\<rparr>, [Element_freed])
      else (q\<lparr>q_refcnt := q_refcnt q - 1\<rparr>, []))"

text \<open>Reporting an error and dropping the reference, in this order.\<close>

definition fail_element :: "string \<Rightarrow> int \<Rightarrow> queue_element \<Rightarrow> queue_element \<times> zk_effect list" where
  "fail_element cause rc q =
     (let (q', es) = rb_zk_queue_element_decref q in (q', Queue_error cause rc # es))"

definition rb_zk_queue_pop_nolock :: "zk_rc \<Rightarrow> queue_element \<Rightarrow> queue_element \<times> zk_effect list" where
  "rb_zk_queue_pop_nolock zk q =
     (let c = Aget_children (directory_of (q_path q))
      in if zk c < 0
         then let (q', es) = fail_element ''Can't call aget.'' (zk c) q in (q', Called c # es)
         else (q, [Called c]))"

definition rb_zk_queue_pop_minimum0 ::
    "zk_rc \<Rightarrow> int \<Rightarrow> string option list \<Rightarrow> bool \<Rightarrow> queue_element \<Rightarrow> queue_element \<times> zk_effect list" where
  "rb_zk_queue_pop_minimum0 zk rc strings watcher_setted q =
     (if rc < 0 then fail_element ''Error getting queue minimum'' rc q
      else case min_str strings of
             Some m \<Rightarrow>
               let element = directory_of (q_path q) @ ''/'' @ m;
                   q1 = q\<lparr>q_element_path := Some element,
                          q_ignore_watcher := watcher_setted \<or> q_ignore_watcher q\<rparr>;
                   c = Aget (Some element)
               in if zk c \<noteq> 0
                  then let (q', es) = fail_element ''Can't do aget over min element queue'' (zk c) q1
                       in (q', Called c # es)
                  else (q1, [Called c])
           | None \<Rightarrow>
               if \<not> watcher_setted then (q, [Called (Awget_children (directory_of (q_path q)))])
               else (q, []))"

definition rb_zk_queue_get_element ::
    "zk_rc \<Rightarrow> int \<Rightarrow> string \<Rightarrow> queue_element \<Rightarrow> queue_element \<times> zk_effect list" where
  "rb_zk_queue_get_element zk rc value' q =
     (if rc < 0 then fail_element ''Error getting queue element'' rc q
      else
        let c = Adelete (q_element_path q)
        in (q, [Queue_data value', Called c]
               @ (if zk c < 0 then [Queue_error ''Error calling adelete'' rc] else [])))"

definition rb_zk_queue_delete_completed :: "int \<Rightarrow> queue_element \<Rightarrow> queue_element \<times> zk_effect list" where
  "rb_zk_queue_delete_completed rc q =
     (let (q', es) = rb_zk_queue_element_decref q
      in (q', [Queue_deleted rc] @ (if q_mutex q then [Unlock_mutex] else []) @ es))"

definition rb_zk_queue_child_watcher :: "zk_rc \<Rightarrow> bool \<Rightarrow> queue_element \<Rightarrow> queue_element \<times> zk_effect list" where
  "rb_zk_queue_child_watcher zk child_event q =
     (if \<not> child_event then (q, [])
      else if q_ignore_watcher q then (q, [])
      else rb_zk_queue_pop_nolock zk q)"

definition rb_zk_queue_mutex_status_change ::
    "zk_rc \<Rightarrow> bool \<Rightarrow> queue_element \<Rightarrow> queue_element \<times> zk_effect list" where
  "rb_zk_queue_mutex_status_change zk mutex_obtained q =
     (if mutex_obtained then rb_zk_queue_pop_nolock zk q else (q, []))"

definition rb_zk_queue_mutex_error_cb :: "string \<Rightarrow> int \<Rightarrow> queue_element \<Rightarrow> queue_element \<times> zk_effect list" where
  "rb_zk_queue_mutex_error_cb cause rc q = fail_element cause rc q"

text \<open>
  \<open>rb_zk_queue_pop\<close> stores the lock it asked for; \<open>rb_zk_mutex_lock\<close> has no failing return, since it
  puts a failed allocation into its list.
\<close>

definition rb_zk_queue_pop :: "queue_element \<Rightarrow> queue_element" where
  "rb_zk_queue_pop q = q\<lparr>q_mutex := True\<rparr>"

definition rb_zk_queue_push :: "string \<Rightarrow> string \<Rightarrow> zk_effect list" where
  "rb_zk_queue_push path value' = [Called (Acreate path value')]"

lemma fail_element_fresh:
  "q_refcnt q = 1 \<Longrightarrow> fail_element cause rc q =
     (q\<lparr>q_refcnt := 0, q_freed := True\<rparr>, [Queue_error cause rc, Element_freed])"
  by (simp add: fail_element_def rb_zk_queue_element_decref_def)

text \<open>Popping takes the least name of the directory.\<close>

lemma pop_minimum_takes_least:
  assumes "names_of strings \<noteq> {}" and "zk = (\<lambda>c. 0)"
  shows "\<exists>m \<in> names_of strings. (\<forall>s \<in> names_of strings. m \<le> s) \<and>
     rb_zk_queue_pop_minimum0 zk 0 strings w q =
       (q\<lparr>q_element_path := Some (directory_of (q_path q) @ ''/'' @ m),
          q_ignore_watcher := w \<or> q_ignore_watcher q\<rparr>,
        [Called (Aget (Some (directory_of (q_path q) @ ''/'' @ m)))])"
proof -
  have "least_of (names_of strings) (min_str strings)" by (rule min_str_least)
  with assms(1) obtain m where m: "min_str strings = Some m" "m \<in> names_of strings" "\<forall>s \<in> names_of strings. m \<le> s"
    by (auto simp: least_of_def split: option.splits)
  then show ?thesis using assms(2) by (auto simp: rb_zk_queue_pop_minimum0_def Let_def)
qed

text \<open>What the handlers before the deletion say: never that the lock may go, and an error with every release.\<close>

lemmas pop_handler_defs = rb_zk_queue_mutex_status_change_def rb_zk_queue_pop_nolock_def
  rb_zk_queue_mutex_error_cb_def rb_zk_queue_pop_minimum0_def rb_zk_queue_child_watcher_def
  rb_zk_queue_get_element_def fail_element_def rb_zk_queue_element_decref_def Let_def

lemma pop_handlers_keep_lock:
  assumes "h \<in> {rb_zk_queue_mutex_status_change zk got, rb_zk_queue_mutex_error_cb cause rc,
      rb_zk_queue_pop_minimum0 zk rc strings w, rb_zk_queue_child_watcher zk child,
      rb_zk_queue_get_element zk rc value'}"
  shows "Unlock_mutex \<notin> set (snd (h q))"
  using assms by (auto simp: pop_handler_defs split: option.splits if_splits)

lemma pop_handlers_report:
  assumes "h \<in> {rb_zk_queue_mutex_status_change zk got, rb_zk_queue_mutex_error_cb cause rc,
      rb_zk_queue_pop_minimum0 zk rc strings w, rb_zk_queue_child_watcher zk child,
      rb_zk_queue_get_element zk rc value'}"
    and "q_freed (fst (h q))" and "\<not> q_freed q"
  shows "\<exists>why code. Queue_error why code \<in> set (snd (h q))"
  using assms by (auto simp: pop_handler_defs split: option.splits if_splits)

section \<open>The life of a queue element\<close>

text \<open>
  The client calls back once per accepted call. A run of an element: what it waits for, whether a
  watch on the directory is left over, and whether it was touched after its release.
\<close>

datatype awaiting =
    Await_lock | Await_children bool | Await_watch | Await_data | Await_delete | Await_nothing

record pop_run =
  pr_element :: queue_element
  pr_awaiting :: awaiting
  pr_stale_watch :: bool
  pr_touched_freed :: bool

definition handled ::
    "pop_run \<Rightarrow> queue_element \<times> zk_effect list \<Rightarrow> awaiting \<Rightarrow> bool \<Rightarrow> pop_run" where
  "handled st r next' stale =
     \<lparr>pr_element = fst r,
      pr_awaiting = (if q_freed (fst r) then Await_nothing else next'),
      pr_stale_watch = stale,
      pr_touched_freed = (pr_touched_freed st \<or> q_freed (pr_element st))\<rparr>"

text \<open>
  \<open>pop_step lossy\<close>: one callback of the client. A watch left over from a directory that had an
  element after all fires while the element is still waiting for something. With \<open>lossy\<close> it may
  fire later, and the session may be lost while the data are awaited: then the error callback of
  the lock runs, and what was asked before is still answered, with an error.
\<close>

inductive pop_step :: "bool \<Rightarrow> pop_run \<Rightarrow> pop_run \<Rightarrow> bool" for lossy where
  lock_obtained:
    "pr_awaiting st = Await_lock \<Longrightarrow>
       pop_step lossy st (handled st (rb_zk_queue_mutex_status_change zk True (pr_element st))
         (Await_children False) (pr_stale_watch st))"
| lock_failed:
    "pr_awaiting st = Await_lock \<Longrightarrow>
       pop_step lossy st (handled st (rb_zk_queue_mutex_error_cb cause rc (pr_element st))
         Await_nothing (pr_stale_watch st))"
| children:
    "pr_awaiting st = Await_children w \<Longrightarrow>
       pop_step lossy st (handled st (rb_zk_queue_pop_minimum0 zk rc strings w (pr_element st))
         (if min_str strings \<noteq> None then Await_data
          else if w then Await_watch else Await_children True)
         (w \<and> 0 \<le> rc \<and> min_str strings \<noteq> None))"
| watch:
    "pr_awaiting st = Await_watch \<Longrightarrow>
       pop_step lossy st (handled st (rb_zk_queue_child_watcher zk True (pr_element st))
         (if q_ignore_watcher (pr_element st) then Await_nothing else Await_children False) False)"
| data:
    "pr_awaiting st = Await_data \<Longrightarrow>
       pop_step lossy st (handled st (rb_zk_queue_get_element zk rc value' (pr_element st))
         (if zk (Adelete (q_element_path (pr_element st))) < 0 then Await_nothing else Await_delete)
         (pr_stale_watch st))"
| deleted:
    "pr_awaiting st = Await_delete \<Longrightarrow>
       pop_step lossy st (handled st (rb_zk_queue_delete_completed rc (pr_element st))
         Await_nothing (pr_stale_watch st))"
| session_lost:
    "lossy \<Longrightarrow> pr_awaiting st = Await_data \<Longrightarrow>
       pop_step lossy st ((handled st (rb_zk_queue_mutex_error_cb cause rc (pr_element st))
         Await_data (pr_stale_watch st))\<lparr>pr_awaiting := Await_data\<rparr>)"
| stale_watch:
    "pr_stale_watch st \<Longrightarrow> pr_awaiting st \<noteq> Await_nothing \<or> lossy \<Longrightarrow>
       pop_step lossy st (handled st (rb_zk_queue_child_watcher zk True (pr_element st))
         (pr_awaiting st) False)"

definition pop_started :: "string \<Rightarrow> pop_run" where
  "pop_started path =
     \<lparr>pr_element = rb_zk_queue_pop (new_queue_element path), pr_awaiting = Await_lock,
      pr_stale_watch = False, pr_touched_freed = False\<rparr>"

inductive pop_reachable :: "bool \<Rightarrow> string \<Rightarrow> pop_run \<Rightarrow> bool" for lossy path where
  start: "pop_reachable lossy path (pop_started path)"
| more: "pop_reachable lossy path st \<Longrightarrow> pop_step lossy st st' \<Longrightarrow> pop_reachable lossy path st'"

definition pop_inv :: "pop_run \<Rightarrow> bool" where
  "pop_inv st \<longleftrightarrow> \<not> pr_touched_freed st \<and>
     (if q_freed (pr_element st) then pr_awaiting st = Await_nothing else q_refcnt (pr_element st) = 1)
     \<and> (pr_stale_watch st \<longrightarrow> q_ignore_watcher (pr_element st))"

lemma pop_inv_handled:
  assumes "pop_inv st" and "pr_awaiting st \<noteq> Await_nothing"
    and "\<And>q. \<not> q_freed q \<Longrightarrow> q_refcnt q = 1 \<Longrightarrow> q_freed (fst (h q)) \<or> q_refcnt (fst (h q)) = 1"
    and "b \<Longrightarrow> q_ignore_watcher (fst (h (pr_element st)))"
  shows "pop_inv (handled st (h (pr_element st)) n b)"
  using assms by (auto simp: pop_inv_def handled_def split: if_splits)

lemma handlers_keep_one:
  assumes "q_refcnt q = 1"
  shows "q_freed (fst (rb_zk_queue_mutex_status_change zk got q)) \<or> q_refcnt (fst (rb_zk_queue_mutex_status_change zk got q)) = 1"
    and "q_freed (fst (rb_zk_queue_mutex_error_cb cause rc q)) \<or> q_refcnt (fst (rb_zk_queue_mutex_error_cb cause rc q)) = 1"
    and "q_freed (fst (rb_zk_queue_pop_minimum0 zk rc strings w q)) \<or> q_refcnt (fst (rb_zk_queue_pop_minimum0 zk rc strings w q)) = 1"
    and "q_freed (fst (rb_zk_queue_child_watcher zk c q)) \<or> q_refcnt (fst (rb_zk_queue_child_watcher zk c q)) = 1"
    and "q_freed (fst (rb_zk_queue_get_element zk rc v q)) \<or> q_refcnt (fst (rb_zk_queue_get_element zk rc v q)) = 1"
    and "q_freed (fst (rb_zk_queue_delete_completed rc q)) \<or> q_refcnt (fst (rb_zk_queue_delete_completed rc q)) = 1"
  using assms
  by (auto simp: rb_zk_queue_mutex_status_change_def rb_zk_queue_pop_nolock_def rb_zk_queue_mutex_error_cb_def
      rb_zk_queue_pop_minimum0_def rb_zk_queue_child_watcher_def rb_zk_queue_get_element_def
      rb_zk_queue_delete_completed_def rb_zk_queue_element_decref_def fail_element_def Let_def
      split: option.splits)

lemma decref_keeps_ignore [simp]:
  "q_ignore_watcher (fst (rb_zk_queue_element_decref q)) = q_ignore_watcher q"
  "q_ignore_watcher (fst (fail_element cause rc q)) = q_ignore_watcher q"
  by (simp_all add: rb_zk_queue_element_decref_def fail_element_def Let_def split: prod.splits)

lemma handlers_keep_ignore [simp]:
  "q_ignore_watcher (fst (rb_zk_queue_mutex_status_change zk got q)) = q_ignore_watcher q"
  "q_ignore_watcher (fst (rb_zk_queue_mutex_error_cb cause rc q)) = q_ignore_watcher q"
  "q_ignore_watcher (fst (rb_zk_queue_get_element zk rc v q)) = q_ignore_watcher q"
  "q_ignore_watcher (fst (rb_zk_queue_delete_completed rc q)) = q_ignore_watcher q"
  by (simp_all add: rb_zk_queue_mutex_status_change_def rb_zk_queue_pop_nolock_def rb_zk_queue_mutex_error_cb_def
      rb_zk_queue_get_element_def rb_zk_queue_delete_completed_def Let_def case_prod_unfold)

lemma pop_minimum_sets_ignore:
  "0 \<le> rc \<Longrightarrow> min_str strings \<noteq> None \<Longrightarrow> q_ignore_watcher (fst (rb_zk_queue_pop_minimum0 zk rc strings True q))"
  by (auto simp: rb_zk_queue_pop_minimum0_def Let_def case_prod_unfold)

lemma pop_inv_stale: "pop_inv st \<Longrightarrow> pr_stale_watch st \<Longrightarrow> q_ignore_watcher (pr_element st)"
  by (simp add: pop_inv_def)

lemma pop_inv_step: "pop_inv st \<Longrightarrow> pop_step False st st' \<Longrightarrow> pop_inv st'"
  by (erule pop_step.cases)
    (auto intro!: pop_inv_handled handlers_keep_one pop_minimum_sets_ignore dest: pop_inv_stale)

lemma pop_inv_reachable: "pop_reachable False path st \<Longrightarrow> pop_inv st"
proof (induction rule: pop_reachable.induct)
  case start
  show ?case by (simp add: pop_inv_def pop_started_def rb_zk_queue_pop_def new_queue_element_def)
next
  case (more st st')
  then show ?case using pop_inv_step by blast
qed

text \<open>Losing the session between the request of the data and its answer.\<close>

lemma session_loss_touches_freed:
  "\<exists>st. pop_reachable True path st \<and> pr_touched_freed st"
proof -
  let ?zk = "\<lambda>c. 0 :: int"
  define s0 where "s0 = pop_started path"
  define s1 where "s1 = handled s0 (rb_zk_queue_mutex_status_change ?zk True (pr_element s0)) (Await_children False) (pr_stale_watch s0)"
  define s2 where "s2 = handled s1 (rb_zk_queue_pop_minimum0 ?zk 0 [Some ''x''] False (pr_element s1)) Await_data False"
  define s3 where "s3 = (handled s2 (rb_zk_queue_mutex_error_cb [] 0 (pr_element s2)) Await_data (pr_stale_watch s2))\<lparr>pr_awaiting := Await_data\<rparr>"
  define s4 where "s4 = handled s3 (rb_zk_queue_get_element ?zk (- 4) [] (pr_element s3)) Await_delete (pr_stale_watch s3)"
  note defs = s0_def s1_def s2_def s3_def s4_def handled_def pop_started_def rb_zk_queue_pop_def
    new_queue_element_def rb_zk_queue_mutex_status_change_def rb_zk_queue_pop_nolock_def
    rb_zk_queue_pop_minimum0_def min_str_def Let_def rb_zk_queue_mutex_error_cb_def fail_element_def
    rb_zk_queue_element_decref_def
  have "pop_step True s0 s1"
    unfolding s1_def by (rule pop_step.lock_obtained) (simp add: defs)
  moreover have "pop_step True s1 s2"
    using pop_step.children [of s1 False True ?zk 0 "[Some ''x'']"] unfolding s2_def
    by (simp add: min_str_def) (simp add: defs)
  moreover have "pop_step True s2 s3"
    unfolding s3_def by (rule pop_step.session_lost) (simp_all add: defs)
  moreover have "pop_step True s3 s4"
    using pop_step.data [of s3 True ?zk "- 4" "[]"] unfolding s4_def by (simp add: s3_def)
  ultimately have "pop_reachable True path s4"
    using pop_reachable.start [of True path] pop_reachable.more unfolding s0_def by blast
  moreover have "pr_touched_freed s4" by (simp add: defs)
  ultimately show ?thesis by blast
qed

end
