(* ===== verification/Zk_Lock.thy ===== *)
theory Zk_Lock
  imports Zk
begin

text \<open>
  The lock of src/rb_zk.c among many clients: every attempt runs the handlers of Zk, and what they
  ask of ZooKeeper is answered by a directory of nodes. Of the server only documented behaviour is
  used: a sequential node gets a name above every name given before; listing answers with the nodes
  of one moment; \<open>zoo_wexists\<close> returns 0 only for a node that exists; an ephemeral node goes when
  it is deleted or its session ends. What was asked and answered is in flight until its callback
  runs, so the answers of the directory may be old when a handler sees them.
\<close>

section \<open>The system\<close>

text \<open>Where an attempt is: what it waits for, with the answer once the server gave it.\<close>

datatype lock_phase =
    Idle                             \<comment> \<open>no attempt, or one given up\<close>
  | Creating                         \<comment> \<open>\<open>zoo_acreate\<close> was accepted\<close>
  | Created string                   \<comment> \<open>the node exists, its name is on its way\<close>
  | Listing
  | Listed "string option list"
  | Watching string                  \<comment> \<open>of a path\<close>
  | Leading
  | Unlocking
  | Stuck                            \<comment> \<open>nothing was asked: no callback will come\<close>

record lock_sys =
  ls_nodes :: "string set"
  ls_used :: "string set"
  ls_mutex :: "nat \<Rightarrow> zk_mutex"
  ls_phase :: "nat \<Rightarrow> lock_phase"

definition node_path :: "string \<Rightarrow> string \<Rightarrow> string" where
  "node_path dir nm = dir @ CHR ''/'' # nm"

definition name_ok :: "string \<Rightarrow> string \<Rightarrow> bool" where
  "name_ok dir nm \<longleftrightarrow> CHR ''/'' \<notin> set nm \<and> length dir + length nm + 1 < BUFSIZ - 1"

text \<open>The lock \<open>rb_zk_mutex_create_entry\<close> makes.\<close>

definition rb_zk_mutex_create_entry :: "string \<Rightarrow> zk_mutex" where
  "rb_zk_mutex_create_entry leader_path = \<lparr>mx_path = leader_path, mx_leader = False, mx_error_cb = True\<rparr>"

text \<open>What a handler's calls leave the attempt waiting for.\<close>

definition next_phase :: "zk_effect list \<Rightarrow> lock_phase" where
  "next_phase es =
     (if Mutex_freed \<in> set es then Idle
      else if Mutex_status True \<in> set es then Leading
      else case es of
             [Called (Acreate_lock p)] \<Rightarrow> Creating
           | [Called (Aget_children d)] \<Rightarrow> Listing
           | [Called (Wexists p)] \<Rightarrow> Watching p
           | [Called (Adelete p)] \<Rightarrow> Unlocking
           | _ \<Rightarrow> Stuck)"

definition acts :: "nat \<Rightarrow> zk_mutex \<times> zk_effect list \<Rightarrow> lock_sys \<Rightarrow> lock_sys" where
  "acts i r s = s\<lparr>ls_mutex := (ls_mutex s)(i := fst r), ls_phase := (ls_phase s)(i := next_phase (snd r))\<rparr>"

definition at_phase :: "nat \<Rightarrow> lock_phase \<Rightarrow> lock_sys \<Rightarrow> lock_sys" where
  "at_phase i ph s = s\<lparr>ls_phase := (ls_phase s)(i := ph)\<rparr>"

text \<open>The node of an attempt.\<close>

fun node_of :: "lock_phase \<Rightarrow> zk_mutex \<Rightarrow> string option" where
  "node_of Idle m = None"
| "node_of Creating m = None"
| "node_of (Created nm) m = Some nm"
| "node_of ph m = map_option snd (last_separator (mx_path m))"

definition own :: "lock_sys \<Rightarrow> nat \<Rightarrow> string option" where
  "own s i = node_of (ls_phase s i) (ls_mutex s i)"

text \<open>
  What the client library may return: \<open>zoo_wexists\<close> asks the server; the other calls only queue a
  request, which fails only in a faulty run.
\<close>

definition lawful :: "bool \<Rightarrow> string \<Rightarrow> string set \<Rightarrow> zk_rc \<Rightarrow> bool" where
  "lawful faulty dir nodes zk \<longleftrightarrow>
     (\<forall>b. name_ok dir b \<longrightarrow> zk (Wexists (node_path dir b)) = 0 \<longrightarrow> b \<in> nodes) \<and>
     (\<not> faulty \<longrightarrow>
        (\<forall>b \<in> nodes. zk (Wexists (node_path dir b)) = 0) \<and>
        (\<forall>c. (\<forall>p. c \<noteq> Wexists p) \<longrightarrow> zk c = 0))"

text \<open>
  A step: a callback of the client \<open>i\<close> or a move of the server. In a \<open>faulty\<close> run requests fail, a
  watch fires without cause, sessions expire, and a client drops its locks because of a disconnection
  (\<open>zk_watcher_clean_mutex\<close>), whether its session survives or not.
\<close>

inductive lock_step :: "bool \<Rightarrow> string \<Rightarrow> string \<Rightarrow> lock_sys \<Rightarrow> lock_sys \<Rightarrow> bool" for faulty dir leaf where
  ask:
    "ls_phase s i = Idle \<Longrightarrow> lawful faulty dir (ls_nodes s) zk \<Longrightarrow>
       m = rb_zk_mutex_create_entry (node_path dir leaf) \<Longrightarrow>
       lock_step faulty dir leaf s (acts i (m, rb_zk_mutex_lock0 zk m) s)"
| create:
    "ls_phase s i = Creating \<Longrightarrow> name_ok dir nm \<Longrightarrow> \<forall>u \<in> ls_used s. u < nm \<Longrightarrow>
       lock_step faulty dir leaf s
         ((at_phase i (Created nm) s)\<lparr>ls_nodes := insert nm (ls_nodes s), ls_used := insert nm (ls_used s)\<rparr>)"
| create_done:
    "ls_phase s i = Created nm \<Longrightarrow> lawful faulty dir (ls_nodes s) zk \<Longrightarrow> mem \<or> faulty \<Longrightarrow>
       lock_step faulty dir leaf s
         (acts i (create_mutex_node_complete zk mem 0 (Some (node_path dir nm)) (ls_mutex s i)) s)"
| create_failed:
    "faulty \<Longrightarrow> ls_phase s i = Creating \<or> (\<exists>nm. ls_phase s i = Created nm) \<Longrightarrow> rc \<noteq> 0 \<Longrightarrow>
       lock_step faulty dir leaf s
         (acts i (create_mutex_node_complete zk mem rc None (ls_mutex s i)) s)"
| list:
    "ls_phase s i = Listing \<Longrightarrow> names_of strings = ls_nodes s \<Longrightarrow>
       lock_step faulty dir leaf s (at_phase i (Listed strings) s)"
| list_done:
    "ls_phase s i = Listed strings \<Longrightarrow> lawful faulty dir (ls_nodes s) zk \<Longrightarrow>
       lock_step faulty dir leaf s (acts i (leader_get_children_complete zk 0 strings (ls_mutex s i)) s)"
| list_failed:
    "faulty \<Longrightarrow> ls_phase s i = Listing \<Longrightarrow> rc \<noteq> 0 \<Longrightarrow>
       lock_step faulty dir leaf s (acts i (leader_get_children_complete zk rc strings (ls_mutex s i)) s)"
| watch:
    "ls_phase s i = Watching (node_path dir b) \<Longrightarrow> b \<notin> ls_nodes s \<or> faulty \<Longrightarrow>
       lock_step faulty dir leaf s (acts i (ls_mutex s i, previous_leader_watcher (node_path dir b)) s)"
| watch_failed:
    "faulty \<Longrightarrow> ls_phase s i = Watching p \<Longrightarrow> lock_step faulty dir leaf s (at_phase i Stuck s)"
| unlock:
    "ls_phase s i = Leading \<Longrightarrow>
       lock_step faulty dir leaf s (acts i (ls_mutex s i, rb_zk_mutex_unlock True (ls_mutex s i)) s)"
| delete:
    "ls_phase s i = Unlocking \<Longrightarrow> own s i = Some nm \<Longrightarrow>
       lock_step faulty dir leaf s
         ((acts i (ls_mutex s i, delete_mutex_completed (ls_mutex s i)) s)\<lparr>ls_nodes := ls_nodes s - {nm}\<rparr>)"
| expire:
    "faulty \<Longrightarrow> lock_step faulty dir leaf s (s\<lparr>ls_nodes := ls_nodes s - {nm}\<rparr>)"
| disconnected:
    "faulty \<Longrightarrow> lock_step faulty dir leaf s (acts i (ls_mutex s i, rb_zk_mutex_done (ls_mutex s i)) s)"

inductive_cases lock_stepE: "lock_step faulty dir leaf s s'"

definition lock_start :: lock_sys where
  "lock_start =
     \<lparr>ls_nodes = {}, ls_used = {}, ls_mutex = (\<lambda>i. rb_zk_mutex_create_entry []), ls_phase = (\<lambda>i. Idle)\<rparr>"

inductive lock_reach :: "bool \<Rightarrow> string \<Rightarrow> string \<Rightarrow> lock_sys \<Rightarrow> lock_sys \<Rightarrow> bool" for faulty dir leaf s where
  here: "lock_reach faulty dir leaf s s"
| step: "lock_reach faulty dir leaf s t \<Longrightarrow> lock_step faulty dir leaf t u \<Longrightarrow> lock_reach faulty dir leaf s u"

section \<open>The invariant\<close>

text \<open>
  What an attempt knows of the directory: every node below its own that still exists was in its
  answer, is at most the one it watches, or is not there when it leads.
\<close>

fun knows :: "string \<Rightarrow> string set \<Rightarrow> string set \<Rightarrow> lock_phase \<Rightarrow> string \<Rightarrow> bool" where
  "knows dir nodes used (Listed strings) nm \<longleftrightarrow>
     names_of strings \<subseteq> used \<and> (\<forall>n \<in> nodes. n < nm \<longrightarrow> n \<in> names_of strings)"
| "knows dir nodes used (Watching p) nm \<longleftrightarrow>
     (\<exists>b \<in> used. p = node_path dir b \<and> b < nm \<and> (\<forall>n \<in> nodes. n < nm \<longrightarrow> n \<le> b))"
| "knows dir nodes used Leading nm \<longleftrightarrow> (\<forall>n \<in> nodes. nm \<le> n)"
| "knows dir nodes used Unlocking nm \<longleftrightarrow> (\<forall>n \<in> nodes. nm \<le> n)"
| "knows dir nodes used ph nm \<longleftrightarrow> True"

definition placed :: "string \<Rightarrow> lock_phase \<Rightarrow> zk_mutex \<Rightarrow> string \<Rightarrow> bool" where
  "placed dir ph m nm \<longleftrightarrow> (case ph of Created nm' \<Rightarrow> nm' = nm | _ \<Rightarrow> mx_path m = node_path dir nm)"

definition client_ok :: "string \<Rightarrow> string set \<Rightarrow> string set \<Rightarrow> lock_phase \<Rightarrow> zk_mutex \<Rightarrow> bool" where
  "client_ok dir nodes used ph m \<longleftrightarrow>
     ph = Idle \<or> ph = Creating \<or> (\<exists>nm \<in> used. placed dir ph m nm \<and> knows dir nodes used ph nm)"

definition owners_differ :: "lock_sys \<Rightarrow> bool" where
  "owners_differ s \<longleftrightarrow> (\<forall>i j nm. own s i = Some nm \<longrightarrow> own s j = Some nm \<longrightarrow> i = j)"

lemma owners_differD: "owners_differ s \<Longrightarrow> own s i = Some nm \<Longrightarrow> own s j = Some nm \<Longrightarrow> i = j"
  by (simp add: owners_differ_def)

definition lock_inv :: "string \<Rightarrow> lock_sys \<Rightarrow> bool" where
  "lock_inv dir s \<longleftrightarrow>
     ls_nodes s \<subseteq> ls_used s \<and> finite (ls_used s) \<and> (\<forall>u \<in> ls_used s. name_ok dir u) \<and>
     (\<forall>i. client_ok dir (ls_nodes s) (ls_used s) (ls_phase s i) (ls_mutex s i)) \<and>
     owners_differ s"

lemma last_separator_node_path: "name_ok dir nm \<Longrightarrow> last_separator (node_path dir nm) = Some (dir, nm)"
  by (simp add: node_path_def name_ok_def last_separator_append)

lemma directory_of_node_path: "name_ok dir nm \<Longrightarrow> directory_of (node_path dir nm) = dir"
  unfolding node_path_def by (rule directory_of_node) (simp_all add: name_ok_def)

lemma placed_node_of:
  "name_ok dir nm \<Longrightarrow> placed dir ph m nm \<Longrightarrow> ph \<noteq> Idle \<Longrightarrow> ph \<noteq> Creating \<Longrightarrow> node_of ph m = Some nm"
  by (cases ph) (simp_all add: placed_def last_separator_node_path)

lemma knows_fewer: "knows dir nodes used ph nm \<Longrightarrow> nodes' \<subseteq> nodes \<Longrightarrow> knows dir nodes' used ph nm"
  by (cases ph) fastforce+

lemma knows_more:
  "knows dir nodes used ph nm \<Longrightarrow> nm \<in> used \<Longrightarrow> \<forall>u \<in> used. u < new \<Longrightarrow>
     knows dir (insert new nodes) (insert new used) ph nm"
proof -
  assume kn: "knows dir nodes used ph nm" and "nm \<in> used" "\<forall>u \<in> used. u < new"
  then have "nm < new" by blast
  then have later: "\<not> new < nm" "nm \<le> new" by (auto dest: order.asym)
  show ?thesis
  proof (cases ph)
    case (Watching p)
    with kn obtain b where "b \<in> used" "p = node_path dir b" "b < nm" "\<forall>n \<in> nodes. n < nm \<longrightarrow> n \<le> b" by auto
    then show ?thesis using later Watching by (auto intro!: bexI [of _ b])
  qed (use kn later in auto)
qed

lemma client_ok_fewer: "client_ok dir nodes used ph m \<Longrightarrow> nodes' \<subseteq> nodes \<Longrightarrow> client_ok dir nodes' used ph m"
  unfolding client_ok_def using knows_fewer by blast

lemma client_ok_more:
  "client_ok dir nodes used ph m \<Longrightarrow> \<forall>u \<in> used. u < new \<Longrightarrow>
     client_ok dir (insert new nodes) (insert new used) ph m"
  unfolding client_ok_def using knows_more by blast

lemma lock_inv_own:
  assumes "lock_inv dir s" and "own s i = Some nm"
  shows "nm \<in> ls_used s \<and> name_ok dir nm \<and> placed dir (ls_phase s i) (ls_mutex s i) nm
     \<and> knows dir (ls_nodes s) (ls_used s) (ls_phase s i) nm"
proof -
  have "ls_phase s i \<noteq> Idle" "ls_phase s i \<noteq> Creating" using assms(2) by (auto simp: own_def)
  moreover have "client_ok dir (ls_nodes s) (ls_used s) (ls_phase s i) (ls_mutex s i)"
    using assms(1) by (simp add: lock_inv_def)
  ultimately obtain nm' where nm': "nm' \<in> ls_used s" "placed dir (ls_phase s i) (ls_mutex s i) nm'"
    "knows dir (ls_nodes s) (ls_used s) (ls_phase s i) nm'" by (auto simp: client_ok_def)
  have "name_ok dir nm'" using assms(1) nm'(1) by (simp add: lock_inv_def)
  with nm' \<open>ls_phase s i \<noteq> Idle\<close> \<open>ls_phase s i \<noteq> Creating\<close> have "own s i = Some nm'"
    by (simp add: own_def placed_node_of)
  with assms(2) nm' \<open>name_ok dir nm'\<close> show ?thesis by simp
qed

lemma lock_inv_has_node:
  assumes "lock_inv dir s" and "ls_phase s i \<noteq> Idle" and "ls_phase s i \<noteq> Creating"
  obtains nm where "own s i = Some nm"
proof -
  obtain nm where "nm \<in> ls_used s" "placed dir (ls_phase s i) (ls_mutex s i) nm"
    using assms by (auto simp: lock_inv_def client_ok_def)
  moreover have "name_ok dir nm" using assms(1) calculation(1) by (simp add: lock_inv_def)
  ultimately have "own s i = Some nm" using assms(2,3) by (simp add: own_def placed_node_of)
  then show thesis by (rule that)
qed

text \<open>
  A client that moves without touching the directory keeps the invariant when it keeps its node or
  drops it, and knows what its new place asks.
\<close>

lemma own_moved [simp]:
  "own (s\<lparr>ls_mutex := (ls_mutex s)(i := m), ls_phase := (ls_phase s)(i := ph)\<rparr>) j
     = (if j = i then node_of ph m else own s j)"
  by (simp add: own_def)

lemma lock_inv_move:
  assumes inv: "lock_inv dir s"
    and ok: "client_ok dir (ls_nodes s) (ls_used s) ph m"
    and node: "node_of ph m = None \<or> node_of ph m = own s i"
  shows "lock_inv dir (s\<lparr>ls_mutex := (ls_mutex s)(i := m), ls_phase := (ls_phase s)(i := ph)\<rparr>)"
proof -
  have "owners_differ (s\<lparr>ls_mutex := (ls_mutex s)(i := m), ls_phase := (ls_phase s)(i := ph)\<rparr>)"
    unfolding owners_differ_def own_moved
  proof (intro allI impI)
    fix j k nm
    assume "(if j = i then node_of ph m else own s j) = Some nm"
      and "(if k = i then node_of ph m else own s k) = Some nm"
    then show "j = k"
      using node inv owners_differD [of s _ nm] unfolding lock_inv_def by (metis option.distinct(1))
  qed
  then show ?thesis using inv ok by (simp add: lock_inv_def)
qed

lemma lock_inv_remove:
  assumes "lock_inv dir s" and "nodes' \<subseteq> ls_nodes s"
  shows "lock_inv dir (s\<lparr>ls_nodes := nodes'\<rparr>)"
proof -
  have "owners_differ (s\<lparr>ls_nodes := nodes'\<rparr>) = owners_differ s" by (simp add: owners_differ_def own_def)
  then show ?thesis using assms client_ok_fewer [OF _ assms(2)] by (auto simp: lock_inv_def)
qed

text \<open>Two ways to move: to a place without a node, or on with the same node.\<close>

lemma lock_inv_quit:
  assumes "lock_inv dir s" and "next_phase (snd r) \<in> {Idle, Creating}"
  shows "lock_inv dir (acts i r s)"
  unfolding acts_def by (rule lock_inv_move [OF assms(1)]) (use assms(2) in \<open>auto simp: client_ok_def\<close>)

lemma lock_inv_stay:
  assumes inv: "lock_inv dir s" and own: "own s i = Some nm" and path: "mx_path m = node_path dir nm"
    and ph: "ph \<notin> {Idle, Creating}" "\<And>n. ph \<noteq> Created n"
    and kn: "knows dir (ls_nodes s) (ls_used s) ph nm"
  shows "lock_inv dir (s\<lparr>ls_mutex := (ls_mutex s)(i := m), ls_phase := (ls_phase s)(i := ph)\<rparr>)"
proof (rule lock_inv_move [OF inv])
  have nm: "nm \<in> ls_used s" "name_ok dir nm" using lock_inv_own [OF inv own] by auto
  have pl: "placed dir ph m nm" using path ph by (simp add: placed_def split: lock_phase.split)
  show "client_ok dir (ls_nodes s) (ls_used s) ph m" using nm(1) pl kn by (auto simp: client_ok_def)
  show "node_of ph m = None \<or> node_of ph m = own s i" using placed_node_of [OF nm(2) pl] ph own by auto
qed

lemma lock_inv_path:
  assumes "lock_inv dir s" and "own s i = Some nm" and "\<And>n. ls_phase s i \<noteq> Created n"
  shows "mx_path (ls_mutex s i) = node_path dir nm"
  using lock_inv_own [OF assms(1,2)] assms(3) by (auto simp: placed_def split: lock_phase.splits)

text \<open>What the handlers leave.\<close>

lemma next_phase_simps [simp]:
  "next_phase [Called (Acreate_lock p)] = Creating"
  "next_phase [Called (Aget_children p)] = Listing"
  "next_phase [Called (Wexists p)] = Watching p"
  "next_phase [Called (Adelete q)] = Unlocking"
  "next_phase [Mutex_status True] = Leading"
  "next_phase [] = Stuck"
  "Mutex_freed \<in> set es \<Longrightarrow> next_phase es = Idle"
  by (simp_all add: next_phase_def)

lemma freed_by_error [simp]:
  "Mutex_freed \<in> set (rb_zk_mutex_error_done m rc e)" "Mutex_freed \<in> set (rb_zk_mutex_done m)"
  "Mutex_freed \<in> set (delete_mutex_completed m)"
  by (simp_all add: rb_zk_mutex_error_done_def rb_zk_mutex_done_def delete_mutex_completed_def)

lemma lock0_phase: "next_phase (rb_zk_mutex_lock0 zk m) \<in> {Idle, Creating}"
  by (simp add: rb_zk_mutex_lock0_def Let_def)

lemma create_failed_phase: "rc \<noteq> 0 \<Longrightarrow> next_phase (snd (create_mutex_node_complete zk mem rc p m)) = Idle"
  by (simp add: create_mutex_node_complete_def)

lemma create_done_phase:
  assumes "name_ok dir nm"
  shows "next_phase (snd (create_mutex_node_complete zk mem 0 (Some (node_path dir nm)) m)) = Idle
    \<or> create_mutex_node_complete zk mem 0 (Some (node_path dir nm)) m
        = (m\<lparr>mx_path := node_path dir nm\<rparr>, [Called (Aget_children dir)])"
  using assms by (simp add: create_mutex_node_complete_def Let_def directory_of_node_path)

lemma list_done_phase [consumes 3, case_names leads waits lost]:
  assumes nm: "name_ok dir nm" and path: "mx_path m = node_path dir nm"
    and names: "\<forall>n \<in> names_of strings. name_ok dir n"
  obtains (leads) "\<forall>n \<in> names_of strings. nm \<le> n"
      and "leader_get_children_complete zk 0 strings m = (m\<lparr>mx_leader := True\<rparr>, [Mutex_status True])"
  | (waits) b where "b \<in> names_of strings" "b < nm" "\<forall>n \<in> names_of strings. n < nm \<longrightarrow> n \<le> b"
      and "zk (Wexists (node_path dir b)) = 0"
      and "leader_get_children_complete zk 0 strings m = (m, [Called (Wexists (node_path dir b))])"
  | (lost) b where "b \<in> names_of strings" "b < nm" "\<forall>n \<in> names_of strings. n < nm \<longrightarrow> n \<le> b"
      and "zk (Wexists (node_path dir b)) \<noteq> 0"
      and "next_phase (snd (leader_get_children_complete zk 0 strings m)) = Idle"
proof -
  have "CHR ''/'' \<notin> set nm" "mx_path m = dir @ CHR ''/'' # nm" "length dir + length nm + 1 < BUFSIZ - 1"
    "\<forall>n \<in> names_of strings. length dir + length n + 1 < BUFSIZ - 1"
    using nm path names by (simp_all add: name_ok_def node_path_def)
  then show thesis
  proof (cases rule: leader_get_children_cases [where zk = zk])
    case leads
    with that(1) show thesis by simp
  next
    case (waits b)
    show thesis
    proof (cases "zk (Wexists (node_path dir b)) = 0")
      case True
      with waits show thesis by (intro that(2) [of b]) (simp_all add: node_path_def)
    next
      case False
      with waits show thesis by (intro that(3) [of b]) (simp_all add: node_path_def)
    qed
  qed
qed

section \<open>Every step keeps the invariant\<close>

lemma listed_names_ok:
  assumes "lock_inv dir s" and "own s i = Some nm" and "ls_phase s i = Listed strings"
  shows "names_of strings \<subseteq> ls_used s" and "\<forall>n \<in> names_of strings. name_ok dir n"
    and "\<forall>n \<in> ls_nodes s. n < nm \<longrightarrow> n \<in> names_of strings"
  using lock_inv_own [OF assms(1,2)] assms(1,3) by (auto simp: lock_inv_def)

lemma lock_inv_list_done:
  assumes inv: "lock_inv dir s" and at: "ls_phase s i = Listed strings"
  shows "lock_inv dir (acts i (leader_get_children_complete zk 0 strings (ls_mutex s i)) s)"
proof -
  obtain nm where own: "own s i = Some nm" using lock_inv_has_node [OF inv, of i] at by auto
  note names = listed_names_ok [OF inv own at]
  have nm: "name_ok dir nm" using lock_inv_own [OF inv own] by simp
  have path: "mx_path (ls_mutex s i) = node_path dir nm" using lock_inv_path [OF inv own] at by simp
  from nm path names(2) show ?thesis
  proof (cases rule: list_done_phase [where zk = zk])
    case leads
    then have "\<forall>n \<in> ls_nodes s. nm \<le> n" using names(3) by (meson not_le)
    then show ?thesis
      unfolding leads(2) acts_def fst_conv snd_conv by (intro lock_inv_stay [OF inv own]) (simp_all add: path)
  next
    case (waits b)
    then have "b \<in> ls_used s" using names(1) by blast
    moreover have "\<forall>n \<in> ls_nodes s. n < nm \<longrightarrow> n \<le> b" using waits(3) names(3) by blast
    ultimately show ?thesis
      unfolding waits(5) acts_def fst_conv snd_conv using waits(2)
      by (intro lock_inv_stay [OF inv own]) (auto simp: path)
  next
    case (lost b)
    then show ?thesis by (intro lock_inv_quit [OF inv]) simp
  qed
qed

lemma lock_inv_create_done:
  assumes inv: "lock_inv dir s" and at: "ls_phase s i = Created nm"
  shows "lock_inv dir (acts i (create_mutex_node_complete zk mem 0 (Some (node_path dir nm)) (ls_mutex s i)) s)"
proof -
  have own: "own s i = Some nm" using at by (simp add: own_def)
  then have nm: "name_ok dir nm" using lock_inv_own [OF inv] by simp
  from create_done_phase [OF nm, of zk mem "ls_mutex s i"] show ?thesis
  proof
    assume went: "create_mutex_node_complete zk mem 0 (Some (node_path dir nm)) (ls_mutex s i)
      = (ls_mutex s i\<lparr>mx_path := node_path dir nm\<rparr>, [Called (Aget_children dir)])"
    show ?thesis
      unfolding went acts_def fst_conv snd_conv by (intro lock_inv_stay [OF inv own]) simp_all
  qed (simp add: lock_inv_quit [OF inv])
qed

text \<open>A callback after which the attempt still has its node and knows nothing new.\<close>

lemma lock_inv_known_phase:
  assumes inv: "lock_inv dir s"
    and at: "ls_phase s i \<notin> {Idle, Creating}" "\<And>n. ls_phase s i \<noteq> Created n"
    and ph: "ph \<in> {Listing, Stuck}"
  shows "lock_inv dir (s\<lparr>ls_mutex := (ls_mutex s)(i := ls_mutex s i), ls_phase := (ls_phase s)(i := ph)\<rparr>)"
proof -
  obtain nm where own: "own s i = Some nm" using lock_inv_has_node [OF inv] at by auto
  show ?thesis
    by (intro lock_inv_stay [OF inv own]) (use ph lock_inv_path [OF inv own at(2)] in auto)
qed

lemma at_phase_move:
  "at_phase i ph s = s\<lparr>ls_mutex := (ls_mutex s)(i := ls_mutex s i), ls_phase := (ls_phase s)(i := ph)\<rparr>"
  by (simp add: at_phase_def)

lemma lock_inv_create:
  assumes inv: "lock_inv dir s" and at: "ls_phase s i = Creating" and nm: "name_ok dir nm"
    and fresh: "\<forall>u \<in> ls_used s. u < nm"
  shows "lock_inv dir ((at_phase i (Created nm) s)\<lparr>ls_nodes := insert nm (ls_nodes s), ls_used := insert nm (ls_used s)\<rparr>)"
    (is "lock_inv dir ?t")
proof -
  have own: "own ?t j = (if j = i then Some nm else own s j)" for j
    by (simp add: own_def at_phase_def)
  have new: "own s j \<noteq> Some nm" for j using lock_inv_own [OF inv, of j nm] fresh by auto
  have "owners_differ s" using inv by (simp add: lock_inv_def)
  then have "owners_differ ?t" unfolding owners_differ_def own using new by (metis option.inject)
  moreover have "client_ok dir (insert nm (ls_nodes s)) (insert nm (ls_used s)) (ls_phase ?t j) (ls_mutex ?t j)" for j
  proof (cases "j = i")
    case True
    then show ?thesis by (simp add: client_ok_def at_phase_def placed_def)
  next
    case False
    have "client_ok dir (ls_nodes s) (ls_used s) (ls_phase s j) (ls_mutex s j)"
      using inv by (simp add: lock_inv_def)
    from client_ok_more [OF this fresh] False show ?thesis by (simp add: at_phase_def)
  qed
  ultimately show ?thesis using inv nm by (auto simp: lock_inv_def)
qed

lemma lock_inv_step:
  assumes "lock_inv dir s" and "lock_step faulty dir leaf s t"
  shows "lock_inv dir t"
  using assms(2)
proof (cases rule: lock_step.cases)
  case (ask i zk m)
  then show ?thesis using lock_inv_quit [OF assms(1)] lock0_phase by simp
next
  case (create i nm)
  then show ?thesis using lock_inv_create [OF assms(1)] by simp
next
  case (create_done i nm zk mem)
  then show ?thesis using lock_inv_create_done [OF assms(1)] by simp
next
  case (create_failed i rc zk mem)
  then show ?thesis using lock_inv_quit [OF assms(1)] create_failed_phase by simp
next
  case (list i strings)
  obtain nm where own: "own s i = Some nm" using lock_inv_has_node [OF assms(1), of i] list by auto
  have "ls_nodes s \<subseteq> ls_used s" using assms(1) by (simp add: lock_inv_def)
  then show ?thesis
    unfolding list(1) at_phase_move
    by (intro lock_inv_stay [OF assms(1) own]) (use list lock_inv_path [OF assms(1) own] in auto)
next
  case (list_done i strings zk)
  then show ?thesis using lock_inv_list_done [OF assms(1)] by simp
next
  case (list_failed i rc zk strings)
  have "leader_get_children_complete zk rc strings (ls_mutex s i) = (ls_mutex s i, [])"
    using list_failed by (simp add: leader_get_children_complete_def)
  then show ?thesis
    unfolding list_failed(1) using lock_inv_known_phase [OF assms(1), of i Stuck] list_failed
    by (simp add: acts_def)
next
  case (watch i b)
  then show ?thesis
    using lock_inv_known_phase [OF assms(1), of i Listing]
    by (simp add: acts_def previous_leader_watcher_def)
next
  case (watch_failed i p)
  then show ?thesis
    using lock_inv_known_phase [OF assms(1), of i Stuck] by (simp add: at_phase_move)
next
  case (unlock i)
  obtain nm where own: "own s i = Some nm" using lock_inv_has_node [OF assms(1), of i] unlock by auto
  have "\<forall>n \<in> ls_nodes s. nm \<le> n" using lock_inv_own [OF assms(1) own] unlock by simp
  then show ?thesis
    unfolding unlock(1) acts_def fst_conv snd_conv rb_zk_mutex_unlock_def
    by (intro lock_inv_stay [OF assms(1) own]) (use unlock lock_inv_path [OF assms(1) own] in auto)
next
  case (delete i nm)
  have "lock_inv dir (acts i (ls_mutex s i, delete_mutex_completed (ls_mutex s i)) s)"
    by (rule lock_inv_quit [OF assms(1)]) simp
  from lock_inv_remove [OF this, of "ls_nodes s - {nm}"] show ?thesis
    unfolding delete(1) by (simp add: acts_def)
next
  case (expire nm)
  then show ?thesis using lock_inv_remove [OF assms(1), of "ls_nodes s - {nm}"] by simp
next
  case (disconnected i)
  then show ?thesis using lock_inv_quit [OF assms(1)] by simp
qed

lemma lock_inv_start: "lock_inv dir lock_start"
  by (simp add: lock_inv_def lock_start_def client_ok_def owners_differ_def own_def)

lemma lock_inv_reach: "lock_reach faulty dir leaf s t \<Longrightarrow> lock_inv dir s \<Longrightarrow> lock_inv dir t"
  by (induction rule: lock_reach.induct) (auto intro: lock_inv_step)

end
