(* ===== verification/Zk_Progress.thy ===== *)
theory Zk_Progress
  imports Zk_Lock
begin

text \<open>
  What the lock of Zk_Lock gives its users: at most one attempt whose node exists leads; the attempt
  with the lowest node can go on to lead by its own callbacks; and an attempt that loses the race
  between listing and watching leaves its node behind, after which nobody leads any more.
\<close>

section \<open>Mutual exclusion\<close>

lemma leader_is_lowest:
  assumes "lock_inv dir s" and "ls_phase s i = Leading" and "own s i = Some nm"
  shows "\<forall>n \<in> ls_nodes s. nm \<le> n"
  using lock_inv_own [OF assms(1,3)] assms(2) by simp

lemma one_leader:
  assumes "lock_inv dir s"
    and "ls_phase s i = Leading" "own s i = Some n" "n \<in> ls_nodes s"
    and "ls_phase s j = Leading" "own s j = Some m" "m \<in> ls_nodes s"
  shows "i = j"
proof -
  have "n = m"
    using leader_is_lowest [OF assms(1,2,3)] leader_is_lowest [OF assms(1,5,6)] assms(4,7)
    by (auto intro: order.antisym)
  moreover have "owners_differ s" using assms(1) by (simp add: lock_inv_def)
  ultimately show ?thesis using owners_differD assms(3,6) by blast
qed

section \<open>Runs of one client\<close>

lemma lock_reach_trans:
  "lock_reach faulty dir leaf t u \<Longrightarrow> lock_reach faulty dir leaf s t \<Longrightarrow> lock_reach faulty dir leaf s u"
  by (induction rule: lock_reach.induct) (auto intro: lock_reach.step)

lemma lock_reach_first:
  "lock_step faulty dir leaf s t \<Longrightarrow> lock_reach faulty dir leaf t u \<Longrightarrow> lock_reach faulty dir leaf s u"
  using lock_reach_trans [OF _ lock_reach.step [OF lock_reach.here]] .

text \<open>The answers of a server that is up.\<close>

definition answers :: "string \<Rightarrow> string set \<Rightarrow> zk_rc" where
  "answers dir nodes c =
     (case c of Wexists p \<Rightarrow> if p \<in> node_path dir ` nodes then 0 else - 101 | _ \<Rightarrow> 0)"

lemma node_path_inject [simp]: "node_path dir a = node_path dir b \<longleftrightarrow> a = b"
  by (simp add: node_path_def)

lemma lawful_answers: "lawful faulty dir nodes (answers dir nodes)"
  by (auto simp: lawful_def answers_def split: if_splits zk_call.splits)

lemma listing_exists:
  assumes "finite nodes"
  obtains strings where "names_of strings = nodes"
proof -
  obtain xs where "set xs = nodes" using finite_list [OF assms] by blast
  then show thesis by (intro that [of "map Some xs"]) (auto simp: names_of_def)
qed

text \<open>From an answer without a lower name to leading.\<close>

lemma fresh_answer_leads:
  assumes inv: "lock_inv dir s" and at: "ls_phase s i = Listed strings" and own: "own s i = Some nm"
    and low: "\<forall>n \<in> names_of strings. nm \<le> n"
  shows "lock_reach False dir leaf s (acts i ((ls_mutex s i)\<lparr>mx_leader := True\<rparr>, [Mutex_status True]) s)"
proof -
  let ?zk = "answers dir (ls_nodes s)"
  have nm: "name_ok dir nm" using lock_inv_own [OF inv own] by simp
  have path: "mx_path (ls_mutex s i) = node_path dir nm" using lock_inv_path [OF inv own] at by simp
  from nm path listed_names_ok(2) [OF inv own at]
  have "leader_get_children_complete ?zk 0 strings (ls_mutex s i)
      = (ls_mutex s i\<lparr>mx_leader := True\<rparr>, [Mutex_status True])"
    using low by (cases rule: list_done_phase [where zk = ?zk]) auto
  then show ?thesis
    using lock_reach.step [OF lock_reach.here lock_step.list_done [OF at lawful_answers]] by metis
qed

text \<open>From asking for the children to leading, when the own node is the lowest.\<close>

lemma listing_leads:
  assumes inv: "lock_inv dir s" and at: "ls_phase s i = Listing" and own: "own s i = Some nm"
    and low: "\<forall>n \<in> ls_nodes s. nm \<le> n"
  shows "\<exists>t. lock_reach False dir leaf s t \<and> ls_phase t i = Leading \<and> ls_nodes t = ls_nodes s
     \<and> (\<forall>j. j \<noteq> i \<longrightarrow> ls_phase t j = ls_phase s j)"
proof -
  have "finite (ls_nodes s)" using inv by (auto simp: lock_inv_def intro: finite_subset)
  then obtain strings where strings: "names_of strings = ls_nodes s" by (rule listing_exists)
  let ?t = "at_phase i (Listed strings) s"
  have st: "lock_step False dir leaf s ?t" by (rule lock_step.list [OF at strings])
  have "own ?t i = Some nm" using own at by (simp add: own_def at_phase_def)
  then have "lock_reach False dir leaf ?t
      (acts i ((ls_mutex ?t i)\<lparr>mx_leader := True\<rparr>, [Mutex_status True]) ?t)"
    by (intro fresh_answer_leads [OF lock_inv_step [OF inv st]]) (use strings low in \<open>auto simp: at_phase_def\<close>)
  from lock_reach_first [OF st this] show ?thesis
    by (intro exI conjI, assumption) (auto simp: acts_def at_phase_def)
qed

lemma step_then_leads:
  assumes "lock_step False dir leaf s t" and "ls_nodes t = ls_nodes s" and "\<forall>j. j \<noteq> i \<longrightarrow> ls_phase t j = ls_phase s j"
    and "lock_inv dir s" and "ls_phase t i = Listing" and "own t i = Some nm" and "\<forall>n \<in> ls_nodes s. nm \<le> n"
  shows "\<exists>u. lock_reach False dir leaf s u \<and> ls_phase u i = Leading \<and> ls_nodes u = ls_nodes s
     \<and> (\<forall>j. j \<noteq> i \<longrightarrow> ls_phase u j = ls_phase s j)"
  using listing_leads [OF lock_inv_step [OF assms(4,1)] assms(5,6), of leaf] lock_reach_first [OF assms(1)]
    assms(2,3,7) by metis

lemma lowest_attempt_leads:
  assumes inv: "lock_inv dir s" and own: "own s i = Some nm" and node: "nm \<in> ls_nodes s"
    and low: "\<forall>n \<in> ls_nodes s. nm \<le> n"
    and alive: "ls_phase s i \<noteq> Stuck" "ls_phase s i \<noteq> Unlocking"
    and fresh: "\<And>strings. ls_phase s i = Listed strings \<Longrightarrow> \<forall>n \<in> names_of strings. nm \<le> n"
  shows "\<exists>t. lock_reach False dir leaf s t \<and> ls_phase t i = Leading \<and> ls_nodes t = ls_nodes s
     \<and> (\<forall>j. j \<noteq> i \<longrightarrow> ls_phase t j = ls_phase s j)"
proof (cases "ls_phase s i")
  case (Created nm')
  then have nm': "nm' = nm" and nm: "name_ok dir nm"
    using own lock_inv_own [OF inv own] by (simp_all add: own_def)
  let ?zk = "answers dir (ls_nodes s)"
  let ?t = "acts i (create_mutex_node_complete ?zk True 0 (Some (node_path dir nm)) (ls_mutex s i)) s"
  have "create_mutex_node_complete ?zk True 0 (Some (node_path dir nm)) (ls_mutex s i)
      = (ls_mutex s i\<lparr>mx_path := node_path dir nm\<rparr>, [Called (Aget_children dir)])"
    using nm by (simp add: create_mutex_node_complete_def Let_def directory_of_node_path answers_def)
  then have t: "?t = s\<lparr>ls_mutex := (ls_mutex s)(i := ls_mutex s i\<lparr>mx_path := node_path dir nm\<rparr>),
      ls_phase := (ls_phase s)(i := Listing)\<rparr>" by (simp add: acts_def)
  have "lock_step False dir leaf s ?t"
    by (rule lock_step.create_done) (use Created nm' in \<open>auto simp: lawful_answers\<close>)
  then show ?thesis
    by (rule step_then_leads [OF _ _ _ inv]) (use low nm in \<open>auto simp: t own_def last_separator_node_path\<close>)
next
  case Listing
  then show ?thesis using listing_leads [OF inv _ own low] by simp
next
  case (Listed strings)
  show ?thesis
    using fresh_answer_leads [OF inv Listed own fresh [OF Listed], of leaf]
    by (intro exI conjI, assumption) (auto simp: acts_def)
next
  case (Watching p)
  then obtain b where p: "p = node_path dir b" "b < nm" and b: "b \<in> ls_used s"
    using lock_inv_own [OF inv own] by auto
  have gone: "b \<notin> ls_nodes s" using low p(2) by (auto dest: leD)
  have "name_ok dir b" using inv b by (simp add: lock_inv_def)
  then have w: "previous_leader_watcher (node_path dir b) = [Called (Aget_children dir)]"
    by (simp add: previous_leader_watcher_def directory_of_node_path)
  let ?t = "acts i (ls_mutex s i, previous_leader_watcher (node_path dir b)) s"
  have "lock_step False dir leaf s ?t"
    by (rule lock_step.watch) (use Watching p gone in auto)
  then show ?thesis
    by (rule step_then_leads [OF _ _ _ inv]) (use low own Watching in \<open>auto simp: w acts_def own_def\<close>)
next
  case Leading
  then show ?thesis by (intro exI [of _ s] conjI) (auto intro: lock_reach.here)
qed (use own alive in \<open>auto simp: own_def\<close>)

section \<open>A node nobody answers for\<close>

text \<open>What a step does to the nodes the attempts own: one keeps it, drops it, or gets a new, greater one.\<close>

lemma own_acts: "own (acts i r s) j = (if j = i then node_of (next_phase (snd r)) (fst r) else own s j)"
  by (simp add: acts_def own_def)

lemma own_at_phase: "own (at_phase i ph s) j = (if j = i then node_of ph (ls_mutex s i) else own s j)"
  by (simp add: at_phase_def own_def)

lemma node_of_quit: "next_phase es \<in> {Idle, Creating} \<Longrightarrow> node_of (next_phase es) m = None"
  by auto

lemma list_done_own:
  assumes inv: "lock_inv dir s" and at: "ls_phase s i = Listed strings"
    and r: "r = leader_get_children_complete zk 0 strings (ls_mutex s i)"
  shows "node_of (next_phase (snd r)) (fst r) \<in> {None, own s i}"
proof -
  obtain nm where own: "own s i = Some nm" using lock_inv_has_node [OF inv, of i] at by auto
  have nm: "name_ok dir nm" using lock_inv_own [OF inv own] by simp
  have path: "mx_path (ls_mutex s i) = node_path dir nm" using lock_inv_path [OF inv own] at by simp
  from nm path listed_names_ok(2) [OF inv own at] show ?thesis
    by (cases rule: list_done_phase [where zk = zk])
      (auto simp: r own path last_separator_node_path [OF nm])
qed

lemma own_step:
  assumes inv: "lock_inv dir s" and st: "lock_step False dir leaf s t"
  shows "own t j = None \<or> own t j = own s j \<or> (\<exists>nm. own t j = Some nm \<and> (\<forall>u \<in> ls_used s. u < nm))"
  using st
proof (cases rule: lock_step.cases)
  case (ask i zk m)
  then show ?thesis using node_of_quit [OF lock0_phase] by (simp add: own_acts)
next
  case (create i nm)
  then show ?thesis by (simp add: own_def at_phase_def)
next
  case (create_done i nm zk mem)
  have own: "own s i = Some nm" using create_done by (simp add: own_def)
  then have nm: "name_ok dir nm" using lock_inv_own [OF inv] by simp
  show ?thesis
    using create_done_phase [OF nm, of zk mem "ls_mutex s i"] own
    by (auto simp: create_done(1) own_acts last_separator_node_path [OF nm])
next
  case (list i strings)
  then have "node_of (Listed strings) (ls_mutex s i) = own s i" by (simp add: own_def)
  then show ?thesis by (simp add: list(1) own_at_phase)
next
  case (list_done i strings zk)
  from list_done_own [OF inv list_done(2) refl, of zk] show ?thesis
    unfolding list_done(1) own_acts by (cases "j = i") auto
next
  case (watch i b)
  have "node_of Listing (ls_mutex s i) = own s i" using watch by (simp add: own_def)
  then show ?thesis by (simp add: watch(1) own_acts previous_leader_watcher_def)
next
  case (unlock i)
  have "node_of Unlocking (ls_mutex s i) = own s i" using unlock by (simp add: own_def)
  then show ?thesis by (simp add: unlock(1) own_acts rb_zk_mutex_unlock_def)
next
  case (delete i nm)
  have "own t j = own (acts i (ls_mutex s i, delete_mutex_completed (ls_mutex s i)) s) j"
    by (simp add: delete(1) own_def)
  then show ?thesis by (auto simp: own_acts)
qed simp_all

text \<open>Without faults a node that nobody owns stays, and blocks everyone above it.\<close>

definition orphaned :: "string \<Rightarrow> lock_sys \<Rightarrow> bool" where
  "orphaned n s \<longleftrightarrow> n \<in> ls_nodes s \<and> (\<forall>j m. own s j = Some m \<longrightarrow> n < m)"

lemma orphan_node_stays:
  assumes "orphaned n s" and "lock_step False dir leaf s t"
  shows "n \<in> ls_nodes t"
  using assms(2)
proof (cases rule: lock_step.cases)
  case (delete i nm)
  have "nm \<noteq> n" using assms(1) delete unfolding orphaned_def by auto
  then show ?thesis using assms(1) delete by (auto simp: orphaned_def acts_def)
qed (use assms(1) in \<open>auto simp: orphaned_def acts_def at_phase_def\<close>)

lemma orphaned_step:
  assumes "lock_inv dir s" and "orphaned n s" and "lock_step False dir leaf s t"
  shows "orphaned n t"
proof -
  have used: "n \<in> ls_used s" using assms(1,2) by (auto simp: lock_inv_def orphaned_def)
  have "n < m" if "own t j = Some m" for j m
    using own_step [OF assms(1,3), of j] that used assms(2) unfolding orphaned_def by auto
  then show ?thesis using orphan_node_stays [OF assms(2,3)] by (simp add: orphaned_def)
qed

lemma orphaned_no_leader:
  assumes "lock_inv dir s" and "orphaned n s"
  shows "ls_phase s j \<noteq> Leading"
proof
  assume lead: "ls_phase s j = Leading"
  obtain m where m: "own s j = Some m" using lock_inv_has_node [OF assms(1), of j] lead by auto
  have "m \<le> n" using leader_is_lowest [OF assms(1) lead m] assms(2) by (simp add: orphaned_def)
  moreover have "n < m" using assms(2) m by (auto simp: orphaned_def)
  ultimately show False by simp
qed

lemma orphaned_blocks:
  assumes "lock_reach False dir leaf s t" and "lock_inv dir s" and "orphaned n s"
  shows "orphaned n t \<and> ls_phase t j \<noteq> Leading"
proof -
  have "lock_inv dir t \<and> orphaned n t"
    using assms by (induction rule: lock_reach.induct) (auto intro: lock_inv_step orphaned_step)
  then show ?thesis using orphaned_no_leader by blast
qed

text \<open>
  The race: an attempt whose answer is old finds the node it should watch gone, \<open>zoo_wexists\<close> does
  not return 0, and the attempt is given up with its node in place.
\<close>

lemma lost_race_orphans:
  assumes inv: "lock_inv dir s" and at: "ls_phase s i = Listed strings" and own: "own s i = Some nm"
    and node: "nm \<in> ls_nodes s" and low: "\<forall>n \<in> ls_nodes s. nm \<le> n"
    and others: "\<forall>j m. j \<noteq> i \<longrightarrow> own s j = Some m \<longrightarrow> nm < m"
    and old: "n \<in> names_of strings" "n < nm" and zk: "lawful False dir (ls_nodes s) zk"
  shows "ls_phase (acts i (leader_get_children_complete zk 0 strings (ls_mutex s i)) s) i = Idle
     \<and> orphaned nm (acts i (leader_get_children_complete zk 0 strings (ls_mutex s i)) s)"
proof -
  have nm: "name_ok dir nm" using lock_inv_own [OF inv own] by simp
  have path: "mx_path (ls_mutex s i) = node_path dir nm" using lock_inv_path [OF inv own] at by simp
  note names = listed_names_ok(2) [OF inv own at]
  from nm path names have "next_phase (snd (leader_get_children_complete zk 0 strings (ls_mutex s i))) = Idle"
  proof (cases rule: list_done_phase [where zk = zk])
    case leads
    then show ?thesis using old by (auto dest: leD)
  next
    case (waits b)
    have "b \<in> ls_nodes s" using zk waits(1,4) names unfolding lawful_def by blast
    then show ?thesis using low waits(2) by (auto dest: leD)
  qed
  then show ?thesis
    using others node by (auto simp: orphaned_def own_acts acts_def own_def)
qed

section \<open>A run\<close>

text \<open>An attempt up to its answer, and one from leading to its end.\<close>

definition attempt_mutex :: "string \<Rightarrow> string \<Rightarrow> zk_mutex" where
  "attempt_mutex dir nm = \<lparr>mx_path = node_path dir nm, mx_leader = False, mx_error_cb = True\<rparr>"

definition after_listing :: "string \<Rightarrow> nat \<Rightarrow> string \<Rightarrow> string option list \<Rightarrow> lock_sys \<Rightarrow> lock_sys" where
  "after_listing dir i nm strings s =
     \<lparr>ls_nodes = insert nm (ls_nodes s), ls_used = insert nm (ls_used s),
      ls_mutex = (ls_mutex s)(i := attempt_mutex dir nm), ls_phase = (ls_phase s)(i := Listed strings)\<rparr>"

lemma attempt_to_listing:
  assumes idle: "ls_phase s i = Idle" and nm: "name_ok dir nm" and fresh: "\<forall>u \<in> ls_used s. u < nm"
    and strings: "names_of strings = insert nm (ls_nodes s)"
  shows "lock_reach False dir leaf s (after_listing dir i nm strings s)"
proof -
  let ?m = "rb_zk_mutex_create_entry (node_path dir leaf)"
  let ?zk = "\<lambda>n. answers dir n"
  define s1 where "s1 = acts i (?m, rb_zk_mutex_lock0 (?zk (ls_nodes s)) ?m) s"
  define s2 where "s2 = (at_phase i (Created nm) s1)\<lparr>ls_nodes := insert nm (ls_nodes s1), ls_used := insert nm (ls_used s1)\<rparr>"
  define s3 where "s3 = acts i (create_mutex_node_complete (?zk (ls_nodes s2)) True 0 (Some (node_path dir nm)) (ls_mutex s2 i)) s2"
  have s1: "s1 = s\<lparr>ls_mutex := (ls_mutex s)(i := ?m), ls_phase := (ls_phase s)(i := Creating)\<rparr>"
    by (simp add: s1_def acts_def rb_zk_mutex_lock0_def answers_def)
  have s3: "s3 = s\<lparr>ls_nodes := insert nm (ls_nodes s), ls_used := insert nm (ls_used s),
      ls_mutex := (ls_mutex s)(i := attempt_mutex dir nm), ls_phase := (ls_phase s)(i := Listing)\<rparr>"
    using nm by (simp add: s3_def s2_def s1 acts_def at_phase_def create_mutex_node_complete_def Let_def
        directory_of_node_path answers_def rb_zk_mutex_create_entry_def attempt_mutex_def)
  have "lock_step False dir leaf s s1" unfolding s1_def by (rule lock_step.ask [OF idle lawful_answers refl])
  moreover have "lock_step False dir leaf s1 s2"
    unfolding s2_def by (rule lock_step.create) (use nm fresh in \<open>simp_all add: s1\<close>)
  moreover have "lock_step False dir leaf s2 s3"
    unfolding s3_def by (rule lock_step.create_done) (simp_all add: s2_def at_phase_def lawful_answers)
  moreover have "lock_step False dir leaf s3 (at_phase i (Listed strings) s3)"
    by (rule lock_step.list) (use strings in \<open>simp_all add: s3\<close>)
  moreover have "at_phase i (Listed strings) s3 = after_listing dir i nm strings s"
    by (simp add: s3 after_listing_def at_phase_def)
  ultimately show ?thesis using lock_reach.here lock_reach.step by metis
qed

definition after_unlock :: "nat \<Rightarrow> string \<Rightarrow> lock_sys \<Rightarrow> lock_sys" where
  "after_unlock i nm s = s\<lparr>ls_nodes := ls_nodes s - {nm}, ls_phase := (ls_phase s)(i := Idle)\<rparr>"

lemma unlock_to_idle:
  assumes lead: "ls_phase s i = Leading" and own: "own s i = Some nm"
  shows "lock_reach False dir leaf s (after_unlock i nm s)"
proof -
  define s1 where "s1 = acts i (ls_mutex s i, rb_zk_mutex_unlock True (ls_mutex s i)) s"
  have s1: "s1 = s\<lparr>ls_phase := (ls_phase s)(i := Unlocking)\<rparr>"
    by (simp add: s1_def acts_def rb_zk_mutex_unlock_def)
  have "lock_step False dir leaf s s1" unfolding s1_def by (rule lock_step.unlock [OF lead])
  moreover have "own s1 i = Some nm" using own lead by (simp add: s1 own_def)
  then have "lock_step False dir leaf s1
      ((acts i (ls_mutex s1 i, delete_mutex_completed (ls_mutex s1 i)) s1)\<lparr>ls_nodes := ls_nodes s1 - {nm}\<rparr>)"
    by (intro lock_step.delete) (simp_all add: s1)
  moreover have "(acts i (ls_mutex s1 i, delete_mutex_completed (ls_mutex s1 i)) s1)\<lparr>ls_nodes := ls_nodes s1 - {nm}\<rparr>
      = after_unlock i nm s"
    by (simp add: acts_def s1 after_unlock_def)
  ultimately show ?thesis using lock_reach.here lock_reach.step by metis
qed

text \<open>
  The race happens: client 0 leads and unlocks between the answer to client 1 and its watch. This is
  the state before the callback of client 1.
\<close>

definition raced :: lock_sys where
  "raced =
     \<lparr>ls_nodes = {''b''}, ls_used = {''a'', ''b''},
      ls_mutex = (\<lambda>i. rb_zk_mutex_create_entry [])
        (0 := (attempt_mutex ''/l'' ''a'')\<lparr>mx_leader := True\<rparr>, 1 := attempt_mutex ''/l'' ''b''),
      ls_phase = (\<lambda>i. Idle)(1 := Listed [Some ''a'', Some ''b''])\<rparr>"

definition led :: lock_sys where
  "led =
     \<lparr>ls_nodes = {''a''}, ls_used = {''a''},
      ls_mutex = (\<lambda>i. rb_zk_mutex_create_entry [])(0 := (attempt_mutex ''/l'' ''a'')\<lparr>mx_leader := True\<rparr>),
      ls_phase = (\<lambda>i. Idle)(0 := Leading)\<rparr>"

lemma run_names: "''a'' < ''b''" "name_ok ''/l'' ''a''" "name_ok ''/l'' ''b''"
  by (simp_all add: name_ok_def BUFSIZ_def)

lemma own_led: "own led 0 = Some ''a''"
  using last_separator_node_path [OF run_names(2)] by (simp add: led_def own_def attempt_mutex_def)

lemma led_reachable: "lock_reach False ''/l'' ''p'' lock_start led"
proof -
  define s1 where "s1 = after_listing ''/l'' 0 ''a'' [Some ''a''] lock_start"
  have r1: "lock_reach False ''/l'' ''p'' lock_start s1"
    unfolding s1_def by (rule attempt_to_listing) (use run_names in \<open>simp_all add: lock_start_def\<close>)
  have inv: "lock_inv ''/l'' s1" by (rule lock_inv_reach [OF r1 lock_inv_start])
  have own: "own s1 0 = Some ''a''"
    using last_separator_node_path [OF run_names(2)] by (simp add: s1_def after_listing_def own_def attempt_mutex_def)
  have "lock_reach False ''/l'' ''p'' s1 (acts 0 ((ls_mutex s1 0)\<lparr>mx_leader := True\<rparr>, [Mutex_status True]) s1)"
    by (rule fresh_answer_leads [OF inv _ own, of "[Some ''a'']"]) (simp_all add: s1_def after_listing_def)
  moreover have "acts 0 ((ls_mutex s1 0)\<lparr>mx_leader := True\<rparr>, [Mutex_status True]) s1 = led"
    by (simp add: s1_def after_listing_def acts_def lock_start_def led_def)
  ultimately show ?thesis using lock_reach_trans [OF _ r1] by simp
qed

lemma raced_reachable: "lock_reach False ''/l'' ''p'' lock_start raced"
proof -
  define s3 where "s3 = after_listing ''/l'' 1 ''b'' [Some ''a'', Some ''b''] led"
  have r3: "lock_reach False ''/l'' ''p'' led s3"
    unfolding s3_def by (rule attempt_to_listing) (use run_names in \<open>auto simp: led_def\<close>)
  have "ls_phase s3 0 = Leading" by (simp add: s3_def after_listing_def led_def)
  moreover have "own s3 0 = Some ''a''"
    using own_led by (simp add: s3_def after_listing_def own_def led_def)
  ultimately have r4: "lock_reach False ''/l'' ''p'' s3 (after_unlock 0 ''a'' s3)" by (rule unlock_to_idle)
  have "after_unlock 0 ''a'' s3 = raced"
    by (auto simp: s3_def after_listing_def led_def raced_def after_unlock_def fun_eq_iff)
  with r3 r4 show ?thesis using lock_reach_trans [OF _ led_reachable] lock_reach_trans by metis
qed

lemma own_raced: "own raced j = (if j = 1 then Some ''b'' else None)"
  using last_separator_node_path [OF run_names(3)] by (simp add: raced_def own_def attempt_mutex_def)

end
