(* ===== verification/Zk_Fifo.thy ===== *)
theory Zk_Fifo
  imports Zk_Progress
begin

text \<open>
  What the lock of src/rb_zk.c promises, without nodes, answers and callbacks: a line of tickets in the
  order of arrival, whose first may hold the lock. Zk_Lock implements it: a ticket is a node, the line is
  the directory, and whoever got the lock got it in the order of the tickets.
\<close>

section \<open>The specification\<close>

record fifo =
  fi_line :: "string list"
  fi_holder :: "string option"
  fi_arrived :: "string list"     \<comment> \<open>every ticket given, in order\<close>
  fi_served :: "string list"      \<comment> \<open>every ticket that got the lock, in order\<close>

text \<open>With faults, a ticket can be lost, and a holder can give up and leave its ticket in the line.\<close>

inductive fifo_step :: "bool \<Rightarrow> fifo \<Rightarrow> fifo \<Rightarrow> bool" for faulty where
  arrives:
    "\<forall>u \<in> set (fi_arrived a). u < t \<Longrightarrow>
       fifo_step faulty a (a\<lparr>fi_line := fi_line a @ [t], fi_arrived := fi_arrived a @ [t]\<rparr>)"
| acquires:
    "fi_holder a = None \<Longrightarrow> fi_line a = t # rest \<Longrightarrow> t \<notin> set (fi_served a) \<Longrightarrow>
       fifo_step faulty a (a\<lparr>fi_holder := Some t, fi_served := fi_served a @ [t]\<rparr>)"
| releases:
    "fi_holder a = Some t \<Longrightarrow> fi_line a = t # rest \<Longrightarrow>
       fifo_step faulty a (a\<lparr>fi_holder := None, fi_line := rest\<rparr>)"
| loses:
    "faulty \<Longrightarrow> fifo_step faulty a
       (a\<lparr>fi_line := remove1 t (fi_line a), fi_holder := (if fi_holder a = Some t then None else fi_holder a)\<rparr>)"
| gives_up: "faulty \<Longrightarrow> fifo_step faulty a (a\<lparr>fi_holder := None\<rparr>)"

inductive_cases fifo_stepE: "fifo_step faulty a b"

definition fifo_start :: fifo where
  "fifo_start = \<lparr>fi_line = [], fi_holder = None, fi_arrived = [], fi_served = []\<rparr>"

inductive fifo_reach :: "bool \<Rightarrow> fifo \<Rightarrow> bool" for faulty where
  start: "fifo_reach faulty fifo_start"
| step: "fifo_reach faulty a \<Longrightarrow> fifo_step faulty a b \<Longrightarrow> fifo_reach faulty b"

text \<open>The holder is the first of the line, and tickets are served in the order of arrival.\<close>

definition fifo_inv :: "fifo \<Rightarrow> bool" where
  "fifo_inv a \<longleftrightarrow>
     sorted_wrt (<) (fi_arrived a) \<and> sorted_wrt (<) (fi_line a) \<and> sorted_wrt (<) (fi_served a)
     \<and> set (fi_line a) \<subseteq> set (fi_arrived a) \<and> set (fi_served a) \<subseteq> set (fi_arrived a)
     \<and> (\<forall>u \<in> set (fi_served a). \<forall>l \<in> set (fi_line a). u \<le> l)
     \<and> (\<forall>t. fi_holder a = Some t \<longrightarrow> t \<in> set (fi_served a) \<and> (\<exists>rest. fi_line a = t # rest))"

lemma sorted_wrt_remove1: "sorted_wrt (<) xs \<Longrightarrow> sorted_wrt (<) (remove1 (x :: 'a :: linorder) xs)"
  by (induction xs) (auto dest: set_mp [OF set_remove1_subset])

lemma fifo_inv_step:
  assumes inv: "fifo_inv a" and step: "fifo_step faulty a b"
  shows "fifo_inv b"
  using step
proof cases
  case (arrives t)
  have "u < t" if "u \<in> set (fi_line a) \<union> set (fi_served a)" for u
    using that inv arrives(2) unfolding fifo_inv_def by blast
  then show ?thesis using inv arrives
    by (auto simp: fifo_inv_def sorted_wrt_append intro: less_imp_le)
next
  case (acquires t rest)
  then have "\<forall>u \<in> set (fi_served a). u < t" using inv by (auto simp: fifo_inv_def order.strict_iff_order)
  then show ?thesis using inv acquires by (auto simp: fifo_inv_def sorted_wrt_append intro: less_imp_le)
next
  case (releases t rest)
  then show ?thesis using inv by (auto simp: fifo_inv_def)
next
  case (loses t)
  have "set (remove1 t (fi_line a)) \<subseteq> set (fi_line a)" by (rule set_remove1_subset)
  then show ?thesis using inv loses by (auto simp: fifo_inv_def sorted_wrt_remove1)
next
  case gives_up
  then show ?thesis using inv by (auto simp: fifo_inv_def)
qed

lemma fifo_inv_reach: "fifo_reach faulty a \<Longrightarrow> fifo_inv a"
proof (induction rule: fifo_reach.induct)
  case start
  show ?case by (simp add: fifo_inv_def fifo_start_def)
qed (rule fifo_inv_step)

section \<open>The simulation\<close>

definition has_lock :: "lock_phase \<Rightarrow> bool" where
  "has_lock ph \<longleftrightarrow> ph = Leading \<or> ph = Unlocking"

definition holds :: "lock_sys \<Rightarrow> string \<Rightarrow> bool" where
  "holds s t \<longleftrightarrow> t \<in> ls_nodes s \<and> (\<exists>i. has_lock (ls_phase s i) \<and> own s i = Some t)"

definition simulates :: "lock_sys \<Rightarrow> fifo \<Rightarrow> bool" where
  "simulates s a \<longleftrightarrow>
     fi_line a = sorted_list_of_set (ls_nodes s) \<and> (\<forall>t. fi_holder a = Some t \<longleftrightarrow> holds s t)
     \<and> set (fi_arrived a) = ls_used s
     \<and> (\<forall>t \<in> set (fi_served a). \<forall>i. own s i = Some t \<longrightarrow> has_lock (ls_phase s i))"

text \<open>A move of one client that the line does not see.\<close>

abbreviation moved :: "nat \<Rightarrow> zk_mutex \<Rightarrow> lock_phase \<Rightarrow> lock_sys \<Rightarrow> lock_sys" where
  "moved i m ph s \<equiv> s\<lparr>ls_mutex := (ls_mutex s)(i := m), ls_phase := (ls_phase s)(i := ph)\<rparr>"

lemma acts_moved: "acts i r s = moved i (fst r) (next_phase (snd r)) s"
  by (simp add: acts_def)

lemma holds_moved:
  "holds (moved i m ph s) t \<longleftrightarrow>
     t \<in> ls_nodes s \<and> ((has_lock ph \<and> node_of ph m = Some t) \<or> (\<exists>j. j \<noteq> i \<and> has_lock (ls_phase s j) \<and> own s j = Some t))"
  by (auto simp: holds_def split: if_splits)

lemma holds_at:
  "holds s t \<longleftrightarrow>
     t \<in> ls_nodes s \<and> ((has_lock (ls_phase s i) \<and> own s i = Some t) \<or> (\<exists>j. j \<noteq> i \<and> has_lock (ls_phase s j) \<and> own s j = Some t))"
  by (auto simp: holds_def)

lemma simulates_quiet:
  assumes "simulates s a" and "\<not> has_lock (ls_phase s i)" and "\<not> has_lock ph" and "node_of ph m \<in> {None, own s i}"
  shows "simulates (moved i m ph s) a"
proof -
  have "holds (moved i m ph s) t \<longleftrightarrow> holds s t" for t
    unfolding holds_moved holds_at [of s t i] using assms(2,3) by simp
  moreover have "has_lock (ls_phase (moved i m ph s) j)" if "t \<in> set (fi_served a)" "own (moved i m ph s) j = Some t" for t j
    using assms that by (auto simp: simulates_def split: if_splits)
  ultimately show ?thesis using assms(1) by (simp add: simulates_def)
qed

text \<open>A client with the lock, whose node is gone, is seen by nobody.\<close>

lemma simulates_ghost:
  assumes "simulates s a" and "node_of ph m \<in> {None, own s i}" and "has_lock ph \<or> node_of ph m = None"
    and gone: "\<forall>t. own s i = Some t \<longrightarrow> t \<notin> ls_nodes s"
  shows "simulates (moved i m ph s) a"
proof -
  have "holds (moved i m ph s) t \<longleftrightarrow> holds s t" for t
    unfolding holds_moved holds_at [of s t i] using assms(2) gone
    by (cases "t \<in> ls_nodes s"; cases "own s i = Some t") auto
  moreover have "has_lock (ls_phase (moved i m ph s) j)" if "t \<in> set (fi_served a)" "own (moved i m ph s) j = Some t" for t j
    using assms that by (auto simp: simulates_def split: if_splits)
  ultimately show ?thesis using assms(1) by (simp add: simulates_def)
qed

lemma line_first:
  fixes A :: "string set"
  assumes "finite A" and "t \<in> A" and "\<forall>n \<in> A. t \<le> n"
  shows "sorted_list_of_set A = t # sorted_list_of_set (A - {t})"
proof -
  have "Min A = t" using assms by (intro Min_eqI) auto
  then show ?thesis using sorted_list_of_set_nonempty [OF assms(1)] assms(2) by auto
qed

lemma insort_last: "\<forall>x \<in> set xs. x < t \<Longrightarrow> insort t xs = xs @ [t :: 'a :: linorder]"
  by (induction xs) auto

lemma line_last:
  fixes A :: "string set"
  assumes "finite A" and "\<forall>n \<in> A. n < t"
  shows "sorted_list_of_set (insert t A) = sorted_list_of_set A @ [t]"
proof -
  have "t \<notin> A" using assms(2) by blast
  then show ?thesis using assms by (simp add: insort_last)
qed

lemma holder_is_lowest:
  assumes "lock_inv dir s" and "has_lock (ls_phase s i)" and "own s i = Some t"
  shows "\<forall>n \<in> ls_nodes s. t \<le> n"
  using lock_inv_own [OF assms(1,3)] assms(2) by (auto simp: has_lock_def)

lemma holds_one: "lock_inv dir s \<Longrightarrow> holds s t \<Longrightarrow> holds s u \<Longrightarrow> t = u"
  unfolding holds_def using holder_is_lowest by (metis order.antisym)

lemma nodes_finite: "lock_inv dir s \<Longrightarrow> finite (ls_nodes s)"
  by (auto simp: lock_inv_def intro: finite_subset)

definition follows :: "bool \<Rightarrow> fifo \<Rightarrow> lock_sys \<Rightarrow> bool" where
  "follows faulty a t \<longleftrightarrow> (\<exists>b. (b = a \<or> fifo_step faulty a b) \<and> simulates t b)"

lemma follows_same: "simulates t a \<Longrightarrow> follows faulty a t"
  by (auto simp: follows_def)

lemma follows_step: "fifo_step faulty a b \<Longrightarrow> simulates t b \<Longrightarrow> follows faulty a t"
  by (auto simp: follows_def)

lemma follows_create:
  assumes inv: "lock_inv dir s" and sim: "simulates s a" and fi: "fifo_inv a" and at: "ls_phase s i = Creating"
    and fresh: "\<forall>u \<in> ls_used s. u < nm"
  shows "follows faulty a ((at_phase i (Created nm) s)\<lparr>ls_nodes := insert nm (ls_nodes s), ls_used := insert nm (ls_used s)\<rparr>)"
    (is "follows _ _ ?t")
proof (rule follows_step)
  let ?b = "a\<lparr>fi_line := fi_line a @ [nm], fi_arrived := fi_arrived a @ [nm]\<rparr>"
  show "fifo_step faulty a ?b" using fresh sim by (intro fifo_step.arrives) (simp add: simulates_def)
  have own: "own ?t j = (if j = i then Some nm else own s j)" for j by (simp add: own_def at_phase_def)
  have ph: "ls_phase ?t j = (if j = i then Created nm else ls_phase s j)" for j by (simp add: at_phase_def)
  have used: "ls_nodes s \<subseteq> ls_used s" using inv by (simp add: lock_inv_def)
  have nm: "nm \<notin> ls_used s" using fresh by blast
  then have new: "own s j \<noteq> Some nm" for j using lock_inv_own [OF inv, of j nm] by auto
  have none: "\<not> has_lock (ls_phase s i)" "\<not> has_lock (Created nm)" by (simp_all add: at has_lock_def)
  have "holds ?t x \<longleftrightarrow> holds s x" for x
    unfolding holds_at [of _ x i] own ph using new none by (auto simp: at_phase_def)
  moreover have "nm \<notin> set (fi_served a)" using fi sim nm by (auto simp: fifo_inv_def simulates_def)
  moreover have "sorted_list_of_set (insert nm (ls_nodes s)) = sorted_list_of_set (ls_nodes s) @ [nm]"
    using used fresh by (intro line_last [OF nodes_finite [OF inv]]) blast
  ultimately show "simulates ?t ?b"
    using sim
    by (auto simp: simulates_def own ph split: if_splits) (auto simp: at_phase_def)
qed

lemma node_keeps: "\<lbrakk>own s i = Some nm; mx_path m = node_path dir nm; name_ok dir nm; has_lock ph \<or> ph = Listing \<or> ph = Stuck\<rbrakk> \<Longrightarrow>
    node_of ph m = Some nm"
  by (auto simp: has_lock_def last_separator_node_path)

lemma follows_lead:
  assumes inv: "lock_inv dir s" and sim: "simulates s a" and at: "ls_phase s i = Listed strings" and own: "own s i = Some nm"
    and path: "mx_path m = node_path dir nm" and low: "\<forall>n \<in> ls_nodes s. nm \<le> n"
  shows "follows faulty a (moved i m Leading s)"
proof -
  have nm: "name_ok dir nm" using lock_inv_own [OF inv own] by simp
  have node: "node_of Leading m = own s i" using own path nm by (simp add: last_separator_node_path)
  show ?thesis
  proof (cases "nm \<in> ls_nodes s")
    case False
    then have "simulates (moved i m Leading s) a"
      using node own by (intro simulates_ghost [OF sim]) (auto simp: has_lock_def)
    then show ?thesis by (rule follows_same)
  next
    case True
    let ?b = "a\<lparr>fi_holder := Some nm, fi_served := fi_served a @ [nm]\<rparr>"
    have line: "fi_line a = nm # sorted_list_of_set (ls_nodes s - {nm})"
      using sim line_first [OF nodes_finite [OF inv] True low] by (simp add: simulates_def)
    have free: "\<not> holds s x" for x
    proof
      assume h: "holds s x"
      then obtain j where j: "has_lock (ls_phase s j)" "own s j = Some x" "x \<in> ls_nodes s" by (auto simp: holds_def)
      have "x = nm" using holder_is_lowest [OF inv j(1,2)] True low j(3) by (auto intro: order.antisym)
      moreover have "owners_differ s" using inv by (simp add: lock_inv_def)
      ultimately have "j = i" using owners_differD own j(2) by blast
      with j(1) at show False by (simp add: has_lock_def)
    qed
    then have holder: "fi_holder a = None" using sim by (cases "fi_holder a") (auto simp: simulates_def)
    have unserved: "nm \<notin> set (fi_served a)"
    proof
      assume "nm \<in> set (fi_served a)"
      then have "has_lock (ls_phase s i)" using sim own unfolding simulates_def by blast
      with at show False by (simp add: has_lock_def)
    qed
    have "fifo_step faulty a ?b" by (rule fifo_step.acquires [OF holder line unserved])
    moreover have "holds (moved i m Leading s) x \<longleftrightarrow> x = nm" for x
      unfolding holds_moved using True node own free [of x] by (auto simp: holds_def has_lock_def)
    moreover have "has_lock (ls_phase (moved i m Leading s) j)"
      if "t \<in> set (fi_served ?b)" "own (moved i m Leading s) j = Some t" for t j
    proof (cases "j = i")
      case True
      then show ?thesis by (simp add: has_lock_def)
    next
      case False
      have "owners_differ s" using inv by (simp add: lock_inv_def)
      then have "t \<noteq> nm" using owners_differD own that(2) False by fastforce
      with that False sim show ?thesis by (auto simp: simulates_def)
    qed
    ultimately have "fifo_step faulty a ?b" "simulates (moved i m Leading s) ?b"
      using sim by (auto simp: simulates_def)
    then show ?thesis by (rule follows_step)
  qed
qed

lemma follows_release:
  assumes inv: "lock_inv dir s" and sim: "simulates s a" and at: "ls_phase s i = Unlocking" and own: "own s i = Some nm"
  shows "follows faulty a ((moved i m Idle s)\<lparr>ls_nodes := ls_nodes s - {nm}\<rparr>)" (is "follows _ _ ?t")
proof -
  have low: "\<forall>n \<in> ls_nodes s. nm \<le> n" using holder_is_lowest [OF inv _ own] at by (simp add: has_lock_def)
  have own': "own ?t j = (if j = i then None else own s j)" for j by (simp add: own_def)
  have "owners_differ s" using inv by (simp add: lock_inv_def)
  then have other: "j \<noteq> i \<Longrightarrow> own s j \<noteq> Some nm" for j using owners_differD own by blast
  show ?thesis
  proof (cases "nm \<in> ls_nodes s")
    case False
    have "simulates (moved i m Idle s) a" using False own by (intro simulates_ghost [OF sim]) auto
    moreover have "?t = moved i m Idle s" using False by simp
    ultimately show ?thesis by (simp add: follows_same)
  next
    case True
    let ?b = "a\<lparr>fi_holder := None, fi_line := sorted_list_of_set (ls_nodes s - {nm})\<rparr>"
    have "holds s nm" using True at own by (auto simp: holds_def has_lock_def)
    then have "fi_holder a = Some nm" using sim by (simp add: simulates_def)
    moreover have "fi_line a = nm # sorted_list_of_set (ls_nodes s - {nm})"
      using sim line_first [OF nodes_finite [OF inv] True low] by (simp add: simulates_def)
    ultimately have "fifo_step faulty a ?b" by (rule fifo_step.releases)
    moreover have "\<not> holds ?t x" for x
    proof
      assume "holds ?t x"
      then have "x \<in> ls_nodes s" "x \<noteq> nm" "holds s x" by (auto simp: holds_def own' split: if_splits)
      with holds_one [OF inv \<open>holds s nm\<close>] show False by blast
    qed
    then have "simulates ?t ?b" using sim by (auto simp: simulates_def own' split: if_splits)
    ultimately show ?thesis by (rule follows_step)
  qed
qed

lemma follows_loss:
  assumes inv: "lock_inv dir s" and sim: "simulates s a" and faulty
  shows "follows faulty a (s\<lparr>ls_nodes := ls_nodes s - {nm}\<rparr>)" (is "follows _ _ ?t")
proof (rule follows_step)
  let ?b = "a\<lparr>fi_line := remove1 nm (fi_line a), fi_holder := (if fi_holder a = Some nm then None else fi_holder a)\<rparr>"
  show "fifo_step faulty a ?b" using assms(3) by (rule fifo_step.loses)
  have own: "own ?t j = own s j" for j by (simp add: own_def)
  have "holds ?t x \<longleftrightarrow> holds s x \<and> x \<noteq> nm" for x by (auto simp: holds_def own)
  then show "simulates ?t ?b"
    using sim nodes_finite [OF inv]
    by (auto simp: simulates_def own sorted_list_of_set_remove dest: holds_one [OF inv])
qed

lemma follows_quit:
  assumes inv: "lock_inv dir s" and sim: "simulates s a" and faulty
  shows "follows faulty a (moved i m Idle s)"
proof (cases "has_lock (ls_phase s i) \<and> (\<exists>t. own s i = Some t \<and> t \<in> ls_nodes s)")
  case False
  show ?thesis
  proof (cases "has_lock (ls_phase s i)")
    case True
    with False have "simulates (moved i m Idle s) a" by (intro simulates_ghost [OF sim]) auto
    then show ?thesis by (rule follows_same)
  next
    case False
    then have "simulates (moved i m Idle s) a" by (rule simulates_quiet [OF sim]) (simp_all add: has_lock_def)
    then show ?thesis by (rule follows_same)
  qed
next
  case True
  then obtain t where t: "has_lock (ls_phase s i)" "own s i = Some t" "t \<in> ls_nodes s" by blast
  then have h: "holds s t" by (auto simp: holds_def)
  have "\<not> holds (moved i m Idle s) x" for x
  proof
    assume x: "holds (moved i m Idle s) x"
    then have "holds s x" unfolding holds_moved holds_at [of s x i] by (simp add: has_lock_def)
    with holds_one [OF inv h] have "x = t" by simp
    with x obtain j where "j \<noteq> i" "own s j = Some t" by (auto simp: holds_moved has_lock_def)
    moreover have "owners_differ s" using inv by (simp add: lock_inv_def)
    ultimately show False using owners_differD t(2) by blast
  qed
  then have "simulates (moved i m Idle s) (a\<lparr>fi_holder := None\<rparr>)"
    using sim by (auto simp: simulates_def split: if_splits)
  with fifo_step.gives_up [OF assms(3)] show ?thesis by (rule follows_step)
qed

lemma follows_stay:
  assumes sim: "simulates s a" and at: "\<not> has_lock (ls_phase s i)" and ph: "\<not> has_lock ph"
    and node: "node_of ph m \<in> {None, own s i}"
  shows "follows faulty a (moved i m ph s)"
  by (rule follows_same) (rule simulates_quiet [OF sim at ph node])

lemma follows_list_done:
  assumes inv: "lock_inv dir s" and sim: "simulates s a" and at: "ls_phase s i = Listed strings"
  shows "follows faulty a (acts i (leader_get_children_complete zk 0 strings (ls_mutex s i)) s)"
proof -
  obtain nm where own: "own s i = Some nm" using lock_inv_has_node [OF inv, of i] at by auto
  note names = listed_names_ok [OF inv own at]
  have nm: "name_ok dir nm" using lock_inv_own [OF inv own] by simp
  have path: "mx_path (ls_mutex s i) = node_path dir nm" using lock_inv_path [OF inv own] at by simp
  from nm path names(2) show ?thesis
  proof (cases rule: list_done_phase [where zk = zk])
    case leads
    have "\<forall>n \<in> ls_nodes s. nm \<le> n" using leads(1) names(3) by (meson not_le)
    then show ?thesis
      unfolding leads(2) acts_moved fst_conv snd_conv next_phase_simps
      by (intro follows_lead [OF inv sim at own]) (simp_all add: path)
  next
    case (waits b)
    show ?thesis
      unfolding waits(5) acts_moved fst_conv snd_conv next_phase_simps
      by (rule follows_stay [OF sim]) (simp_all add: at has_lock_def own path last_separator_node_path [OF nm])
  next
    case (lost b)
    then show ?thesis unfolding acts_moved lost(5) by (intro follows_stay [OF sim]) (simp_all add: at has_lock_def)
  qed
qed

text \<open>Every step of the lock is a step of the line, or none.\<close>

lemma lock_step_follows:
  assumes inv: "lock_inv dir s" and sim: "simulates s a" and fi: "fifo_inv a"
    and step: "lock_step faulty dir leaf s t"
  shows "follows faulty a t"
  using step
proof (cases rule: lock_step.cases)
  case (ask i zk m)
  then show ?thesis using lock0_phase [of zk m] unfolding ask(1) acts_moved
    by (intro follows_stay [OF sim]) (auto simp: has_lock_def)
next
  case (create i nm)
  then show ?thesis using follows_create [OF inv sim fi] by simp
next
  case (create_done i nm zk mem)
  have own: "own s i = Some nm" using create_done by (simp add: own_def)
  then have nm: "name_ok dir nm" using lock_inv_own [OF inv] by simp
  from create_done_phase [OF nm, of zk mem "ls_mutex s i"] show ?thesis
    unfolding create_done(1) acts_moved
    by (intro follows_stay [OF sim]) (auto simp: create_done(2) has_lock_def own last_separator_node_path [OF nm])
next
  case (create_failed i rc zk mem)
  then have "next_phase (snd (create_mutex_node_complete zk mem rc None (ls_mutex s i))) = Idle"
    by (simp add: create_failed_phase)
  then show ?thesis using create_failed(3) unfolding create_failed(1) acts_moved
    by (intro follows_stay [OF sim]) (auto simp: has_lock_def)
next
  case (list i strings)
  have "node_of (Listed strings) (ls_mutex s i) = own s i" using list by (simp add: own_def)
  then show ?thesis unfolding list(1) at_phase_move
    by (intro follows_stay [OF sim]) (simp_all add: list has_lock_def)
next
  case (list_done i strings zk)
  then show ?thesis using follows_list_done [OF inv sim] by simp
next
  case (list_failed i rc zk strings)
  then have "leader_get_children_complete zk rc strings (ls_mutex s i) = (ls_mutex s i, [])"
    by (simp add: leader_get_children_complete_def)
  moreover have "node_of Stuck (ls_mutex s i) = own s i" using list_failed by (simp add: own_def)
  ultimately show ?thesis unfolding list_failed(1) acts_moved
    by (intro follows_stay [OF sim]) (simp_all add: list_failed has_lock_def)
next
  case (watch i b)
  have "node_of Listing (ls_mutex s i) = own s i" using watch by (simp add: own_def)
  then show ?thesis unfolding watch(1) acts_moved
    by (intro follows_stay [OF sim]) (simp_all add: watch has_lock_def previous_leader_watcher_def)
next
  case (watch_failed i p)
  have "node_of Stuck (ls_mutex s i) = own s i" using watch_failed by (simp add: own_def)
  then show ?thesis unfolding watch_failed(1) at_phase_move
    by (intro follows_stay [OF sim]) (simp_all add: watch_failed has_lock_def)
next
  case (unlock i)
  have "node_of Unlocking (ls_mutex s i) = own s i" using unlock by (simp add: own_def)
  then have "holds (moved i (ls_mutex s i) Unlocking s) x \<longleftrightarrow> holds s x" for x
    unfolding holds_moved holds_at [of s x i] by (simp add: unlock has_lock_def)
  moreover have "own (s\<lparr>ls_phase := (ls_phase s)(i := Unlocking)\<rparr>) j = own s j" for j
    using unlock by (simp add: own_def)
  ultimately have "simulates (moved i (ls_mutex s i) Unlocking s) a"
    using sim by (auto simp: simulates_def has_lock_def split: if_splits)
  then show ?thesis unfolding unlock(1) acts_moved
    by (intro follows_same) (simp add: rb_zk_mutex_unlock_def)
next
  case (delete i nm)
  have "next_phase (delete_mutex_completed (ls_mutex s i)) = Idle" by simp
  then show ?thesis using follows_release [OF inv sim delete(2,3), of faulty "ls_mutex s i"]
    unfolding delete(1) acts_moved by simp
next
  case (expire nm)
  then show ?thesis using follows_loss [OF inv sim] by simp
next
  case (disconnected i)
  have "next_phase (rb_zk_mutex_done (ls_mutex s i)) = Idle" by simp
  then show ?thesis using follows_quit [OF inv sim disconnected(2), of i "ls_mutex s i"]
    unfolding disconnected(1) acts_moved by simp
qed

lemma lock_refines_fifo:
  "lock_reach faulty dir leaf s0 s \<Longrightarrow> s0 = lock_start \<Longrightarrow> \<exists>a. fifo_reach faulty a \<and> simulates s a"
proof (induction rule: lock_reach.induct)
  case here
  have "simulates lock_start fifo_start"
    by (simp add: simulates_def lock_start_def fifo_start_def holds_def)
  with here fifo_reach.start show ?case by blast
next
  case (step t u)
  then obtain a where a: "fifo_reach faulty a" "simulates t a" by blast
  have "lock_inv dir t" using lock_inv_reach [OF step.hyps(1)] step.prems lock_inv_start by simp
  from lock_step_follows [OF this a(2) fifo_inv_reach [OF a(1)] step.hyps(2)] a(1) show ?case
    unfolding follows_def using fifo_reach.step by blast
qed

section \<open>The order\<close>

text \<open>Once a ticket has been first, every node is at or behind it.\<close>

lemma never_before:
  assumes "lock_inv dir s" and "lock_reach faulty dir leaf s t" and "n \<in> ls_used s" "\<forall>m \<in> ls_nodes s. n \<le> m"
  shows "(\<forall>m \<in> ls_nodes t. n \<le> m) \<and> n \<in> ls_used t \<and> lock_inv dir t"
  using assms(2)
proof induction
  case here
  then show ?case using assms by simp
next
  case (step t u)
  then have inv: "lock_inv dir u" using lock_inv_step by blast
  from step.hyps(2) have "(\<forall>m \<in> ls_nodes u. m \<in> ls_nodes t \<or> (\<forall>x \<in> ls_used t. x < m)) \<and> ls_used t \<subseteq> ls_used u"
    by cases (auto simp: acts_def at_phase_def)
  with step.IH inv show ?case by (blast intro: less_imp_le)
qed

lemma locked_in_order:
  assumes "lock_reach faulty dir leaf lock_start s" and "holds s n"
    and "lock_reach faulty dir leaf s t" and "holds t m"
  shows "n \<le> m"
proof -
  have inv: "lock_inv dir s" by (rule lock_inv_reach [OF assms(1) lock_inv_start])
  obtain i where i: "has_lock (ls_phase s i)" "own s i = Some n" "n \<in> ls_nodes s" using assms(2) by (auto simp: holds_def)
  have "n \<in> ls_used s" using lock_inv_own [OF inv i(2)] by simp
  from never_before [OF inv assms(3) this holder_is_lowest [OF inv i(1,2)]] assms(4) show ?thesis
    by (auto simp: holds_def)
qed

text \<open>A run: client 0 gives the lock back, and client 1 gets it.\<close>

lemma next_leads:
  "\<exists>t. lock_reach False ''/l'' ''p'' led t \<and> ls_phase t 1 = Leading \<and> own t 1 = Some ''b'' \<and> ''b'' \<in> ls_nodes t"
proof -
  define s1 where "s1 = after_unlock 0 ''a'' led"
  define s2 where "s2 = after_listing ''/l'' 1 ''b'' [Some ''b''] s1"
  define s3 where "s3 = acts 1 ((ls_mutex s2 1)\<lparr>mx_leader := True\<rparr>, [Mutex_status True]) s2"
  note defs = s1_def s2_def s3_def after_unlock_def after_listing_def led_def acts_def attempt_mutex_def
  have r1: "lock_reach False ''/l'' ''p'' led s1"
    unfolding s1_def by (rule unlock_to_idle [OF _ own_led]) (simp add: led_def)
  have r2: "lock_reach False ''/l'' ''p'' s1 s2"
    unfolding s2_def by (rule attempt_to_listing) (use run_names in \<open>auto simp: s1_def after_unlock_def led_def\<close>)
  have inv: "lock_inv ''/l'' s2"
    by (rule lock_inv_reach [OF lock_reach_trans [OF r2 lock_reach_trans [OF r1 led_reachable]] lock_inv_start])
  have own: "own s2 1 = Some ''b''"
    using last_separator_node_path [OF run_names(3)] by (simp add: s2_def after_listing_def own_def attempt_mutex_def)
  have r3: "lock_reach False ''/l'' ''p'' s2 s3"
    unfolding s3_def by (rule fresh_answer_leads [OF inv _ own, of "[Some ''b'']"]) (simp_all add: s2_def after_listing_def)
  have "own s3 1 = Some ''b''"
    using last_separator_node_path [OF run_names(3)] by (simp add: defs own_def)
  moreover have "ls_phase s3 1 = Leading" "''b'' \<in> ls_nodes s3" by (simp_all add: defs)
  ultimately show ?thesis using lock_reach_trans [OF r3 lock_reach_trans [OF r2 r1]] by blast
qed

end
