(* ===== verification/Zk_Queue.thy ===== *)
theory Zk_Queue
  imports Zk_Progress
begin

text \<open>
  The distribution of sensors: the queue of src/rb_zk.c among many clients. A pop is a lock of Zk_Lock
  and a queue element of Zk, which hears from the lock, works while it holds it, and unlocks after the
  deletion of what it took. The directory of the queue answers like the directory of the lock: at one
  moment, and the callback runs at a later one.
\<close>

section \<open>The system\<close>

datatype queue_answer = Children_are "string option list" | Data_is string | Deleted_it

text \<open>
  The pops are numbered; each has its own lock and element, as every call of \<open>rb_zk_queue_pop\<close>
  allocates them. What was pushed and what was handed to \<open>data_cb\<close> (by which pop, from which node)
  is recorded in order.
\<close>

record dist_sys =
  dq_lock :: lock_sys
  dq_pop :: "nat \<Rightarrow> pop_run"
  dq_answer :: "nat \<Rightarrow> queue_answer option"
  dq_begun :: "nat set"
  dq_queue :: "string \<rightharpoonup> string"
  dq_pushed :: "(string \<times> string) list"
  dq_handed :: "(nat \<times> string option \<times> string) list"

text \<open>
  What an element hears of its lock. An answer that is still on its way comes although the element
  was released.
\<close>

definition still_waits :: "awaiting \<Rightarrow> awaiting" where
  "still_waits a = (if a = Await_lock then Await_nothing else a)"

fun told :: "zk_rc \<Rightarrow> pop_run \<Rightarrow> zk_effect \<Rightarrow> pop_run" where
  "told zk st (Mutex_status got) =
     (if got
      then handled st (rb_zk_queue_mutex_status_change zk True (pr_element st)) (Await_children False) (pr_stale_watch st)
      else (handled st (rb_zk_queue_mutex_status_change zk False (pr_element st)) Await_nothing (pr_stale_watch st))
             \<lparr>pr_awaiting := pr_awaiting st\<rparr>)"
| "told zk st (Mutex_error cause rc) =
     (handled st (rb_zk_queue_mutex_error_cb cause rc (pr_element st)) Await_nothing (pr_stale_watch st))
       \<lparr>pr_awaiting := still_waits (pr_awaiting st)\<rparr>"
| "told zk st e = st"

definition hear :: "zk_rc \<Rightarrow> nat \<Rightarrow> zk_effect list \<Rightarrow> dist_sys \<Rightarrow> dist_sys" where
  "hear zk i es d = d\<lparr>dq_pop := (dq_pop d)(i := foldl (told zk) (dq_pop d i) es)\<rparr>"

text \<open>The callbacks of the lock of pop \<open>i\<close>, with what they do: the client's steps of \<open>lock_step\<close>.\<close>

inductive lock_calls_back ::
    "bool \<Rightarrow> string \<Rightarrow> lock_sys \<Rightarrow> zk_rc \<Rightarrow> nat \<Rightarrow> zk_mutex \<times> zk_effect list \<Rightarrow> bool" for faulty dir s zk where
  create_done:
    "ls_phase s i = Created nm \<Longrightarrow> mem \<or> faulty \<Longrightarrow>
       lock_calls_back faulty dir s zk i
         (create_mutex_node_complete zk mem 0 (Some (node_path dir nm)) (ls_mutex s i))"
| create_failed:
    "faulty \<Longrightarrow> ls_phase s i = Creating \<or> (\<exists>nm. ls_phase s i = Created nm) \<Longrightarrow> rc \<noteq> 0 \<Longrightarrow>
       lock_calls_back faulty dir s zk i (create_mutex_node_complete zk mem rc None (ls_mutex s i))"
| list_done:
    "ls_phase s i = Listed strings \<Longrightarrow>
       lock_calls_back faulty dir s zk i (leader_get_children_complete zk 0 strings (ls_mutex s i))"
| list_failed:
    "faulty \<Longrightarrow> ls_phase s i = Listing \<Longrightarrow> rc \<noteq> 0 \<Longrightarrow>
       lock_calls_back faulty dir s zk i (leader_get_children_complete zk rc strings (ls_mutex s i))"
| watch:
    "ls_phase s i = Watching (node_path dir b) \<Longrightarrow> b \<notin> ls_nodes s \<or> faulty \<Longrightarrow>
       lock_calls_back faulty dir s zk i (ls_mutex s i, previous_leader_watcher (node_path dir b))"
| disconnected:
    "faulty \<Longrightarrow> ls_phase s i \<noteq> Idle \<Longrightarrow>
       lock_calls_back faulty dir s zk i
         (ls_mutex s i, [Mutex_status False, Mutex_error buf state] @ rb_zk_mutex_done (ls_mutex s i))"

text \<open>
  The rest of \<open>lock_step\<close>, of which the elements hear nothing: the server, and the completion of the
  deletion of a lock, which has no error callback any more.
\<close>

inductive lock_serves :: "bool \<Rightarrow> string \<Rightarrow> lock_sys \<Rightarrow> lock_sys \<Rightarrow> bool" for faulty dir s where
  create:
    "ls_phase s i = Creating \<Longrightarrow> name_ok dir nm \<Longrightarrow> \<forall>u \<in> ls_used s. u < nm \<Longrightarrow>
       lock_serves faulty dir s
         ((at_phase i (Created nm) s)\<lparr>ls_nodes := insert nm (ls_nodes s), ls_used := insert nm (ls_used s)\<rparr>)"
| list:
    "ls_phase s i = Listing \<Longrightarrow> names_of strings = ls_nodes s \<Longrightarrow>
       lock_serves faulty dir s (at_phase i (Listed strings) s)"
| watch_failed: "faulty \<Longrightarrow> ls_phase s i = Watching p \<Longrightarrow> lock_serves faulty dir s (at_phase i Stuck s)"
| delete:
    "ls_phase s i = Unlocking \<Longrightarrow> own s i = Some nm \<Longrightarrow>
       lock_serves faulty dir s
         ((acts i (ls_mutex s i, delete_mutex_completed (ls_mutex s i)) s)\<lparr>ls_nodes := ls_nodes s - {nm}\<rparr>)"
| expire: "faulty \<Longrightarrow> lock_serves faulty dir s (s\<lparr>ls_nodes := ls_nodes s - {nm}\<rparr>)"

text \<open>A callback of the element: what it does, what it waits for next, and the data it hands over.\<close>

fun queue_data :: "zk_effect list \<Rightarrow> string list" where
  "queue_data [] = []"
| "queue_data (Queue_data v # es) = v # queue_data es"
| "queue_data (e # es) = queue_data es"

definition pops :: "nat \<Rightarrow> queue_element \<times> zk_effect list \<Rightarrow> awaiting \<Rightarrow> bool \<Rightarrow> dist_sys \<Rightarrow> dist_sys" where
  "pops i r next' stale d =
     d\<lparr>dq_pop := (dq_pop d)(i := handled (dq_pop d i) r next' stale), dq_answer := (dq_answer d)(i := None),
       dq_handed := dq_handed d @ map (\<lambda>v. (i, q_element_path (pr_element (dq_pop d i)), v)) (queue_data (snd r))\<rparr>"

text \<open>Unlocking at the end of a pop. A lock that was dropped before was freed, and so was its element.\<close>

definition unlocks :: "nat \<Rightarrow> zk_effect list \<Rightarrow> lock_sys \<Rightarrow> lock_sys" where
  "unlocks i es s =
     (if Unlock_mutex \<in> set es \<and> ls_phase s i = Leading
      then acts i (ls_mutex s i, rb_zk_mutex_unlock True (ls_mutex s i)) s else s)"

abbreviation popped :: "dist_sys \<Rightarrow> nat \<Rightarrow> queue_element" where
  "popped d i \<equiv> pr_element (dq_pop d i)"

abbreviation waits_for :: "dist_sys \<Rightarrow> nat \<Rightarrow> awaiting" where
  "waits_for d i \<equiv> pr_awaiting (dq_pop d i)"

abbreviation client_lib :: "bool \<Rightarrow> string \<Rightarrow> dist_sys \<Rightarrow> zk_rc \<Rightarrow> bool" where
  "client_lib faulty dir d zk \<equiv> lawful faulty dir (ls_nodes (dq_lock d)) zk"

text \<open>
  A step: a push, which the server turns into a node above all before it; the beginning of a pop; a
  step of the locks; or a step of the element of a pop, the server's answers being separate steps. A
  watch on the queue may fire at any time. In a \<open>faulty\<close> run answers carry errors, also after a
  request was carried out.
\<close>

inductive dist_step :: "bool \<Rightarrow> string \<Rightarrow> string \<Rightarrow> string \<Rightarrow> dist_sys \<Rightarrow> dist_sys \<Rightarrow> bool"
  for faulty dir leaf path where
  push:
    "\<forall>p \<in> set (dq_pushed d). fst p < nm \<Longrightarrow>
       dist_step faulty dir leaf path d
         (d\<lparr>dq_queue := (dq_queue d)(nm \<mapsto> v), dq_pushed := dq_pushed d @ [(nm, v)]\<rparr>)"
| asks:
    "i \<notin> dq_begun d \<Longrightarrow> client_lib faulty dir d zk \<Longrightarrow> m = rb_zk_mutex_create_entry (node_path dir leaf) \<Longrightarrow>
       dist_step faulty dir leaf path d
         (hear zk i (rb_zk_mutex_lock0 zk m)
           (d\<lparr>dq_lock := acts i (m, rb_zk_mutex_lock0 zk m) (dq_lock d),
              dq_pop := (dq_pop d)(i := pop_started path), dq_begun := insert i (dq_begun d)\<rparr>))"
| lock_server: "lock_serves faulty dir (dq_lock d) l \<Longrightarrow> dist_step faulty dir leaf path d (d\<lparr>dq_lock := l\<rparr>)"
| lock_callback:
    "client_lib faulty dir d zk \<Longrightarrow> lock_calls_back faulty dir (dq_lock d) zk i r \<Longrightarrow>
       dist_step faulty dir leaf path d (hear zk i (snd r) (d\<lparr>dq_lock := acts i r (dq_lock d)\<rparr>))"
| children_answered:
    "waits_for d i = Await_children w \<Longrightarrow> dq_answer d i = None \<Longrightarrow> names_of strings = dom (dq_queue d) \<Longrightarrow>
       dist_step faulty dir leaf path d (d\<lparr>dq_answer := (dq_answer d)(i \<mapsto> Children_are strings)\<rparr>)"
| children:
    "waits_for d i = Await_children w \<Longrightarrow> client_lib faulty dir d zk \<Longrightarrow>
     rc = 0 \<and> dq_answer d i = Some (Children_are strings) \<or> faulty \<and> rc < 0 \<Longrightarrow>
       dist_step faulty dir leaf path d
         (pops i (rb_zk_queue_pop_minimum0 zk rc strings w (popped d i))
           (if rc < 0 then Await_nothing else if min_str strings \<noteq> None then Await_data
            else if w then Await_watch else Await_children True)
           (w \<and> 0 \<le> rc \<and> min_str strings \<noteq> None) d)"
| watch:
    "waits_for d i = Await_watch \<Longrightarrow> client_lib faulty dir d zk \<Longrightarrow>
       dist_step faulty dir leaf path d
         (pops i (rb_zk_queue_child_watcher zk True (popped d i))
           (if q_ignore_watcher (popped d i) then Await_nothing else Await_children False) False d)"
| data_answered:
    "waits_for d i = Await_data \<Longrightarrow> dq_answer d i = None \<Longrightarrow>
     q_element_path (popped d i) = Some (node_path (directory_of path) nm) \<Longrightarrow> dq_queue d nm = Some v \<Longrightarrow>
       dist_step faulty dir leaf path d (d\<lparr>dq_answer := (dq_answer d)(i \<mapsto> Data_is v)\<rparr>)"
| data:
    "waits_for d i = Await_data \<Longrightarrow> client_lib faulty dir d zk \<Longrightarrow>
     rc = 0 \<and> dq_answer d i = Some (Data_is v) \<or>
     rc < 0 \<and> (faulty \<or> (\<exists>nm. q_element_path (popped d i) = Some (node_path (directory_of path) nm)
                                \<and> dq_answer d i = None \<and> dq_queue d nm = None)) \<Longrightarrow>
       dist_step faulty dir leaf path d
         (pops i (rb_zk_queue_get_element zk rc v (popped d i))
           (if rc < 0 \<or> zk (Adelete (q_element_path (popped d i))) < 0 then Await_nothing else Await_delete)
           (pr_stale_watch (dq_pop d i)) d)"
| delete_answered:
    "waits_for d i = Await_delete \<Longrightarrow> dq_answer d i = None \<Longrightarrow>
     q_element_path (popped d i) = Some (node_path (directory_of path) nm) \<Longrightarrow> dq_queue d nm = Some v \<Longrightarrow>
       dist_step faulty dir leaf path d
         (d\<lparr>dq_queue := (dq_queue d)(nm := None), dq_answer := (dq_answer d)(i \<mapsto> Deleted_it)\<rparr>)"
| deleted:
    "waits_for d i = Await_delete \<Longrightarrow>
     rc = 0 \<and> dq_answer d i = Some Deleted_it \<or>
     rc < 0 \<and> (faulty \<or> (\<exists>nm. q_element_path (popped d i) = Some (node_path (directory_of path) nm)
                                \<and> dq_answer d i = None \<and> dq_queue d nm = None)) \<Longrightarrow>
     r = rb_zk_queue_delete_completed rc (popped d i) \<Longrightarrow>
       dist_step faulty dir leaf path d
         ((pops i r Await_nothing (pr_stale_watch (dq_pop d i)) d)\<lparr>dq_lock := unlocks i (snd r) (dq_lock d)\<rparr>)"
| stale_watch:
    "pr_stale_watch (dq_pop d i) \<Longrightarrow> waits_for d i \<noteq> Await_nothing \<or> faulty \<Longrightarrow>
       dist_step faulty dir leaf path d
         (d\<lparr>dq_pop := (dq_pop d)(i := (handled (dq_pop d i)
            (rb_zk_queue_child_watcher zk True (popped d i)) Await_nothing False)\<lparr>pr_awaiting := waits_for d i\<rparr>)\<rparr>)"

inductive_cases dist_stepE: "dist_step faulty dir leaf path d d'"

definition dist_start :: dist_sys where
  "dist_start =
     \<lparr>dq_lock = lock_start, dq_pop = (\<lambda>i. (pop_started [])\<lparr>pr_awaiting := Await_nothing\<rparr>), dq_answer = (\<lambda>i. None),
      dq_begun = {}, dq_queue = Map.empty, dq_pushed = [], dq_handed = []\<rparr>"

inductive dist_reach :: "bool \<Rightarrow> string \<Rightarrow> string \<Rightarrow> string \<Rightarrow> dist_sys \<Rightarrow> dist_sys \<Rightarrow> bool"
  for faulty dir leaf path d where
  here: "dist_reach faulty dir leaf path d d"
| step: "dist_reach faulty dir leaf path d e \<Longrightarrow> dist_step faulty dir leaf path e f \<Longrightarrow> dist_reach faulty dir leaf path d f"

section \<open>The locks run as they do alone\<close>

lemma calls_back_step:
  assumes "lock_calls_back faulty dir s zk i r" and "lawful faulty dir (ls_nodes s) zk"
  shows "lock_step faulty dir leaf s (acts i r s)"
  using assms(1)
proof cases
  case (disconnected buf state)
  have "acts i r s = acts i (ls_mutex s i, rb_zk_mutex_done (ls_mutex s i)) s"
    unfolding disconnected(1) acts_def by simp
  with lock_step.disconnected [OF disconnected(2)] show ?thesis by metis
qed (auto intro: lock_step.intros assms(2))

lemma serves_step: "lock_serves faulty dir s t \<Longrightarrow> lock_step faulty dir leaf s t"
  by (induction rule: lock_serves.induct) (auto intro: lock_step.intros)


lemma acts_phase: "ls_phase (acts i r s) j = (if j = i then next_phase (snd r) else ls_phase s j)"
  by (simp add: acts_def)

lemma asks_step:
  "ls_phase s i = Idle \<Longrightarrow> lawful faulty dir (ls_nodes s) zk \<Longrightarrow> m = rb_zk_mutex_create_entry (node_path dir leaf) \<Longrightarrow>
     lock_step faulty dir leaf s (acts i (m, rb_zk_mutex_lock0 zk m) s)"
  by (rule lock_step.ask)

lemma unlocks_step: "unlocks i es s = s \<or> lock_step faulty dir leaf s (unlocks i es s)"
  unfolding unlocks_def using lock_step.unlock by simp

text \<open>What an element hears in a callback: nothing, that it has the lock, or an error, maybe after a status.\<close>

datatype news = Quiet | Gets_lock | Gets_error string int | Loses string int

fun heard :: "zk_rc \<Rightarrow> news \<Rightarrow> pop_run \<Rightarrow> pop_run" where
  "heard zk Quiet st = st"
| "heard zk Gets_lock st = told zk st (Mutex_status True)"
| "heard zk (Gets_error cause rc) st = told zk st (Mutex_error cause rc)"
| "heard zk (Loses cause rc) st = told zk (told zk st (Mutex_status False)) (Mutex_error cause rc)"

definition news_of :: "zk_effect list \<Rightarrow> news \<Rightarrow> bool" where
  "news_of es n \<longleftrightarrow> (\<forall>zk st. foldl (told zk) st es = heard zk n st)"

lemma news_error_done:
  "\<exists>n. news_of (rb_zk_mutex_error_done m rc e) n \<and> (n = Quiet \<or> n = Gets_error e rc)"
proof (cases "mx_error_cb m")
  case True
  then show ?thesis by (intro exI [of _ "Gets_error e rc"]) (simp add: news_of_def rb_zk_mutex_error_done_def)
next
  case False
  then show ?thesis by (intro exI [of _ Quiet]) (simp add: news_of_def rb_zk_mutex_error_done_def)
qed

lemma news_called: "news_of es n \<Longrightarrow> news_of (Called c # es) n"
  by (simp add: news_of_def)

lemma news_quiet [simp]: "news_of [] Quiet" "news_of [Called c] Quiet"
  by (simp_all add: news_of_def)

lemma next_phase_freed: "next_phase (Called c # rb_zk_mutex_error_done m rc e) = Idle"
  by (simp add: next_phase_def)

text \<open>An attempt that has the lock keeps it in its callbacks, unless the client was disconnected.\<close>

definition before_lock :: "lock_phase \<Rightarrow> bool" where
  "before_lock ph \<longleftrightarrow> ph \<notin> {Idle, Leading, Unlocking}"

definition news_fit :: "bool \<Rightarrow> lock_phase \<Rightarrow> lock_phase \<Rightarrow> news \<Rightarrow> bool" where
  "news_fit faulty ph ph' n \<longleftrightarrow>
     (case n of
        Quiet \<Rightarrow> before_lock ph' \<or> ph' = Idle
      | Gets_lock \<Rightarrow> ph' = Leading
      | Gets_error cause rc \<Rightarrow> ph' = Idle
      | Loses cause rc \<Rightarrow> faulty \<and> ph' = Idle) \<and>
     (before_lock ph \<or> (\<exists>cause rc. n = Loses cause rc))"

definition speaks :: "bool \<Rightarrow> lock_phase \<Rightarrow> zk_effect list \<Rightarrow> bool" where
  "speaks faulty ph es \<longleftrightarrow> (\<exists>n. news_of es n \<and> news_fit faulty ph (next_phase es) n)"

lemma speaks_failing:
  assumes "before_lock ph"
  shows "speaks faulty ph (rb_zk_mutex_error_done m rc e)" "speaks faulty ph (Called c # rb_zk_mutex_error_done m rc e)"
proof -
  obtain n where n: "news_of (rb_zk_mutex_error_done m rc e) n" "n = Quiet \<or> n = Gets_error e rc"
    using news_error_done by blast
  then have fit: "news_fit faulty ph Idle n" using assms by (auto simp: news_fit_def)
  show "speaks faulty ph (rb_zk_mutex_error_done m rc e)"
    unfolding speaks_def using n(1) fit by (intro exI [of _ n]) simp
  show "speaks faulty ph (Called c # rb_zk_mutex_error_done m rc e)"
    unfolding speaks_def using news_called [OF n(1)] fit by (intro exI [of _ n]) (simp add: next_phase_freed)
qed

lemma speaks_calling:
  assumes "before_lock ph" and "before_lock (next_phase [Called c])"
  shows "speaks faulty ph [Called c]"
  unfolding speaks_def using assms by (intro exI [of _ Quiet]) (simp add: news_fit_def)

lemma before_lock_asked [simp]:
  "before_lock Creating" "before_lock (Created nm)" "before_lock Listing" "before_lock (Listed strings)"
  "before_lock (Watching p)" "before_lock Stuck" "\<not> before_lock Idle" "\<not> before_lock Leading" "\<not> before_lock Unlocking"
  by (simp_all add: before_lock_def)

lemma calls_back_speaks:
  assumes "lock_calls_back faulty dir s zk i r"
  shows "speaks faulty (ls_phase s i) (snd r)"
  using assms
proof cases
  case (create_done nm mem)
  then show ?thesis
    by (simp add: create_mutex_node_complete_def Let_def speaks_failing speaks_calling)
next
  case (create_failed rc mem)
  then have "before_lock (ls_phase s i)" by auto
  with create_failed show ?thesis by (simp add: create_mutex_node_complete_def speaks_failing)
next
  case (list_done strings)
  have "speaks faulty (ls_phase s i) [Mutex_status True]"
    unfolding speaks_def
    by (rule exI [of _ Gets_lock]) (simp add: news_of_def news_fit_def list_done)
  with list_done show ?thesis
    by (simp add: leader_get_children_complete_def Let_def speaks_failing speaks_calling split: option.split)
next
  case (list_failed rc strings)
  then show ?thesis unfolding speaks_def
    by (intro exI [of _ Quiet]) (simp add: leader_get_children_complete_def news_fit_def)
next
  case (watch b)
  then show ?thesis by (simp add: previous_leader_watcher_def speaks_calling)
next
  case (disconnected buf state)
  then show ?thesis unfolding speaks_def
    by (intro exI [of _ "Loses buf state"])
      (simp add: news_of_def news_fit_def rb_zk_mutex_done_def rb_zk_mutex_error_done_def)
qed

lemma lock0_speaks: "before_lock ph \<Longrightarrow> speaks faulty ph (rb_zk_mutex_lock0 zk m)"
  by (simp add: rb_zk_mutex_lock0_def Let_def speaks_failing speaks_calling)

section \<open>What the handlers keep of an element\<close>

lemmas handler_defs = rb_zk_queue_mutex_status_change_def rb_zk_queue_pop_nolock_def rb_zk_queue_mutex_error_cb_def
  rb_zk_queue_child_watcher_def rb_zk_queue_pop_minimum0_def rb_zk_queue_get_element_def
  rb_zk_queue_delete_completed_def fail_element_def rb_zk_queue_element_decref_def Let_def

lemma handlers_keep_path [simp]:
  "q_path (fst (rb_zk_queue_mutex_status_change zk got q)) = q_path q"
  "q_path (fst (rb_zk_queue_mutex_error_cb cause rc q)) = q_path q"
  "q_path (fst (rb_zk_queue_child_watcher zk c q)) = q_path q"
  "q_path (fst (rb_zk_queue_pop_minimum0 zk rc strings w q)) = q_path q"
  "q_path (fst (rb_zk_queue_get_element zk rc v q)) = q_path q"
  "q_path (fst (rb_zk_queue_delete_completed rc q)) = q_path q"
  by (simp_all add: handler_defs split: option.split)

lemma handlers_keep_element_path [simp]:
  "q_element_path (fst (rb_zk_queue_mutex_status_change zk got q)) = q_element_path q"
  "q_element_path (fst (rb_zk_queue_mutex_error_cb cause rc q)) = q_element_path q"
  "q_element_path (fst (rb_zk_queue_child_watcher zk c q)) = q_element_path q"
  "q_element_path (fst (rb_zk_queue_get_element zk rc v q)) = q_element_path q"
  "q_element_path (fst (rb_zk_queue_delete_completed rc q)) = q_element_path q"
  by (simp_all add: handler_defs)

lemma pop_minimum_element_path:
  "0 \<le> rc \<Longrightarrow> min_str strings = Some m \<Longrightarrow>
     q_element_path (fst (rb_zk_queue_pop_minimum0 zk rc strings w q)) = Some (node_path (directory_of (q_path q)) m)"
  "rc < 0 \<Longrightarrow> q_element_path (fst (rb_zk_queue_pop_minimum0 zk rc strings w q)) = q_element_path q"
  by (simp_all add: handler_defs node_path_def)

lemma handlers_data [simp]:
  "queue_data (snd (rb_zk_queue_pop_minimum0 zk rc strings w q)) = []"
  "queue_data (snd (rb_zk_queue_child_watcher zk c q)) = []"
  "queue_data (snd (rb_zk_queue_get_element zk rc v q)) = (if rc < 0 then [] else [v])"
  "queue_data (snd (rb_zk_queue_delete_completed rc q)) = []"
  by (simp_all add: handler_defs split: option.split)

lemma delete_completed_unlocks:
  "Unlock_mutex \<in> set (snd (rb_zk_queue_delete_completed rc q)) \<longleftrightarrow> q_mutex q"
  by (simp add: handler_defs)

lemma handled_fields [simp]:
  "pr_element (handled st r next' stale) = fst r"
  "pr_awaiting (handled st r next' stale) = (if q_freed (fst r) then Await_nothing else next')"
  "pr_stale_watch (handled st r next' stale) = stale"
  by (simp_all add: handled_def)

lemma hear_fields [simp]:
  "dq_lock (hear zk i es d) = dq_lock d" "dq_answer (hear zk i es d) = dq_answer d" "dq_begun (hear zk i es d) = dq_begun d"
  "dq_queue (hear zk i es d) = dq_queue d" "dq_pushed (hear zk i es d) = dq_pushed d" "dq_handed (hear zk i es d) = dq_handed d"
  "dq_pop (hear zk i es d) = (dq_pop d)(i := foldl (told zk) (dq_pop d i) es)"
  by (simp_all add: hear_def)

lemma pops_fields [simp]:
  "dq_lock (pops i r n b d) = dq_lock d" "dq_begun (pops i r n b d) = dq_begun d"
  "dq_queue (pops i r n b d) = dq_queue d" "dq_pushed (pops i r n b d) = dq_pushed d"
  "dq_pop (pops i r n b d) = (dq_pop d)(i := handled (dq_pop d i) r n b)"
  "dq_answer (pops i r n b d) = (dq_answer d)(i := None)"
  "dq_handed (pops i r n b d) = dq_handed d @ map (\<lambda>v. (i, q_element_path (popped d i), v)) (queue_data (snd r))"
  by (simp_all add: pops_def)

text \<open>What an element hears does not move its paths.\<close>

lemma told_path [simp]:
  "q_path (pr_element (told zk st e)) = q_path (pr_element st)"
  "q_element_path (pr_element (told zk st e)) = q_element_path (pr_element st)"
  by (cases e; simp)+

lemma heard_path [simp]:
  "q_path (pr_element (heard zk n st)) = q_path (pr_element st)"
  "q_element_path (pr_element (heard zk n st)) = q_element_path (pr_element st)"
  by (cases n; simp del: told.simps)+

section \<open>Nothing is lost\<close>

text \<open>What holds of every pop, whatever fails: what it waits for is what the server may answer, and what it
  is about to delete was handed over.\<close>

definition pop_ok ::
    "string \<Rightarrow> (string \<times> string) set \<Rightarrow> (string option \<times> string) set \<Rightarrow> bool \<Rightarrow> lock_phase \<Rightarrow> pop_run
      \<Rightarrow> queue_answer option \<Rightarrow> bool" where
  "pop_ok path pushed handed begun ph st a \<longleftrightarrow>
     (\<not> begun \<longrightarrow> ph = Idle \<and> pr_awaiting st = Await_nothing \<and> a = None) \<and>
     (before_lock ph \<longrightarrow> pr_awaiting st = Await_lock) \<and>
     (begun \<longrightarrow> q_path (pr_element st) = path) \<and>
     (case pr_awaiting st of
        Await_children w \<Rightarrow> a = None \<or> (\<exists>strings. a = Some (Children_are strings))
      | Await_data \<Rightarrow>
          (\<exists>nm. q_element_path (pr_element st) = Some (node_path (directory_of path) nm)
             \<and> (a = None \<or> (\<exists>v. a = Some (Data_is v) \<and> (nm, v) \<in> pushed)))
      | Await_delete \<Rightarrow>
          (\<exists>nm v. q_element_path (pr_element st) = Some (node_path (directory_of path) nm) \<and> (nm, v) \<in> pushed
             \<and> (q_element_path (pr_element st), v) \<in> handed \<and> (a = None \<or> a = Some Deleted_it))
      | _ \<Rightarrow> a = None)"

abbreviation given_out :: "dist_sys \<Rightarrow> (string option \<times> string) set" where
  "given_out d \<equiv> snd ` set (dq_handed d)"

definition dist_inv :: "string \<Rightarrow> string \<Rightarrow> dist_sys \<Rightarrow> bool" where
  "dist_inv dir path d \<longleftrightarrow>
     lock_inv dir (dq_lock d) \<and>
     (\<forall>i. pop_ok path (set (dq_pushed d)) (given_out d) (i \<in> dq_begun d) (ls_phase (dq_lock d) i) (dq_pop d i) (dq_answer d i)) \<and>
     sorted_wrt (\<lambda>p q. fst p < fst q) (dq_pushed d) \<and> dq_queue d \<subseteq>\<^sub>m map_of (dq_pushed d) \<and>
     (\<forall>nm v. (nm, v) \<in> set (dq_pushed d) \<longrightarrow>
        dq_queue d nm = Some v \<or> (Some (node_path (directory_of path) nm), v) \<in> given_out d)"

lemma pop_ok_mono:
  "pop_ok path pushed handed begun ph st a \<Longrightarrow> pushed \<subseteq> pushed' \<Longrightarrow> handed \<subseteq> handed' \<Longrightarrow>
     pop_ok path pushed' handed' begun ph st a"
  unfolding pop_ok_def by (cases "pr_awaiting st") fastforce+

text \<open>A pop that moves alone, without touching the queue.\<close>

lemma dist_inv_move:
  assumes inv: "dist_inv dir path d"
    and lock: "lock_inv dir (dq_lock e)"
    and queue: "dq_queue e = dq_queue d" "dq_pushed e = dq_pushed d" "set (dq_handed d) \<subseteq> set (dq_handed e)"
    and others: "\<And>j. j \<noteq> i \<Longrightarrow> (j \<in> dq_begun e) = (j \<in> dq_begun d) \<and> ls_phase (dq_lock e) j = ls_phase (dq_lock d) j
        \<and> dq_pop e j = dq_pop d j \<and> dq_answer e j = dq_answer d j"
    and ok: "pop_ok path (set (dq_pushed e)) (given_out e) (i \<in> dq_begun e) (ls_phase (dq_lock e) i) (dq_pop e i) (dq_answer e i)"
  shows "dist_inv dir path e"
proof -
  have given: "given_out d \<subseteq> given_out e" using queue(3) by blast
  have "pop_ok path (set (dq_pushed e)) (given_out e) (j \<in> dq_begun e) (ls_phase (dq_lock e) j) (dq_pop e j) (dq_answer e j)" for j
  proof (cases "j = i")
    case False
    have "pop_ok path (set (dq_pushed d)) (given_out d) (j \<in> dq_begun d) (ls_phase (dq_lock d) j) (dq_pop d j) (dq_answer d j)"
      using inv by (simp add: dist_inv_def)
    from pop_ok_mono [OF this _ given] others [OF False] queue(2) show ?thesis by simp
  qed (simp add: ok)
  then show ?thesis using inv lock queue given unfolding dist_inv_def by (simp only: queue) blast
qed

lemma serves_phase:
  "lock_serves faulty dir s t \<Longrightarrow>
     ls_phase t j = ls_phase s j \<or> ls_phase s j \<noteq> Idle \<and> (before_lock (ls_phase t j) \<longrightarrow> before_lock (ls_phase s j))"
  by (induction rule: lock_serves.induct) (auto simp: at_phase_def acts_def)

lemma calls_back_phase: "lock_calls_back faulty dir s zk i r \<Longrightarrow> ls_phase s i \<noteq> Idle"
  by (induction rule: lock_calls_back.induct) auto

lemma unlocks_phase:
  "ls_phase (unlocks i es s) j = ls_phase s j \<or> j = i \<and> ls_phase s j = Leading \<and> ls_phase (unlocks i es s) j = Unlocking"
  by (simp add: unlocks_def acts_def rb_zk_mutex_unlock_def)

lemma pop_ok_phase:
  "pop_ok path pushed handed b ph st a \<Longrightarrow> ph' = ph \<or> b \<and> (before_lock ph' \<longrightarrow> before_lock ph) \<Longrightarrow>
     pop_ok path pushed handed b ph' st a"
  by (auto simp: pop_ok_def)

lemma heard_ok:
  assumes ok: "pop_ok path pushed handed True ph st a" and fit: "news_fit faulty ph ph' n"
  shows "pop_ok path pushed handed True ph' (heard zk n st) a"
proof (cases n)
  case (Loses cause rc)
  then have "ph' = Idle" using fit by (simp add: news_fit_def)
  moreover have "pr_awaiting (heard zk n st) = still_waits (pr_awaiting st)" using Loses by simp
  ultimately show ?thesis using ok
    by (cases "pr_awaiting st") (simp_all add: pop_ok_def still_waits_def)
qed (use ok fit in \<open>auto simp: pop_ok_def news_fit_def still_waits_def\<close>)

lemma dist_inv_pop_ok:
  "dist_inv dir path d \<Longrightarrow>
     pop_ok path (set (dq_pushed d)) (given_out d) (i \<in> dq_begun d) (ls_phase (dq_lock d) i) (dq_pop d i) (dq_answer d i)"
  by (simp add: dist_inv_def)

lemma dist_inv_lock: "dist_inv dir path d \<Longrightarrow> lock_inv dir (dq_lock d)"
  by (simp add: dist_inv_def)

lemma dist_inv_begun:
  "dist_inv dir path d \<Longrightarrow> waits_for d i \<noteq> Await_nothing \<or> ls_phase (dq_lock d) i \<noteq> Idle \<Longrightarrow> i \<in> dq_begun d"
  using dist_inv_pop_ok [of dir path d i] by (auto simp: pop_ok_def)

lemma dist_inv_path:
  "dist_inv dir path d \<Longrightarrow> i \<in> dq_begun d \<Longrightarrow> q_path (popped d i) = path"
  using dist_inv_pop_ok [of dir path d i] by (auto simp: pop_ok_def)

lemma busy_no_wait:
  assumes "dist_inv dir path d" and "waits_for d i \<noteq> Await_lock"
  shows "\<not> before_lock (ls_phase (dq_lock d) i)"
  using dist_inv_pop_ok [OF assms(1), of i] assms(2) by (auto simp: pop_ok_def)

text \<open>A callback of the element; the lock may be given back in it.\<close>

definition next_ok :: "string \<Rightarrow> (string \<times> string) set \<Rightarrow> (string option \<times> string) set \<Rightarrow> string option \<Rightarrow> awaiting \<Rightarrow> bool" where
  "next_ok path pushed handed p a \<longleftrightarrow>
     (case a of
        Await_lock \<Rightarrow> False
      | Await_data \<Rightarrow> \<exists>nm. p = Some (node_path (directory_of path) nm)
      | Await_delete \<Rightarrow> \<exists>nm v. p = Some (node_path (directory_of path) nm) \<and> (nm, v) \<in> pushed \<and> (p, v) \<in> handed
      | _ \<Rightarrow> True)"

lemma pop_ok_handled:
  "next_ok path pushed handed (q_element_path (fst r)) next' \<Longrightarrow> \<not> before_lock ph \<Longrightarrow> q_path (fst r) = path \<Longrightarrow>
     pop_ok path pushed handed True ph (handled st r next' b) None"
  by (cases next') (auto simp: pop_ok_def next_ok_def)

lemma dist_inv_pops:
  assumes inv: "dist_inv dir path d" and at: "waits_for d i \<noteq> Await_nothing" "waits_for d i \<noteq> Await_lock"
    and lock: "lock_inv dir l"
      "\<And>j. ls_phase l j = ls_phase (dq_lock d) j \<or> j = i \<and> \<not> before_lock (ls_phase l j)"
    and q_path: "q_path (fst r) = q_path (popped d i)"
    and next': "next_ok path (set (dq_pushed d)) (given_out (pops i r next' b d)) (q_element_path (fst r)) next'"
    and e: "e = (pops i r next' b d)\<lparr>dq_lock := l\<rparr>"
  shows "dist_inv dir path e"
proof (rule dist_inv_move [OF inv, where i = i])
  have begun: "i \<in> dq_begun d" using dist_inv_begun [OF inv] at(1) by blast
  have ph: "\<not> before_lock (ls_phase l i)" using lock(2) [of i] busy_no_wait [OF inv at(2)] by auto
  from pop_ok_handled [OF next' this] q_path dist_inv_path [OF inv begun] begun
  show "pop_ok path (set (dq_pushed e)) (given_out e) (i \<in> dq_begun e) (ls_phase (dq_lock e) i) (dq_pop e i) (dq_answer e i)"
    by (simp add: e)
qed (use lock in \<open>auto simp: e\<close>)

lemma dist_inv_pops_same:
  assumes "dist_inv dir path d" and "waits_for d i \<noteq> Await_nothing" "waits_for d i \<noteq> Await_lock"
    and "q_path (fst r) = q_path (popped d i)"
    and "next_ok path (set (dq_pushed d)) (given_out (pops i r next' b d)) (q_element_path (fst r)) next'"
  shows "dist_inv dir path (pops i r next' b d)"
  by (rule dist_inv_pops [OF assms(1-3) dist_inv_lock [OF assms(1)] _ assms(4,5)]) (simp_all add: pops_def)

lemma map_of_snoc: "nm \<notin> fst ` set xs \<Longrightarrow> map_of (xs @ [(nm, v)]) = (map_of xs)(nm \<mapsto> v)"
  by (induction xs) (auto simp: fun_upd_twist)

lemma dist_inv_push:
  assumes inv: "dist_inv dir path d" and new: "\<forall>p \<in> set (dq_pushed d). fst p < nm"
  shows "dist_inv dir path (d\<lparr>dq_queue := (dq_queue d)(nm \<mapsto> v), dq_pushed := dq_pushed d @ [(nm, v)]\<rparr>)"
proof -
  have fresh: "nm \<notin> fst ` set (dq_pushed d)" using new by auto
  have "(dq_queue d)(nm \<mapsto> v) \<subseteq>\<^sub>m (map_of (dq_pushed d))(nm \<mapsto> v)"
    using inv by (auto simp: dist_inv_def map_le_def)
  moreover have "sorted_wrt (\<lambda>p q. fst p < fst q) (dq_pushed d @ [(nm, v)])"
    using inv new by (simp add: dist_inv_def sorted_wrt_append)
  moreover have "((dq_queue d)(nm \<mapsto> v)) n = Some w \<or> (Some (node_path (directory_of path) n), w) \<in> given_out d"
    if "(n, w) \<in> set (dq_pushed d @ [(nm, v)])" for n w
    using that inv fresh by (force simp: dist_inv_def)
  moreover have "pop_ok path (set (dq_pushed d @ [(nm, v)])) (given_out d) (i \<in> dq_begun d) (ls_phase (dq_lock d) i)
      (dq_pop d i) (dq_answer d i)" for i
    by (rule pop_ok_mono [OF dist_inv_pop_ok [OF inv]]) auto
  ultimately show ?thesis using dist_inv_lock [OF inv] unfolding dist_inv_def
    by (simp add: map_of_snoc [OF fresh] del: set_append map_of_append)
qed

lemma dist_inv_lock_server:
  assumes inv: "dist_inv dir path d" and l: "lock_serves faulty dir (dq_lock d) l"
  shows "dist_inv dir path (d\<lparr>dq_lock := l\<rparr>)"
proof -
  have "pop_ok path (set (dq_pushed d)) (given_out d) (i \<in> dq_begun d) (ls_phase l i) (dq_pop d i) (dq_answer d i)" for i
    by (rule pop_ok_phase [OF dist_inv_pop_ok [OF inv]]) (use serves_phase [OF l, of i] dist_inv_begun [OF inv] in auto)
  with inv lock_inv_step [OF dist_inv_lock [OF inv] serves_step [OF l, where leaf = leaf]] show ?thesis
    by (simp add: dist_inv_def)
qed

lemma speaks_heard:
  assumes "speaks faulty ph es"
  obtains n where "\<And>st. foldl (told zk) st es = heard zk n st" "news_fit faulty ph (next_phase es) n"
  using assms by (auto simp: speaks_def news_of_def)

lemma dist_inv_asks:
  assumes inv: "dist_inv dir path d" and i: "i \<notin> dq_begun d" and lib: "client_lib faulty dir d zk"
    and m: "m = rb_zk_mutex_create_entry (node_path dir leaf)"
    and e: "e = hear zk i (rb_zk_mutex_lock0 zk m)
     (d\<lparr>dq_lock := acts i (m, rb_zk_mutex_lock0 zk m) (dq_lock d), dq_pop := (dq_pop d)(i := pop_started path),
        dq_begun := insert i (dq_begun d)\<rparr>)"
  shows "dist_inv dir path e"
proof (rule dist_inv_move [OF inv, where i = i])
  have idle: "ls_phase (dq_lock d) i = Idle" "dq_answer d i = None"
    using dist_inv_pop_ok [OF inv, of i] i by (simp_all add: pop_ok_def)
  from lock_inv_step [OF dist_inv_lock [OF inv] asks_step [OF idle(1) lib m]]
  show "lock_inv dir (dq_lock e)" by (simp add: e)
  obtain n where n: "\<And>st. foldl (told zk) st (rb_zk_mutex_lock0 zk m) = heard zk n st"
    "news_fit faulty Creating (next_phase (rb_zk_mutex_lock0 zk m)) n"
    using speaks_heard [OF lock0_speaks [OF before_lock_asked(1)]] by metis
  have "pop_ok path (set (dq_pushed d)) (given_out d) True Creating (pop_started path) None"
    by (simp add: pop_ok_def pop_started_def rb_zk_queue_pop_def new_queue_element_def)
  from heard_ok [OF this n(2)]
  show "pop_ok path (set (dq_pushed e)) (given_out e) (i \<in> dq_begun e) (ls_phase (dq_lock e) i) (dq_pop e i) (dq_answer e i)"
    by (simp add: e acts_phase n(1) idle)
qed (simp_all add: e acts_phase)

lemma dist_inv_lock_callback:
  assumes inv: "dist_inv dir path d" and lib: "client_lib faulty dir d zk"
    and r: "lock_calls_back faulty dir (dq_lock d) zk i r"
    and e: "e = hear zk i (snd r) (d\<lparr>dq_lock := acts i r (dq_lock d)\<rparr>)"
  shows "dist_inv dir path e"
proof (rule dist_inv_move [OF inv, where i = i])
  from lock_inv_step [OF dist_inv_lock [OF inv] calls_back_step [OF r lib, where leaf = leaf]]
  show "lock_inv dir (dq_lock e)" by (simp add: e)
  obtain n where n: "\<And>st. foldl (told zk) st (snd r) = heard zk n st"
    "news_fit faulty (ls_phase (dq_lock d) i) (next_phase (snd r)) n"
    using speaks_heard [OF calls_back_speaks [OF r]] by metis
  have begun: "i \<in> dq_begun d" using dist_inv_begun [OF inv] calls_back_phase [OF r] by blast
  then have "pop_ok path (set (dq_pushed d)) (given_out d) True (ls_phase (dq_lock d) i) (dq_pop d i) (dq_answer d i)"
    using dist_inv_pop_ok [OF inv, of i] by simp
  from heard_ok [OF this n(2)] begun
  show "pop_ok path (set (dq_pushed e)) (given_out e) (i \<in> dq_begun e) (ls_phase (dq_lock e) i) (dq_pop e i) (dq_answer e i)"
    by (simp add: e acts_phase n(1))
qed (simp_all add: e acts_phase)

text \<open>An answer of the server: the pop it is for may use it.\<close>

lemma dist_inv_answer:
  assumes inv: "dist_inv dir path d"
    and a: "waits_for d i = Await_children w \<and> a = Children_are strings
      \<or> waits_for d i = Await_data \<and> a = Data_is v \<and>
          q_element_path (popped d i) = Some (node_path (directory_of path) nm) \<and> dq_queue d nm = Some v"
  shows "dist_inv dir path (d\<lparr>dq_answer := (dq_answer d)(i \<mapsto> a)\<rparr>)"
proof (rule dist_inv_move [OF inv, where i = i])
  have "(nm, v) \<in> set (dq_pushed d)" if "dq_queue d nm = Some v"
    using that inv by (auto simp: dist_inv_def map_le_def dom_def intro: map_of_SomeD)
  then show "pop_ok path (set (dq_pushed (d\<lparr>dq_answer := (dq_answer d)(i \<mapsto> a)\<rparr>))) (given_out (d\<lparr>dq_answer := (dq_answer d)(i \<mapsto> a)\<rparr>))
      (i \<in> dq_begun (d\<lparr>dq_answer := (dq_answer d)(i \<mapsto> a)\<rparr>)) (ls_phase (dq_lock (d\<lparr>dq_answer := (dq_answer d)(i \<mapsto> a)\<rparr>)) i)
      (dq_pop (d\<lparr>dq_answer := (dq_answer d)(i \<mapsto> a)\<rparr>) i) (dq_answer (d\<lparr>dq_answer := (dq_answer d)(i \<mapsto> a)\<rparr>) i)"
    using dist_inv_pop_ok [OF inv, of i] a by (auto simp: pop_ok_def)
qed (use dist_inv_lock [OF inv] in simp_all)

lemma pop_ok_deleted:
  "pop_ok path pushed handed b ph st a \<Longrightarrow> pr_awaiting st = Await_delete \<Longrightarrow>
     pop_ok path pushed handed b ph st (Some Deleted_it)"
  by (auto simp: pop_ok_def)

lemma dist_inv_delete_answered:
  assumes inv: "dist_inv dir path d" and at: "waits_for d i = Await_delete"
    and nm: "q_element_path (popped d i) = Some (node_path (directory_of path) nm)"
  shows "dist_inv dir path (d\<lparr>dq_queue := (dq_queue d)(nm := None), dq_answer := (dq_answer d)(i \<mapsto> Deleted_it)\<rparr>)"
proof -
  have ok: "pop_ok path (set (dq_pushed d)) (given_out d) (j \<in> dq_begun d) (ls_phase (dq_lock d) j)
      (dq_pop d j) (((dq_answer d)(i \<mapsto> Deleted_it)) j)" for j
    using pop_ok_deleted [OF dist_inv_pop_ok [OF inv, of i] at] dist_inv_pop_ok [OF inv, of j] by simp
  obtain v where v: "(nm, v) \<in> set (dq_pushed d)" "(Some (node_path (directory_of path) nm), v) \<in> given_out d"
    using dist_inv_pop_ok [OF inv, of i] at nm by (auto simp: pop_ok_def)
  have "distinct (map fst (dq_pushed d))"
    using inv strict_sorted_iff [of "map fst (dq_pushed d)"] by (simp add: dist_inv_def sorted_wrt_map)
  then have "w = v" if "(nm, w) \<in> set (dq_pushed d)" for w using that v(1) by (rule eq_key_imp_eq_value)
  then have "((dq_queue d)(nm := None)) n = Some w \<or> (Some (node_path (directory_of path) n), w) \<in> given_out d"
    if "(n, w) \<in> set (dq_pushed d)" for n w
    using that v(2) inv by (auto simp: dist_inv_def)
  moreover have "(dq_queue d)(nm := None) \<subseteq>\<^sub>m map_of (dq_pushed d)"
    using inv by (auto simp: dist_inv_def map_le_def dom_def)
  ultimately show ?thesis using ok inv by (simp add: dist_inv_def)
qed

lemma dist_inv_children:
  assumes inv: "dist_inv dir path d" and at: "waits_for d i = Await_children w"
  shows "dist_inv dir path
     (pops i (rb_zk_queue_pop_minimum0 zk rc strings w (popped d i))
       (if rc < 0 then Await_nothing else if min_str strings \<noteq> None then Await_data
        else if w then Await_watch else Await_children True) b d)"
proof (rule dist_inv_pops_same [OF inv])
  have "q_path (popped d i) = path" using dist_inv_path [OF inv] dist_inv_begun [OF inv] at by simp
  then show "next_ok path (set (dq_pushed d)) (given_out (pops i (rb_zk_queue_pop_minimum0 zk rc strings w (popped d i))
      (if rc < 0 then Await_nothing else if min_str strings \<noteq> None then Await_data
        else if w then Await_watch else Await_children True) b d))
     (q_element_path (fst (rb_zk_queue_pop_minimum0 zk rc strings w (popped d i))))
     (if rc < 0 then Await_nothing else if min_str strings \<noteq> None then Await_data
        else if w then Await_watch else Await_children True)"
    using pop_minimum_element_path(1) [of rc strings _ zk w "popped d i"]
    by (cases "min_str strings") (simp_all add: next_ok_def)
qed (simp_all add: at)

lemma dist_inv_data:
  assumes inv: "dist_inv dir path d" and at: "waits_for d i = Await_data"
    and rc: "rc = 0 \<and> dq_answer d i = Some (Data_is v) \<or> rc < 0"
  shows "dist_inv dir path
     (pops i (rb_zk_queue_get_element zk rc v (popped d i))
       (if rc < 0 \<or> zk (Adelete (q_element_path (popped d i))) < 0 then Await_nothing else Await_delete) b d)"
proof (rule dist_inv_pops_same [OF inv])
  show "next_ok path (set (dq_pushed d)) (given_out (pops i (rb_zk_queue_get_element zk rc v (popped d i))
      (if rc < 0 \<or> zk (Adelete (q_element_path (popped d i))) < 0 then Await_nothing else Await_delete) b d))
     (q_element_path (fst (rb_zk_queue_get_element zk rc v (popped d i))))
     (if rc < 0 \<or> zk (Adelete (q_element_path (popped d i))) < 0 then Await_nothing else Await_delete)"
  proof (cases "rc < 0")
    case False
    then obtain nm where "q_element_path (popped d i) = Some (node_path (directory_of path) nm)" "(nm, v) \<in> set (dq_pushed d)"
      using dist_inv_pop_ok [OF inv, of i] at rc by (auto simp: pop_ok_def)
    then show ?thesis using False by (simp add: next_ok_def) blast
  qed (simp add: next_ok_def)
qed (simp_all add: at)

lemma unlocks_inv: "lock_inv dir s \<Longrightarrow> lock_inv dir (unlocks i es s)"
  using unlocks_step [of i es s False dir] lock_inv_step by metis

lemma dist_inv_deleted:
  assumes inv: "dist_inv dir path d" and at: "waits_for d i = Await_delete"
  shows "dist_inv dir path
     ((pops i (rb_zk_queue_delete_completed rc (popped d i)) Await_nothing b d)
        \<lparr>dq_lock := unlocks i es (dq_lock d)\<rparr>)"
proof (rule dist_inv_pops [OF inv])
  show "ls_phase (unlocks i es (dq_lock d)) j = ls_phase (dq_lock d) j \<or> j = i \<and> \<not> before_lock (ls_phase (unlocks i es (dq_lock d)) j)" for j
    using unlocks_phase [of i es "dq_lock d" j] by auto
qed (simp_all add: at unlocks_inv dist_inv_lock [OF inv] next_ok_def)

lemma dist_inv_watch:
  assumes inv: "dist_inv dir path d" and at: "waits_for d i = Await_watch"
  shows "dist_inv dir path
     (pops i (rb_zk_queue_child_watcher zk True (popped d i))
       (if q_ignore_watcher (popped d i) then Await_nothing else Await_children False) b d)"
  by (rule dist_inv_pops_same [OF inv]) (simp_all add: at next_ok_def)

lemma dist_inv_stale_watch:
  assumes inv: "dist_inv dir path d"
  shows "dist_inv dir path (d\<lparr>dq_pop := (dq_pop d)(i := (handled (dq_pop d i)
      (rb_zk_queue_child_watcher zk True (popped d i)) Await_nothing False)\<lparr>pr_awaiting := waits_for d i\<rparr>)\<rparr>)"
proof -
  have "pop_ok path P G b ph (st\<lparr>pr_awaiting := pr_awaiting st'\<rparr>) a = pop_ok path P G b ph st' a"
    if "q_path (pr_element st) = q_path (pr_element st')" "q_element_path (pr_element st) = q_element_path (pr_element st')"
    for P G b ph st st' a using that by (simp add: pop_ok_def cong: awaiting.case_cong)
  then show ?thesis
    by (intro dist_inv_move [OF inv, where i = i]) (use dist_inv_pop_ok [OF inv, of i] dist_inv_lock [OF inv] in auto)
qed

lemma dist_inv_step:
  assumes inv: "dist_inv dir path d" and step: "dist_step faulty dir leaf path d e"
  shows "dist_inv dir path e"
  using step
proof cases
  case (push nm v) then show ?thesis using dist_inv_push [OF inv] by simp
next
  case (asks i zk m) then show ?thesis using dist_inv_asks [OF inv] by blast
next
  case (lock_server l) then show ?thesis using dist_inv_lock_server [OF inv] by blast
next
  case (lock_callback zk i r) then show ?thesis using dist_inv_lock_callback [OF inv] by blast
next
  case (children_answered i w strings) then show ?thesis using dist_inv_answer [OF inv] by blast
next
  case (children i w zk rc strings) then show ?thesis using dist_inv_children [OF inv] by blast
next
  case (watch i zk) then show ?thesis using dist_inv_watch [OF inv] by blast
next
  case (data_answered i nm v) then show ?thesis using dist_inv_answer [OF inv] by blast
next
  case (data i zk rc v) then show ?thesis using dist_inv_data [OF inv, of i rc v] by blast
next
  case (delete_answered i nm v) then show ?thesis using dist_inv_delete_answered [OF inv] by blast
next
  case (deleted i rc r) then show ?thesis using dist_inv_deleted [OF inv] by blast
next
  case (stale_watch i zk) then show ?thesis using dist_inv_stale_watch [OF inv] by blast
qed

lemma dist_inv_start: "dist_inv dir path dist_start"
  using lock_inv_start [of dir] by (simp add: dist_inv_def dist_start_def pop_ok_def) (simp add: lock_start_def)

lemma dist_inv_reach: "dist_reach faulty dir leaf path d e \<Longrightarrow> dist_inv dir path d \<Longrightarrow> dist_inv dir path e"
  by (induction rule: dist_reach.induct) (auto intro: dist_inv_step)

end
