(* ===== verification/Zk_Queue_Order.thy ===== *)
theory Zk_Queue_Order
  imports Zk_Queue
begin

text \<open>
  The order of the distribution: as long as nothing fails, the directory is a queue, one pop works at a
  time, and what is handed over is what was pushed, in order.
\<close>

section \<open>Without faults: a queue\<close>

text \<open>Nothing takes a node from an attempt, so who leads has its node, and at most one pop works.\<close>

definition homed :: "lock_sys \<Rightarrow> bool" where
  "homed s \<longleftrightarrow> (\<forall>i nm. own s i = Some nm \<longrightarrow> nm \<in> ls_nodes s)"

lemma homed_step:
  assumes inv: "lock_inv dir s" and home: "homed s" and step: "lock_step False dir leaf s t"
  shows "homed t"
  unfolding homed_def
proof (intro allI impI)
  fix j nm
  assume own: "own t j = Some nm"
  have used: "nm \<in> ls_used t" using lock_inv_own [OF lock_inv_step [OF inv step] own] by blast
  have cases: "ls_nodes t = ls_nodes s \<and> ls_used t = ls_used s
     \<or> (\<exists>n. ls_nodes t = insert n (ls_nodes s) \<and> ls_used t = insert n (ls_used s))
     \<or> (\<exists>i n. ls_nodes t = ls_nodes s - {n} \<and> ls_used t = ls_used s \<and> own s i = Some n \<and> own t i = None)"
    using step
  proof cases
    case (delete i n)
    then have "own t i = None" by (simp add: own_def acts_def)
    with delete show ?thesis by (auto simp: acts_def)
  qed (auto simp: acts_def at_phase_def)
  from own_step [OF inv step, of j] own consider "own s j = Some nm" | "\<forall>u \<in> ls_used s. u < nm" by auto
  then show "nm \<in> ls_nodes t"
  proof cases
    case 1
    then have "nm \<in> ls_nodes s" using home by (auto simp: homed_def)
    moreover have "owners_differ s" using inv by (simp add: lock_inv_def)
    ultimately show ?thesis using cases own owners_differD [OF _ 1] by auto
  next
    case 2
    then have "nm \<notin> ls_used s" by blast
    then show ?thesis using cases used by auto
  qed
qed

definition busy :: "awaiting \<Rightarrow> bool" where
  "busy a \<longleftrightarrow> a \<noteq> Await_lock \<and> a \<noteq> Await_nothing"

definition works_alone :: "dist_sys \<Rightarrow> bool" where
  "works_alone d \<longleftrightarrow> homed (dq_lock d) \<and> (\<forall>i. busy (waits_for d i) \<longrightarrow> ls_phase (dq_lock d) i = Leading)"

lemma works_alone_one:
  assumes inv: "dist_inv dir path d" and al: "works_alone d" and "busy (waits_for d i)" "busy (waits_for d j)"
  shows "i = j"
proof -
  have lead: "ls_phase (dq_lock d) i = Leading" "ls_phase (dq_lock d) j = Leading" using assms by (simp_all add: works_alone_def)
  note lock = dist_inv_lock [OF inv]
  obtain n where n: "own (dq_lock d) i = Some n" using lock_inv_has_node [OF lock, of i] lead by auto
  obtain m where m: "own (dq_lock d) j = Some m" using lock_inv_has_node [OF lock, of j] lead by auto
  have "n \<in> ls_nodes (dq_lock d)" "m \<in> ls_nodes (dq_lock d)" using n m al by (auto simp: works_alone_def homed_def)
  then show ?thesis using one_leader [OF lock lead(1) n _ lead(2) m] by blast
qed

lemma heard_busy:
  assumes "news_fit False ph ph' n" and "pr_awaiting st = Await_lock"
  shows "busy (pr_awaiting (heard zk n st)) \<longrightarrow> ph' = Leading"
  using assms by (cases n) (auto simp: news_fit_def busy_def still_waits_def)

lemma busy_simps [simp]:
  "busy (Await_children w)" "busy Await_watch" "busy Await_data" "busy Await_delete"
  "\<not> busy Await_lock" "\<not> busy Await_nothing"
  by (simp_all add: busy_def)

lemma works_alone_step:
  assumes inv: "dist_inv dir path d" and al: "works_alone d" and step: "dist_step False dir leaf path d e"
  shows "works_alone e"
proof -
  note lock = dist_inv_lock [OF inv]
  have home: "homed (dq_lock d)" using al by (simp add: works_alone_def)
  note homed = homed_step [OF lock home]
  have lead: "ls_phase (dq_lock d) i = Leading" if "busy (waits_for d i)" for i using that al by (simp add: works_alone_def)
  show ?thesis using step
  proof cases
    case (asks i zk m)
    have idle: "ls_phase (dq_lock d) i = Idle" using dist_inv_pop_ok [OF inv, of i] asks by (simp add: pop_ok_def)
    obtain n where n: "\<And>st. foldl (told zk) st (rb_zk_mutex_lock0 zk m) = heard zk n st"
      "news_fit False Creating (next_phase (rb_zk_mutex_lock0 zk m)) n"
      using speaks_heard [OF lock0_speaks [OF before_lock_asked(1)]] by metis
    have "pr_awaiting (pop_started path) = Await_lock" by (simp add: pop_started_def)
    from heard_busy [OF n(2) this, of zk] homed [OF asks_step [OF idle asks(3,4)]] lead show ?thesis
      by (simp add: works_alone_def asks(1) acts_phase n(1))
  next
    case (lock_server l)
    have "ls_phase l i = Leading" if "ls_phase (dq_lock d) i = Leading" for i
      using lock_server(2) that by cases (auto simp: at_phase_def acts_def)
    then show ?thesis using lead homed [OF serves_step [OF lock_server(2)]] by (simp add: works_alone_def lock_server(1))
  next
    case (lock_callback zk i r)
    obtain n where n: "\<And>st. foldl (told zk) st (snd r) = heard zk n st"
      "news_fit False (ls_phase (dq_lock d) i) (next_phase (snd r)) n"
      using speaks_heard [OF calls_back_speaks [OF lock_callback(3)]] by metis
    then have "before_lock (ls_phase (dq_lock d) i)" by (auto simp: news_fit_def split: news.splits)
    then have "waits_for d i = Await_lock" using dist_inv_pop_ok [OF inv, of i] by (simp add: pop_ok_def)
    from heard_busy [OF n(2) this, of zk] homed [OF calls_back_step [OF lock_callback(3,2)]] lead show ?thesis
      by (simp add: works_alone_def lock_callback(1) acts_phase n(1))
  next
    case (deleted i rc r)
    have "homed (unlocks i (snd r) (dq_lock d))" using unlocks_step homed home by metis
    moreover have "ls_phase (unlocks i (snd r) (dq_lock d)) j = ls_phase (dq_lock d) j" if "j \<noteq> i" for j
      using that unlocks_phase by metis
    ultimately show ?thesis using lead by (simp add: works_alone_def deleted(1))
  next
    case (watch i zk)
    then show ?thesis using lead [of i] lead home by (simp add: works_alone_def)
  next
    case (stale_watch i zk)
    then show ?thesis using lead home by (simp add: works_alone_def)
  qed (use lead home in \<open>auto simp: works_alone_def\<close>)
qed

lemma works_alone_start: "works_alone dist_start"
  by (simp add: works_alone_def dist_start_def homed_def own_def lock_start_def)

text \<open>No element is used after its release, as Zk shows for one element alone.\<close>

lemma pop_inv_heard:
  assumes "pop_inv st" and "news_fit False ph ph' n" and "pr_awaiting st = Await_lock"
  shows "pop_inv (heard zk n st)"
proof (cases n)
  case Gets_lock
  then show ?thesis using assms
    by (auto intro!: pop_inv_handled handlers_keep_one dest: pop_inv_stale)
next
  case (Gets_error cause rc)
  have "pop_inv (handled st (rb_zk_queue_mutex_error_cb cause rc (pr_element st)) Await_nothing (pr_stale_watch st))"
    using assms by (auto intro!: pop_inv_handled handlers_keep_one dest: pop_inv_stale)
  then show ?thesis using assms(3) by (auto simp: Gets_error pop_inv_def still_waits_def handled_def split: if_splits)
qed (use assms in \<open>simp_all add: news_fit_def\<close>)

lemma stale_watch_ignored:
  assumes "pop_inv st" and "pr_stale_watch st" and "pr_awaiting st \<noteq> Await_nothing"
  shows "pop_inv ((handled st (rb_zk_queue_child_watcher zk True (pr_element st)) Await_nothing False)
      \<lparr>pr_awaiting := pr_awaiting st\<rparr>)"
  using assms by (auto simp: pop_inv_def rb_zk_queue_child_watcher_def handled_def split: if_splits)

lemma pops_alive:
  assumes inv: "dist_inv dir path d" and alive: "\<forall>i. pop_inv (dq_pop d i)" and step: "dist_step False dir leaf path d e"
  shows "\<forall>i. pop_inv (dq_pop e i)"
  using step
proof cases
  case (asks i zk m)
  obtain n where n: "\<And>st. foldl (told zk) st (rb_zk_mutex_lock0 zk m) = heard zk n st"
    "news_fit False Creating (next_phase (rb_zk_mutex_lock0 zk m)) n"
    using speaks_heard [OF lock0_speaks [OF before_lock_asked(1)]] by metis
  have "pop_inv (pop_started path)"
    by (simp add: pop_inv_def pop_started_def rb_zk_queue_pop_def new_queue_element_def)
  from pop_inv_heard [OF this n(2), of zk] alive show ?thesis by (simp add: asks(1) n(1) pop_started_def)
next
  case (lock_callback zk i r)
  obtain n where n: "\<And>st. foldl (told zk) st (snd r) = heard zk n st"
    "news_fit False (ls_phase (dq_lock d) i) (next_phase (snd r)) n"
    using speaks_heard [OF calls_back_speaks [OF lock_callback(3)]] by metis
  then have "before_lock (ls_phase (dq_lock d) i)" by (auto simp: news_fit_def split: news.splits)
  then have "waits_for d i = Await_lock" using dist_inv_pop_ok [OF inv, of i] by (simp add: pop_ok_def)
  with pop_inv_heard [OF _ n(2)] alive show ?thesis by (simp add: lock_callback(1) n(1))
next
  case (children i w zk rc strings)
  have "pop_inv (handled (dq_pop d i) (rb_zk_queue_pop_minimum0 zk rc strings w (popped d i)) n
      (w \<and> 0 \<le> rc \<and> min_str strings \<noteq> None))" for n
    by (rule pop_inv_handled [OF _ _ handlers_keep_one(3)]) (use alive children in \<open>simp_all add: pop_minimum_sets_ignore\<close>)
  then show ?thesis
    by (simp only: children(1) pops_fields fun_upd_apply split: if_split) (simp add: alive)
next
  case (watch i zk)
  have "pop_inv (handled (dq_pop d i) (rb_zk_queue_child_watcher zk True (popped d i)) n False)" for n
    by (rule pop_inv_handled [OF _ _ handlers_keep_one(4)]) (use alive watch in simp_all)
  with alive show ?thesis by (simp add: watch(1))
next
  case (data i zk rc v)
  have "pop_inv (handled (dq_pop d i) (rb_zk_queue_get_element zk rc v (popped d i)) n (pr_stale_watch (dq_pop d i)))" for n
    by (rule pop_inv_handled [OF _ _ handlers_keep_one(5)]) (use alive data in \<open>simp_all add: pop_inv_stale\<close>)
  with alive show ?thesis by (simp add: data(1))
next
  case (deleted i rc r)
  have "pop_inv (handled (dq_pop d i) (rb_zk_queue_delete_completed rc (popped d i)) Await_nothing (pr_stale_watch (dq_pop d i)))"
    by (rule pop_inv_handled [OF _ _ handlers_keep_one(6)]) (use alive deleted in \<open>simp_all add: pop_inv_stale\<close>)
  with alive show ?thesis by (simp add: deleted(1,4))
next
  case (stale_watch i zk)
  with stale_watch_ignored [of "dq_pop d i" zk] alive show ?thesis by simp
qed (use alive in simp_all)

lemma alive_start: "\<forall>i. pop_inv (dq_pop dist_start i)"
  by (simp add: dist_start_def pop_inv_def pop_started_def rb_zk_queue_pop_def new_queue_element_def)

text \<open>
  The queue: what was handed over, in order, is a first part of what was pushed, in order; the rest is in
  the directory, with the last of the first part as long as its deletion is asked for and not done.
\<close>

definition as_handed :: "string \<Rightarrow> string \<times> string \<Rightarrow> string option \<times> string" where
  "as_handed path p = (Some (node_path (directory_of path) (fst p)), snd p)"

definition deletes :: "dist_sys \<Rightarrow> nat \<Rightarrow> bool" where
  "deletes d i \<longleftrightarrow> waits_for d i = Await_delete \<and> dq_answer d i = None"

definition deleting :: "dist_sys \<Rightarrow> bool" where
  "deleting d \<longleftrightarrow> (\<exists>i. deletes d i)"

lemma deleting_same: "(\<And>i. deletes e i = deletes d i) \<Longrightarrow> deleting e = deleting d"
  by (simp add: deleting_def)

definition fresh_listing :: "(string \<rightharpoonup> string) \<Rightarrow> string option list \<Rightarrow> bool" where
  "fresh_listing Q strings \<longleftrightarrow>
     names_of strings \<subseteq> dom Q \<and> (\<forall>n \<in> dom Q - names_of strings. \<forall>s \<in> names_of strings. s < n)"

definition pop_knows ::
    "string \<Rightarrow> (string \<rightharpoonup> string) \<Rightarrow> (string option \<times> string) list \<Rightarrow> pop_run \<Rightarrow> queue_answer option \<Rightarrow> bool" where
  "pop_knows path Q handed st a \<longleftrightarrow>
     (case pr_awaiting st of
        Await_children w \<Rightarrow> \<forall>strings. a = Some (Children_are strings) \<longrightarrow> fresh_listing Q strings
      | Await_data \<Rightarrow> \<exists>nm. q_element_path (pr_element st) = Some (node_path (directory_of path) nm) \<and> nm \<in> dom Q
          \<and> (\<forall>n \<in> dom Q. nm \<le> n) \<and> (\<forall>v. a = Some (Data_is v) \<longrightarrow> Q nm = Some v)
      | Await_delete \<Rightarrow> a = None \<longrightarrow> handed \<noteq> [] \<and> q_element_path (pr_element st) = fst (last handed)
      | _ \<Rightarrow> True)"

definition queue_splits ::
    "string \<Rightarrow> bool \<Rightarrow> (string \<rightharpoonup> string) \<Rightarrow> (string \<times> string) list \<Rightarrow> (string option \<times> string) list
      \<Rightarrow> (string \<times> string) list \<Rightarrow> (string \<times> string) list \<Rightarrow> bool" where
  "queue_splits path del Q pushed handed front rest \<longleftrightarrow>
     pushed = front @ rest \<and> handed = map (as_handed path) front \<and>
     Q = map_of ((if del then [last front] else []) @ rest) \<and> (del \<longrightarrow> front \<noteq> [])"

definition queue_inv :: "string \<Rightarrow> dist_sys \<Rightarrow> bool" where
  "queue_inv path d \<longleftrightarrow>
     (\<forall>i. pop_knows path (dq_queue d) (map snd (dq_handed d)) (dq_pop d i) (dq_answer d i)) \<and>
     (\<exists>front rest. queue_splits path (deleting d) (dq_queue d) (dq_pushed d) (map snd (dq_handed d)) front rest)"

lemma queue_splits_push:
  assumes "queue_splits path del Q pushed handed front rest" and "nm \<notin> dom Q"
  shows "queue_splits path del (Q(nm \<mapsto> v)) (pushed @ [(nm, v)]) handed front (rest @ [(nm, v)])"
proof -
  have Q: "Q = map_of ((if del then [last front] else []) @ rest)" using assms(1) by (simp add: queue_splits_def)
  then have "nm \<notin> fst ` set ((if del then [last front] else []) @ rest)"
    using assms(2) by (simp only: dom_map_of_conv_image_fst) simp
  from map_of_snoc [OF this, of v] Q
  have "Q(nm \<mapsto> v) = map_of ((if del then [last front] else []) @ (rest @ [(nm, v)]))" by simp
  with assms(1) show ?thesis unfolding queue_splits_def by (simp del: map_of_append)
qed

lemma queue_splits_hand:
  assumes "queue_splits path False Q pushed handed front rest" and "sorted_wrt (\<lambda>p q. fst p < fst q) pushed"
    and "Q nm = Some v" and "\<forall>n \<in> dom Q. nm \<le> n"
  shows "\<exists>rest'. queue_splits path True Q pushed (handed @ [as_handed path (nm, v)]) (front @ [(nm, v)]) rest'"
proof -
  have Q: "Q = map_of rest" "pushed = front @ rest" "handed = map (as_handed path) front" using assms(1) by (simp_all add: queue_splits_def)
  then obtain p rest' where rest: "rest = p # rest'" using assms(3) by (cases rest) auto
  have sorted: "\<forall>q \<in> set rest'. fst p < fst q" using assms(2) by (simp add: Q(2) rest sorted_wrt_append)
  have "fst p \<in> dom Q" by (cases p) (simp add: Q(1) rest)
  then have "nm \<le> fst p" using assms(4) by blast
  moreover have "nm = fst p \<or> nm \<in> fst ` set rest'"
    using map_of_SomeD [of rest nm v] assms(3) unfolding Q(1) rest by (force split: if_splits)
  ultimately have "nm = fst p" using sorted by auto
  then have "p = (nm, v)" using assms(3) by (cases p) (simp add: Q(1) rest)
  then show ?thesis by (intro exI [of _ rest']) (simp add: queue_splits_def Q rest)
qed

lemma queue_splits_delete:
  assumes "queue_splits path True Q pushed handed front rest" and "sorted_wrt (\<lambda>p q. fst p < fst q) pushed"
    and "fst (last handed) = Some (node_path (directory_of path) nm)"
  shows "queue_splits path False (Q(nm := None)) pushed handed front rest"
proof -
  have Q: "Q = map_of (last front # rest)" "pushed = front @ rest" "handed = map (as_handed path) front" "front \<noteq> []"
    using assms(1) by (simp_all add: queue_splits_def)
  then have nm: "nm = fst (last front)" using assms(3) by (simp add: last_map as_handed_def)
  have "\<forall>q \<in> set rest. fst (last front) < fst q" using assms(2) Q(4) by (simp add: Q(2) sorted_wrt_append)
  then have "map_of rest nm = None" unfolding nm by (auto simp: map_of_eq_None_iff)
  then have "Q(nm := None) = map_of rest" by (auto simp: Q(1) nm fun_eq_iff)
  then show ?thesis using Q by (simp add: queue_splits_def)
qed

lemma queue_inv_quiet:
  assumes inv: "queue_inv path d"
    and same: "dq_queue e = dq_queue d" "dq_pushed e = dq_pushed d" "dq_handed e = dq_handed d"
    and others: "\<And>j. j \<noteq> i \<Longrightarrow> dq_pop e j = dq_pop d j \<and> dq_answer e j = dq_answer d j"
    and i: "pop_knows path (dq_queue d) (map snd (dq_handed d)) (dq_pop e i) (dq_answer e i)" "deletes e i = deletes d i"
  shows "queue_inv path e"
proof -
  have "deletes e j = deletes d j" for j using i(2) others [of j] by (cases "j = i") (simp_all add: deletes_def)
  moreover have "pop_knows path (dq_queue d) (map snd (dq_handed d)) (dq_pop e j) (dq_answer e j)" for j
    using i(1) others [of j] inv by (cases "j = i") (simp_all add: queue_inv_def)
  ultimately show ?thesis using inv deleting_same [of e d] by (simp add: queue_inv_def same)
qed

lemma queue_inv_knows:
  "queue_inv path d \<Longrightarrow> pop_knows path (dq_queue d) (map snd (dq_handed d)) (dq_pop d i) (dq_answer d i)"
  by (simp add: queue_inv_def)

lemma idle_knows:
  "pr_awaiting st \<in> {Await_lock, Await_nothing, Await_watch} \<or> (\<exists>w. pr_awaiting st = Await_children w) \<and> a = None \<Longrightarrow>
     pop_knows path Q handed st a"
  by (auto simp: pop_knows_def)

lemma heard_awaits:
  assumes "news_fit False ph ph' n" and "pr_awaiting st = Await_lock"
  shows "pr_awaiting (heard zk n st) \<in> {Await_lock, Await_nothing, Await_children False}"
  using assms by (cases n) (auto simp: news_fit_def still_waits_def)

lemma queue_names:
  assumes "dist_inv dir path d" and "\<forall>p \<in> set (dq_pushed d). fst p < nm" and "n \<in> dom (dq_queue d)"
  shows "n < nm"
proof -
  have "dom (dq_queue d) \<subseteq> dom (map_of (dq_pushed d))" using assms(1) by (simp add: dist_inv_def map_le_implies_dom_le)
  then show ?thesis using assms(2,3) by (auto simp: dom_map_of_conv_image_fst)
qed

lemma fresh_listing_more:
  assumes "fresh_listing Q strings" and "\<forall>n \<in> dom Q. n < nm"
  shows "fresh_listing (Q(nm \<mapsto> v)) strings"
proof -
  have "s < n" if "n \<in> dom (Q(nm \<mapsto> v)) - names_of strings" "s \<in> names_of strings" for n s
  proof (cases "n = nm")
    case True
    then show ?thesis using that(2) assms by (auto simp: fresh_listing_def)
  next
    case False
    then have "n \<in> dom Q - names_of strings" using that(1) by auto
    then show ?thesis using that(2) assms(1) unfolding fresh_listing_def by blast
  qed
  then show ?thesis using assms(1) by (auto simp: fresh_listing_def)
qed

lemma pop_knows_more:
  assumes knows: "pop_knows path Q handed st a" and new: "\<forall>n \<in> dom Q. n < nm"
  shows "pop_knows path (Q(nm \<mapsto> v)) handed st a"
proof (cases "pr_awaiting st")
  case (Await_children w)
  then show ?thesis using knows fresh_listing_more [OF _ new] by (simp add: pop_knows_def)
next
  case Await_data
  with knows obtain n where n: "q_element_path (pr_element st) = Some (node_path (directory_of path) n)" "n \<in> dom Q"
    "\<forall>x \<in> dom Q. n \<le> x" "\<forall>v. a = Some (Data_is v) \<longrightarrow> Q n = Some v" by (auto simp: pop_knows_def)
  have "n < nm" using n(2) new by blast
  with n Await_data show ?thesis by (auto simp: pop_knows_def)
qed (use knows in \<open>simp_all add: pop_knows_def\<close>)

lemma queue_inv_push:
  assumes inv: "dist_inv dir path d" and q: "queue_inv path d" and new: "\<forall>p \<in> set (dq_pushed d). fst p < nm"
  shows "queue_inv path (d\<lparr>dq_queue := (dq_queue d)(nm \<mapsto> v), dq_pushed := dq_pushed d @ [(nm, v)]\<rparr>)"
proof -
  note below = queue_names [OF inv new]
  then have nm: "nm \<notin> dom (dq_queue d)" by blast
  have "pop_knows path ((dq_queue d)(nm \<mapsto> v)) (map snd (dq_handed d)) (dq_pop d i) (dq_answer d i)" for i
    by (rule pop_knows_more [OF queue_inv_knows [OF q]]) (use below in blast)
  moreover obtain front rest where
    "queue_splits path (deleting d) (dq_queue d) (dq_pushed d) (map snd (dq_handed d)) front rest"
    using q by (auto simp: queue_inv_def)
  note queue_splits_push [OF this nm]
  moreover have "deleting (d\<lparr>dq_queue := Q, dq_pushed := P\<rparr>) = deleting d" for Q P
    by (rule deleting_same) (simp add: deletes_def)
  ultimately show ?thesis unfolding queue_inv_def by (simp del: fun_upd_apply) blast
qed

lemma asked_still_waits:
  assumes "dist_inv dir path d" and "lock_calls_back False dir (dq_lock d) zk i r"
  shows "waits_for d i = Await_lock \<and> dq_answer d i = None"
proof -
  obtain n where n: "news_fit False (ls_phase (dq_lock d) i) (next_phase (snd r)) n"
    using speaks_heard [OF calls_back_speaks [OF assms(2)]] by metis
  then have "before_lock (ls_phase (dq_lock d) i)" by (auto simp: news_fit_def split: news.splits)
  with dist_inv_pop_ok [OF assms(1), of i] show ?thesis by (auto simp: pop_ok_def)
qed

text \<open>A step that only moves one pop, which neither was deleting nor will be.\<close>

lemma queue_inv_idle:
  assumes "queue_inv path d"
    and "dq_queue e = dq_queue d" "dq_pushed e = dq_pushed d" "dq_handed e = dq_handed d"
    and "\<And>j. j \<noteq> i \<Longrightarrow> dq_pop e j = dq_pop d j \<and> dq_answer e j = dq_answer d j"
    and "pop_knows path (dq_queue d) (map snd (dq_handed d)) (dq_pop e i) (dq_answer e i)"
    and "\<not> deletes d i" "\<not> deletes e i"
  shows "queue_inv path e"
  using queue_inv_quiet [OF assms(1-6)] assms(7,8) by simp

lemma queue_inv_children:
  assumes q: "queue_inv path d" and inv: "dist_inv dir path d" and at: "waits_for d i = Await_children w"
    and a: "dq_answer d i = Some (Children_are strings)"
    and e: "e = pops i (rb_zk_queue_pop_minimum0 zk 0 strings w (popped d i))
       (if min_str strings \<noteq> None then Await_data else if w then Await_watch else Await_children True) b d"
  shows "queue_inv path e"
proof (rule queue_inv_idle [OF q, where i = i])
  have path: "q_path (popped d i) = path" using dist_inv_path [OF inv] dist_inv_begun [OF inv] at by simp
  show "pop_knows path (dq_queue d) (map snd (dq_handed d)) (dq_pop e i) (dq_answer e i)"
  proof (cases "min_str strings")
    case None
    then show ?thesis by (cases w) (simp_all add: e pop_knows_def)
  next
    case (Some m)
    have fresh: "fresh_listing (dq_queue d) strings" using queue_inv_knows [OF q, of i] at a by (simp add: pop_knows_def)
    have m: "m \<in> names_of strings" "\<forall>s \<in> names_of strings. m \<le> s"
      using min_str_least [of strings] Some by (simp_all add: least_of_def)
    have "m \<le> n" if "n \<in> dom (dq_queue d)" for n
    proof (cases "n \<in> names_of strings")
      case False
      then have "m < n" using that m(1) fresh unfolding fresh_listing_def by blast
      then show ?thesis by simp
    qed (use m(2) in blast)
    moreover have "m \<in> dom (dq_queue d)" using m(1) fresh by (auto simp: fresh_listing_def)
    ultimately show ?thesis
      using Some pop_minimum_element_path(1) [of 0 strings m zk w "popped d i"] path
      by (simp add: pop_knows_def e)
  qed
qed (simp_all add: e at deletes_def)

lemma element_lives: "pop_inv st \<Longrightarrow> pr_awaiting st \<noteq> Await_nothing \<Longrightarrow> \<not> q_freed (pr_element st) \<and> q_refcnt (pr_element st) = 1"
  by (auto simp: pop_inv_def split: if_splits)

lemma only_one_deletes:
  "dist_inv dir path d \<Longrightarrow> works_alone d \<Longrightarrow> busy (waits_for d i) \<Longrightarrow> deletes d j \<Longrightarrow> j = i"
  using works_alone_one [of dir path d j i] by (auto simp: deletes_def)

lemma queue_inv_data:
  assumes q: "queue_inv path d" and inv: "dist_inv dir path d" and al: "works_alone d" and alive: "\<forall>i. pop_inv (dq_pop d i)"
    and at: "waits_for d i = Await_data" and a: "dq_answer d i = Some (Data_is v)" and zk: "zk (Adelete (q_element_path (popped d i))) = 0"
    and e: "e = pops i (rb_zk_queue_get_element zk 0 v (popped d i)) Await_delete b d"
  shows "queue_inv path e"
proof -
  obtain nm where nm: "q_element_path (popped d i) = Some (node_path (directory_of path) nm)" "dq_queue d nm = Some v"
    "\<forall>n \<in> dom (dq_queue d). nm \<le> n"
    using queue_inv_knows [OF q, of i] at a by (auto simp: pop_knows_def)
  have lives: "\<not> q_freed (popped d i)" using element_lives alive at by simp
  have "\<not> deletes d j" for j
  proof
    assume del: "deletes d j"
    then have "j = i" using only_one_deletes [OF inv al] at by simp
    with del at show False by (simp add: deletes_def)
  qed
  then have "\<not> deleting d" by (simp add: deleting_def)
  then obtain front rest where s: "queue_splits path False (dq_queue d) (dq_pushed d) (map snd (dq_handed d)) front rest"
    using q by (auto simp: queue_inv_def)
  have sorted: "sorted_wrt (\<lambda>p q. fst p < fst q) (dq_pushed d)" using inv by (simp add: dist_inv_def)
  from queue_splits_hand [OF s sorted nm(2,3)] obtain rest' where rest': "queue_splits path True (dq_queue d) (dq_pushed d)
      (map snd (dq_handed d) @ [as_handed path (nm, v)]) (front @ [(nm, v)]) rest'" by blast
  have awaits: "waits_for e i = Await_delete" "dq_answer e i = None"
    using lives by (simp_all add: e rb_zk_queue_get_element_def Let_def)
  then have "deleting e" by (auto simp: deleting_def deletes_def)
  moreover have handed: "map snd (dq_handed e) = map snd (dq_handed d) @ [as_handed path (nm, v)]"
    by (simp add: e nm(1) as_handed_def)
  moreover have "pop_knows path (dq_queue e) (map snd (dq_handed e)) (dq_pop e j) (dq_answer e j)" for j
  proof (cases "j = i")
    case True
    then show ?thesis using awaits by (simp add: pop_knows_def handed) (simp add: e nm(1) as_handed_def)
  next
    case False
    then have "\<not> busy (waits_for e j)" using works_alone_one [OF inv al, of j i] at by (auto simp: e)
    then show ?thesis by (intro idle_knows) (auto simp: busy_def)
  qed
  ultimately show ?thesis using rest' by (auto simp: queue_inv_def e)
qed

lemma queue_inv_delete:
  assumes q: "queue_inv path d" and inv: "dist_inv dir path d" and al: "works_alone d"
    and at: "waits_for d i = Await_delete" "dq_answer d i = None"
    and nm: "q_element_path (popped d i) = Some (node_path (directory_of path) nm)"
    and e: "e = d\<lparr>dq_queue := (dq_queue d)(nm := None), dq_answer := (dq_answer d)(i \<mapsto> Deleted_it)\<rparr>"
  shows "queue_inv path e"
proof -
  have "deleting d" using at by (auto simp: deleting_def deletes_def)
  moreover have "fst (last (map snd (dq_handed d))) = Some (node_path (directory_of path) nm)"
    using queue_inv_knows [OF q, of i] at nm by (simp add: pop_knows_def)
  moreover have sorted: "sorted_wrt (\<lambda>p q. fst p < fst q) (dq_pushed d)" using inv by (simp add: dist_inv_def)
  moreover obtain front rest where s: "queue_splits path (deleting d) (dq_queue d) (dq_pushed d) (map snd (dq_handed d)) front rest"
    using q by (auto simp: queue_inv_def)
  ultimately have "queue_splits path False (dq_queue e) (dq_pushed e) (map snd (dq_handed e)) front rest"
    using queue_splits_delete [OF _ sorted, of path "dq_queue d" "map snd (dq_handed d)" front rest nm] by (simp add: e)
  moreover have "\<not> deletes e j" for j
  proof
    assume del: "deletes e j"
    then have "j \<noteq> i" "deletes d j" by (auto simp: deletes_def e split: if_splits)
    then show False using only_one_deletes [OF inv al] at by simp
  qed
  then have over: "\<not> deleting e" by (simp add: deleting_def)
  moreover have "pop_knows path (dq_queue e) (map snd (dq_handed e)) (dq_pop e j) (dq_answer e j)" for j
  proof (cases "j = i")
    case False
    then have "\<not> busy (waits_for e j)" using works_alone_one [OF inv al, of j i] at by (auto simp: e)
    then show ?thesis by (intro idle_knows) (auto simp: busy_def)
  qed (simp add: e at pop_knows_def)
  ultimately show ?thesis unfolding queue_inv_def by simp blast
qed

lemma pop_knows_cong:
  "pr_awaiting st' = pr_awaiting st \<Longrightarrow> q_element_path (pr_element st') = q_element_path (pr_element st) \<Longrightarrow>
     pop_knows path Q handed st' a = pop_knows path Q handed st a"
  by (simp add: pop_knows_def cong: awaiting.case_cong)

lemma queue_inv_step:
  assumes inv: "dist_inv dir path d" and al: "works_alone d" and alive: "\<forall>i. pop_inv (dq_pop d i)" and q: "queue_inv path d"
    and step: "dist_step False dir leaf path d e"
  shows "queue_inv path e"
  using step
proof cases
  case (push nm v)
  then show ?thesis using queue_inv_push [OF inv q] by simp
next
  case (asks i zk m)
  have idle: "dq_answer d i = None" "waits_for d i = Await_nothing"
    using dist_inv_pop_ok [OF inv, of i] asks by (simp_all add: pop_ok_def)
  obtain n where n: "\<And>st. foldl (told zk) st (rb_zk_mutex_lock0 zk m) = heard zk n st"
    "news_fit False Creating (next_phase (rb_zk_mutex_lock0 zk m)) n"
    using speaks_heard [OF lock0_speaks [OF before_lock_asked(1)]] by metis
  have "pr_awaiting (heard zk n (pop_started path)) \<in> {Await_lock, Await_nothing, Await_children False}"
    by (rule heard_awaits [OF n(2)]) (simp add: pop_started_def)
  then show ?thesis
    by (intro queue_inv_idle [OF q, where i = i] idle_knows) (auto simp: asks(1) n(1) idle deletes_def)
next
  case (lock_server l)
  then show ?thesis using q by (simp add: queue_inv_def deleting_def deletes_def)
next
  case (lock_callback zk i r)
  note waits = asked_still_waits [OF inv lock_callback(3)]
  obtain n where n: "\<And>st. foldl (told zk) st (snd r) = heard zk n st"
    "news_fit False (ls_phase (dq_lock d) i) (next_phase (snd r)) n"
    using speaks_heard [OF calls_back_speaks [OF lock_callback(3)]] by metis
  have "pr_awaiting (heard zk n (dq_pop d i)) \<in> {Await_lock, Await_nothing, Await_children False}"
    by (rule heard_awaits [OF n(2)]) (simp add: waits)
  then show ?thesis
    by (intro queue_inv_idle [OF q, where i = i] idle_knows) (auto simp: lock_callback(1) n(1) waits deletes_def)
next
  case (children_answered i w strings)
  then have "fresh_listing (dq_queue d) strings" by (simp add: fresh_listing_def)
  then show ?thesis
    by (intro queue_inv_idle [OF q, where i = i]) (auto simp: children_answered deletes_def pop_knows_def)
next
  case (children i w zk rc strings)
  then have "e = pops i (rb_zk_queue_pop_minimum0 zk 0 strings w (popped d i))
      (if min_str strings \<noteq> None then Await_data else if w then Await_watch else Await_children True)
      (w \<and> 0 \<le> rc \<and> min_str strings \<noteq> None) d" "dq_answer d i = Some (Children_are strings)" by simp_all
  then show ?thesis using queue_inv_children [OF q inv children(2)] by blast
next
  case (watch i zk)
  then show ?thesis
    by (intro queue_inv_idle [OF q, where i = i] idle_knows) (auto simp: deletes_def)
next
  case (data_answered i nm v)
  then have "pop_knows path (dq_queue d) (map snd (dq_handed d)) (dq_pop d i) (Some (Data_is v))"
    using queue_inv_knows [OF q, of i] by (auto simp: pop_knows_def)
  then show ?thesis
    by (intro queue_inv_idle [OF q, where i = i]) (auto simp: data_answered deletes_def)
next
  case (data i zk rc v)
  have there: "\<exists>nm. q_element_path (popped d i) = Some (node_path (directory_of path) nm) \<and> dq_queue d nm \<noteq> None"
    using queue_inv_knows [OF q, of i] data(2) by (auto simp: pop_knows_def)
  with data(4) have a: "rc = 0" "dq_answer d i = Some (Data_is v)" by auto
  have zk: "zk (Adelete (q_element_path (popped d i))) = 0" using data(3) by (simp add: lawful_def)
  show ?thesis
    by (rule queue_inv_data [where i = i and v = v and zk = zk and b = "pr_stale_watch (dq_pop d i)",
          OF q inv al alive data(2) a(2) zk]) (simp add: data(1) a(1) zk)
next
  case (delete_answered i nm v)
  then show ?thesis using queue_inv_delete [OF q inv al] by blast
next
  case (deleted i rc r)
  have "\<not> (dq_answer d i = None \<and> (\<exists>nm. q_element_path (popped d i) = Some (node_path (directory_of path) nm) \<and> dq_queue d nm = None))"
  proof
    assume gone: "dq_answer d i = None \<and> (\<exists>nm. q_element_path (popped d i) = Some (node_path (directory_of path) nm) \<and> dq_queue d nm = None)"
    then have del: "deleting d" using deleted(2) by (auto simp: deleting_def deletes_def)
    obtain front rest where "queue_splits path (deleting d) (dq_queue d) (dq_pushed d) (map snd (dq_handed d)) front rest"
      using q by (auto simp: queue_inv_def)
    with del have Q: "dq_queue d = map_of (last front # rest)" "map snd (dq_handed d) = map (as_handed path) front" "front \<noteq> []"
      by (simp_all add: queue_splits_def)
    have "q_element_path (popped d i) = fst (last (map snd (dq_handed d)))"
      using queue_inv_knows [OF q, of i] deleted(2) gone by (simp add: pop_knows_def)
    then have "q_element_path (popped d i) = Some (node_path (directory_of path) (fst (last front)))"
      using Q(2,3) by (simp add: last_map as_handed_def)
    then show False using gone Q(1) by auto
  qed
  then have "dq_answer d i = Some Deleted_it" using deleted(3) by blast
  then show ?thesis
    by (intro queue_inv_idle [OF q, where i = i] idle_knows) (auto simp: deleted(1,4) deletes_def)
next
  case (stale_watch i zk)
  have same: "waits_for e i = waits_for d i" "q_element_path (popped e i) = q_element_path (popped d i)"
    "dq_answer e i = dq_answer d i" by (simp_all add: stale_watch(1))
  then have "pop_knows path (dq_queue d) (map snd (dq_handed d)) (dq_pop e i) (dq_answer e i)"
    using queue_inv_knows [OF q, of i] pop_knows_cong [OF same(1,2)] by simp
  moreover have "deletes e i = deletes d i" by (simp add: deletes_def same)
  ultimately show ?thesis
    by (intro queue_inv_quiet [OF q, where i = i]) (simp_all add: stale_watch(1))
qed

lemma queue_inv_start: "queue_inv path dist_start"
  by (auto simp: queue_inv_def queue_splits_def dist_start_def deleting_def deletes_def intro!: idle_knows)

lemma dist_invs:
  assumes "dist_reach False dir leaf path dist_start d"
  shows "dist_inv dir path d \<and> works_alone d \<and> (\<forall>i. pop_inv (dq_pop d i)) \<and> queue_inv path d"
  using assms
proof induction
  case here
  show ?case using dist_inv_start works_alone_start alive_start queue_inv_start by blast
next
  case (step e f)
  then show ?case using dist_inv_step works_alone_step pops_alive queue_inv_step by metis
qed

end
