(* ===== verification/Zk_Queue_Runs.thy ===== *)
theory Zk_Queue_Runs
  imports Zk_Queue_Order
begin

text \<open>
  Runs of the distribution: a pop that hands a sensor over; another that hands the same sensor over again,
  after the session of the first has ended; a disconnection that calls back a released element; and that
  a pop at work can always hand over the next sensor.
\<close>

section \<open>A run\<close>

lemma dist_reach_trans:
  "dist_reach faulty dir leaf path e f \<Longrightarrow> dist_reach faulty dir leaf path d e \<Longrightarrow> dist_reach faulty dir leaf path d f"
  by (induction rule: dist_reach.induct) (auto intro: dist_reach.step)

lemma dist_reach_first:
  "dist_step faulty dir leaf path d e \<Longrightarrow> dist_reach faulty dir leaf path e f \<Longrightarrow> dist_reach faulty dir leaf path d f"
  using dist_reach_trans [OF _ dist_reach.step [OF dist_reach.here]] .

text \<open>A pop that gets the lock: asking, its node, the list of the nodes, the status callback.\<close>

definition with_lock :: "string \<Rightarrow> string \<Rightarrow> nat \<Rightarrow> string \<Rightarrow> dist_sys \<Rightarrow> dist_sys" where
  "with_lock dir path i nm d =
     d\<lparr>dq_lock := \<lparr>ls_nodes = insert nm (ls_nodes (dq_lock d)), ls_used = insert nm (ls_used (dq_lock d)),
           ls_mutex = (ls_mutex (dq_lock d))(i := (attempt_mutex dir nm)\<lparr>mx_leader := True\<rparr>),
           ls_phase = (ls_phase (dq_lock d))(i := Leading)\<rparr>,
       dq_pop := (dq_pop d)(i := (pop_started path)\<lparr>pr_awaiting := Await_children False\<rparr>),
       dq_begun := insert i (dq_begun d)\<rparr>"

lemma with_lock_fields [simp]:
  "ls_nodes (dq_lock (with_lock dir path i nm d)) = insert nm (ls_nodes (dq_lock d))"
  "ls_used (dq_lock (with_lock dir path i nm d)) = insert nm (ls_used (dq_lock d))"
  "dq_begun (with_lock dir path i nm d) = insert i (dq_begun d)"
  "dq_answer (with_lock dir path i nm d) = dq_answer d" "dq_queue (with_lock dir path i nm d) = dq_queue d"
  "dq_pushed (with_lock dir path i nm d) = dq_pushed d" "dq_handed (with_lock dir path i nm d) = dq_handed d"
  "dq_pop (with_lock dir path i nm d) = (dq_pop d)(i := (pop_started path)\<lparr>pr_awaiting := Await_children False\<rparr>)"
  by (simp_all add: with_lock_def)

lemma run_gets_lock:
  assumes inv: "dist_inv dir path d" and i: "i \<notin> dq_begun d" and nm: "name_ok dir nm"
    and fresh: "\<forall>u \<in> ls_used (dq_lock d). u < nm" and empty: "ls_nodes (dq_lock d) = {}"
  shows "dist_reach faulty dir leaf path d (with_lock dir path i nm d)"
proof -
  let ?m = "rb_zk_mutex_create_entry (node_path dir leaf)"
  let ?zk = "answers dir {}"
  let ?zk' = "answers dir {nm}"
  define s where "s = dq_lock d"
  define b where "b = d\<lparr>dq_pop := (dq_pop d)(i := pop_started path), dq_begun := insert i (dq_begun d)\<rparr>"
  define s1 where "s1 = s\<lparr>ls_mutex := (ls_mutex s)(i := ?m), ls_phase := (ls_phase s)(i := Creating)\<rparr>"
  define s2 where "s2 = (at_phase i (Created nm) s1)\<lparr>ls_nodes := insert nm (ls_nodes s1), ls_used := insert nm (ls_used s1)\<rparr>"
  define s3 where "s3 = s2\<lparr>ls_mutex := (ls_mutex s)(i := attempt_mutex dir nm), ls_phase := (ls_phase s)(i := Listing)\<rparr>"
  define s4 where "s4 = at_phase i (Listed [Some nm]) s3"
  note defs = s1_def s2_def s3_def s4_def at_phase_def
  have zk0: "?zk c = 0" if "\<And>p. c \<noteq> Wexists p" for c using that by (auto simp: answers_def split: zk_call.split)
  have zk1: "?zk' c = 0" if "\<And>p. c \<noteq> Wexists p" for c using that by (auto simp: answers_def split: zk_call.split)
  have nodes: "ls_nodes s = {}" "ls_nodes s1 = {}" "ls_nodes s2 = {nm}" "ls_nodes s3 = {nm}" "ls_nodes s4 = {nm}"
    using empty by (simp_all add: defs s_def)
  have "dist_step faulty dir leaf path d (b\<lparr>dq_lock := s1\<rparr>)"
  proof -
    have "hear ?zk i (rb_zk_mutex_lock0 ?zk ?m)
        (d\<lparr>dq_lock := acts i (?m, rb_zk_mutex_lock0 ?zk ?m) (dq_lock d), dq_pop := (dq_pop d)(i := pop_started path),
           dq_begun := insert i (dq_begun d)\<rparr>) = b\<lparr>dq_lock := s1\<rparr>"
      by (simp add: b_def s1_def s_def hear_def acts_def rb_zk_mutex_lock0_def zk0)
    moreover have "client_lib faulty dir d ?zk" using lawful_answers [of faulty dir "{}"] empty by simp
    ultimately show ?thesis using dist_step.asks [OF i _ refl, of faulty dir ?zk leaf path] by simp
  qed
  moreover have "dist_step faulty dir leaf path (b\<lparr>dq_lock := s1\<rparr>) (b\<lparr>dq_lock := s2\<rparr>)"
    using dist_step.lock_server [of faulty dir "b\<lparr>dq_lock := s1\<rparr>" s2 leaf path]
      lock_serves.create [of s1 i dir nm faulty] nm fresh by (simp add: s2_def) (simp add: s1_def s_def)
  moreover have "dist_step faulty dir leaf path (b\<lparr>dq_lock := s2\<rparr>) (b\<lparr>dq_lock := s3\<rparr>)"
  proof -
    let ?r = "create_mutex_node_complete ?zk' True 0 (Some (node_path dir nm)) (ls_mutex s2 i)"
    have r: "?r = (attempt_mutex dir nm, [Called (Aget_children dir)])"
      using nm by (simp add: create_mutex_node_complete_def Let_def directory_of_node_path zk1 s2_def s1_def
          rb_zk_mutex_create_entry_def attempt_mutex_def at_phase_def)
    have "hear ?zk' i (snd ?r) (b\<lparr>dq_lock := acts i ?r s2\<rparr>) = b\<lparr>dq_lock := s3\<rparr>"
      unfolding r by (simp add: hear_def acts_def s3_def s2_def s1_def at_phase_def)
    moreover have "lock_calls_back faulty dir s2 ?zk' i ?r"
      by (rule lock_calls_back.create_done) (simp_all add: s2_def at_phase_def)
    moreover have "client_lib faulty dir (b\<lparr>dq_lock := s2\<rparr>) ?zk'" using lawful_answers [of faulty dir "{nm}"] nodes by simp
    ultimately show ?thesis using dist_step.lock_callback [of faulty dir "b\<lparr>dq_lock := s2\<rparr>" ?zk' i ?r leaf path] by simp
  qed
  moreover have "dist_step faulty dir leaf path (b\<lparr>dq_lock := s3\<rparr>) (b\<lparr>dq_lock := s4\<rparr>)"
    using dist_step.lock_server [of faulty dir "b\<lparr>dq_lock := s3\<rparr>" s4 leaf path]
      lock_serves.list [of s3 i "[Some nm]" faulty dir] nodes(4) by (simp add: s4_def) (simp add: s3_def)
  moreover have "dist_step faulty dir leaf path (b\<lparr>dq_lock := s4\<rparr>) (with_lock dir path i nm d)"
  proof -
    let ?r = "leader_get_children_complete ?zk' 0 [Some nm] (ls_mutex s4 i)"
    have path: "mx_path (ls_mutex s4 i) = node_path dir nm" by (simp add: s4_def s3_def at_phase_def attempt_mutex_def)
    have listed: "\<forall>n \<in> names_of [Some nm]. name_ok dir n" using nm by simp
    have r: "?r = ((attempt_mutex dir nm)\<lparr>mx_leader := True\<rparr>, [Mutex_status True])"
      using nm path listed
    proof (cases rule: list_done_phase [where zk = ?zk' and strings = "[Some nm]"])
      case leads
      then show ?thesis by (simp add: s4_def s3_def at_phase_def)
    qed auto
    have "hear ?zk' i (snd ?r) (b\<lparr>dq_lock := acts i ?r s4\<rparr>) = with_lock dir path i nm d"
      unfolding r by (simp add: hear_def acts_def b_def with_lock_def defs s_def handled_def pop_started_def
          rb_zk_queue_mutex_status_change_def rb_zk_queue_pop_nolock_def zk1 rb_zk_queue_pop_def new_queue_element_def)
    moreover have "lock_calls_back faulty dir s4 ?zk' i ?r"
      by (rule lock_calls_back.list_done) (simp add: s4_def at_phase_def)
    moreover have "client_lib faulty dir (b\<lparr>dq_lock := s4\<rparr>) ?zk'" using lawful_answers [of faulty dir "{nm}"] nodes by simp
    ultimately show ?thesis using dist_step.lock_callback [of faulty dir "b\<lparr>dq_lock := s4\<rparr>" ?zk' i ?r leaf path] by simp
  qed
  ultimately show ?thesis by (meson dist_reach.here dist_reach_first)
qed

text \<open>A pop that has the lock and finds one node in the directory: it hands the data over.\<close>

definition handing :: "string \<Rightarrow> nat \<Rightarrow> string \<Rightarrow> string \<Rightarrow> dist_sys \<Rightarrow> dist_sys" where
  "handing path i m v d =
     d\<lparr>dq_pop := (dq_pop d)(i := (pop_started path)
           \<lparr>pr_element := (pr_element (pop_started path))\<lparr>q_element_path := Some (node_path (directory_of path) m)\<rparr>,
            pr_awaiting := Await_delete\<rparr>),
       dq_answer := (dq_answer d)(i := None),
       dq_handed := dq_handed d @ [(i, Some (node_path (directory_of path) m), v)]\<rparr>"

lemma handing_fields [simp]:
  "dq_lock (handing path i m v d) = dq_lock d" "dq_begun (handing path i m v d) = dq_begun d"
  "dq_queue (handing path i m v d) = dq_queue d" "dq_pushed (handing path i m v d) = dq_pushed d"
  "dq_answer (handing path i m v d) = (dq_answer d)(i := None)"
  "dq_handed (handing path i m v d) = dq_handed d @ [(i, Some (node_path (directory_of path) m), v)]"
  "pr_touched_freed (dq_pop (handing path i m v d) j) = (j \<noteq> i \<and> pr_touched_freed (dq_pop d j))"
  "j \<noteq> i \<Longrightarrow> dq_pop (handing path i m v d) j = dq_pop d j"
  by (simp_all add: handing_def pop_started_def)

lemma run_hands:
  assumes pop: "dq_pop d i = (pop_started path)\<lparr>pr_awaiting := Await_children False\<rparr>" and a: "dq_answer d i = None"
    and one: "dq_queue d = [m \<mapsto> v]"
  shows "dist_reach faulty dir leaf path d (handing path i m v d)"
proof -
  let ?zk = "answers dir (ls_nodes (dq_lock d))"
  let ?p = "Some (node_path (directory_of path) m)"
  let ?el = "pr_element (pop_started path)"
  define d1 where "d1 = d\<lparr>dq_answer := (dq_answer d)(i \<mapsto> Children_are [Some m])\<rparr>"
  define d2 where "d2 = d\<lparr>dq_pop := (dq_pop d)(i := (pop_started path)
      \<lparr>pr_element := ?el\<lparr>q_element_path := ?p\<rparr>, pr_awaiting := Await_data\<rparr>), dq_answer := (dq_answer d)(i := None)\<rparr>"
  define d3 where "d3 = d2\<lparr>dq_answer := (dq_answer d)(i \<mapsto> Data_is v)\<rparr>"
  note started = pop_started_def rb_zk_queue_pop_def new_queue_element_def
  have zk: "?zk c = 0" if "\<And>p. c \<noteq> Wexists p" for c using that by (auto simp: answers_def split: zk_call.split)
  have lib: "client_lib faulty dir e ?zk" if "dq_lock e = dq_lock d" for e
    using lawful_answers [of faulty dir "ls_nodes (dq_lock d)"] that by simp
  have "dist_step faulty dir leaf path d d1"
    unfolding d1_def by (rule dist_step.children_answered [OF _ a, where w = False]) (use one pop in auto)
  moreover have "dist_step faulty dir leaf path d1 d2"
  proof -
    have "pops i (rb_zk_queue_pop_minimum0 ?zk 0 [Some m] False (popped d1 i)) Await_data False d1 = d2"
      by (simp add: d1_def d2_def pop pops_def handled_def rb_zk_queue_pop_minimum0_def min_str_def Let_def started
          node_path_def zk)
    moreover have "waits_for d1 i = Await_children False" "dq_answer d1 i = Some (Children_are [Some m])"
      by (simp_all add: d1_def pop)
    ultimately show ?thesis
      using dist_step.children [of d1 i False faulty dir ?zk 0 "[Some m]" leaf path] lib [of d1]
      by (simp add: min_str_def) (simp add: d1_def)
  qed
  moreover have "dist_step faulty dir leaf path d2 d3"
  proof -
    have "d3 = d2\<lparr>dq_answer := (dq_answer d2)(i \<mapsto> Data_is v)\<rparr>" by (simp add: d3_def d2_def)
    then show ?thesis
      using dist_step.data_answered [of d2 i path m v faulty dir leaf] one by (simp add: d2_def)
  qed
  moreover have "dist_step faulty dir leaf path d3 (handing path i m v d)"
  proof -
    have "pops i (rb_zk_queue_get_element ?zk 0 v (popped d3 i)) Await_delete (pr_stale_watch (dq_pop d3 i)) d3
        = handing path i m v d"
      by (simp add: d3_def d2_def handing_def pops_def handled_def rb_zk_queue_get_element_def Let_def started zk)
    moreover have "waits_for d3 i = Await_data" "dq_answer d3 i = Some (Data_is v)" "dq_lock d3 = dq_lock d"
      by (simp_all add: d3_def d2_def)
    ultimately show ?thesis
      using dist_step.data [of d3 i faulty dir ?zk 0 v path leaf] lib [of d3] by (simp add: zk)
  qed
  ultimately show ?thesis by (meson dist_reach.here dist_reach_first)
qed

text \<open>One sensor is pushed, the first client takes it.\<close>

definition one_pushed :: dist_sys where
  "one_pushed = dist_start\<lparr>dq_queue := [''x'' \<mapsto> ''s''], dq_pushed := [(''x'', ''s'')]\<rparr>"

definition one_leads :: dist_sys where
  "one_leads = with_lock ''/l'' ''/q/e'' 0 ''a'' one_pushed"

definition one_handed :: dist_sys where
  "one_handed = handing ''/q/e'' 0 ''x'' ''s'' one_leads"

lemma one_pushed_fields [simp]:
  "ls_nodes (dq_lock one_pushed) = {}" "ls_used (dq_lock one_pushed) = {}" "dq_begun one_pushed = {}"
  "dq_answer one_pushed i = None" "dq_queue one_pushed = [''x'' \<mapsto> ''s'']" "dq_pushed one_pushed = [(''x'', ''s'')]"
  "dq_handed one_pushed = []" "\<not> pr_touched_freed (dq_pop one_pushed i)"
  by (simp_all add: one_pushed_def dist_start_def lock_start_def pop_started_def)

lemma one_pushed_reachable: "dist_reach faulty dir leaf path dist_start one_pushed"
proof -
  have "dist_step faulty dir leaf path dist_start
      (dist_start\<lparr>dq_queue := (dq_queue dist_start)(''x'' \<mapsto> ''s''), dq_pushed := dq_pushed dist_start @ [(''x'', ''s'')]\<rparr>)"
    by (rule dist_step.push) (simp add: dist_start_def)
  moreover have "dist_start\<lparr>dq_queue := (dq_queue dist_start)(''x'' \<mapsto> ''s''), dq_pushed := dq_pushed dist_start @ [(''x'', ''s'')]\<rparr>
      = one_pushed" by (simp add: one_pushed_def dist_start_def)
  ultimately show ?thesis using dist_reach.step [OF dist_reach.here] by metis
qed

lemma one_leads_reachable: "dist_reach faulty ''/l'' ''p'' ''/q/e'' dist_start one_leads"
proof -
  have "dist_reach faulty ''/l'' ''p'' ''/q/e'' one_pushed one_leads"
    unfolding one_leads_def
    by (rule run_gets_lock [OF dist_inv_reach [OF one_pushed_reachable dist_inv_start]]) (use run_names in simp_all)
  from dist_reach_trans [OF this one_pushed_reachable] show ?thesis .
qed

lemma one_handed_reachable: "dist_reach faulty ''/l'' ''p'' ''/q/e'' dist_start one_handed"
proof -
  have "dist_reach faulty ''/l'' ''p'' ''/q/e'' one_leads one_handed"
    unfolding one_handed_def by (rule run_hands) (simp_all add: one_leads_def)
  from dist_reach_trans [OF this one_leads_reachable] show ?thesis .
qed

text \<open>
  The session of the first client ends between the data and the deletion; its lock goes, and the second
  client takes the same sensor.
\<close>

definition session_over :: dist_sys where
  "session_over = one_handed\<lparr>dq_lock := (dq_lock one_handed)\<lparr>ls_nodes := ls_nodes (dq_lock one_handed) - {''a''}\<rparr>\<rparr>"

definition twice_handed :: dist_sys where
  "twice_handed = handing ''/q/e'' 1 ''x'' ''s'' (with_lock ''/l'' ''/q/e'' 1 ''b'' session_over)"

lemma session_over_fields [simp]:
  "ls_nodes (dq_lock session_over) = {}" "ls_used (dq_lock session_over) = {''a''}" "dq_begun session_over = {0}"
  "dq_answer session_over i = None" "dq_queue session_over = [''x'' \<mapsto> ''s'']" "dq_pushed session_over = [(''x'', ''s'')]"
  "dq_handed session_over = [(0, Some (node_path (directory_of ''/q/e'') ''x''), ''s'')]"
  "\<not> pr_touched_freed (dq_pop session_over i)"
  by (simp_all add: session_over_def one_handed_def one_leads_def pop_started_def)

lemma twice_handed_reachable: "dist_reach True ''/l'' ''p'' ''/q/e'' dist_start twice_handed"
proof -
  have "dist_step True ''/l'' ''p'' ''/q/e'' one_handed session_over"
    unfolding session_over_def by (rule dist_step.lock_server) (rule lock_serves.expire, simp)
  then have e: "dist_reach True ''/l'' ''p'' ''/q/e'' dist_start session_over" by (rule dist_reach.step [OF one_handed_reachable])
  have l: "dist_reach True ''/l'' ''p'' ''/q/e'' session_over (with_lock ''/l'' ''/q/e'' 1 ''b'' session_over)"
    by (rule run_gets_lock [OF dist_inv_reach [OF e dist_inv_start]])
      (use run_names in simp_all)
  have "dist_reach True ''/l'' ''p'' ''/q/e'' (with_lock ''/l'' ''/q/e'' 1 ''b'' session_over) twice_handed"
    unfolding twice_handed_def by (rule run_hands) simp_all
  from dist_reach_trans [OF this dist_reach_trans [OF l e]] show ?thesis .
qed

lemma twice_handed_fields:
  "dq_pushed twice_handed = [(''x'', ''s'')]"
  "map fst (dq_handed twice_handed) = [0, 1]" "map (snd \<circ> snd) (dq_handed twice_handed) = [''s'', ''s'']"
  "\<not> pr_touched_freed (dq_pop twice_handed i)"
  by (simp_all add: twice_handed_def)

text \<open>
  A pop is over and its element is freed while the deletion of its lock is still to be answered: a
  disconnection in between calls the element back.
\<close>

lemma late_callback_touches:
  assumes "q_freed (popped d i)" and "ls_phase (dq_lock d) i = Unlocking"
  shows "\<exists>e. dist_step True dir leaf path d e \<and> pr_touched_freed (dq_pop e i)"
proof -
  let ?zk = "answers dir (ls_nodes (dq_lock d))"
  let ?r = "(ls_mutex (dq_lock d) i, [Mutex_status False, Mutex_error [] 0] @ rb_zk_mutex_done (ls_mutex (dq_lock d) i))"
  have "dist_step True dir leaf path d (hear ?zk i (snd ?r) (d\<lparr>dq_lock := acts i ?r (dq_lock d)\<rparr>))"
    by (rule dist_step.lock_callback [OF lawful_answers lock_calls_back.disconnected]) (simp_all add: assms(2))
  moreover have "pr_touched_freed (dq_pop (hear ?zk i (snd ?r) (d\<lparr>dq_lock := acts i ?r (dq_lock d)\<rparr>)) i)"
    using assms(1) by (simp add: rb_zk_mutex_done_def rb_zk_mutex_error_done_def handled_def)
  ultimately show ?thesis by blast
qed

definition one_popped :: dist_sys where
  "one_popped = (pops 0 (rb_zk_queue_delete_completed 0 (popped one_handed 0)) Await_nothing False
       (one_handed\<lparr>dq_queue := Map.empty\<rparr>))
     \<lparr>dq_lock := acts 0 (ls_mutex (dq_lock one_handed) 0, rb_zk_mutex_unlock True (ls_mutex (dq_lock one_handed) 0))
        (dq_lock one_handed)\<rparr>"

lemma one_popped_reachable: "dist_reach faulty ''/l'' ''p'' ''/q/e'' dist_start one_popped"
proof -
  define d1 where "d1 = one_handed\<lparr>dq_queue := (dq_queue one_handed)(''x'' := None), dq_answer := (dq_answer one_handed)(0 \<mapsto> Deleted_it)\<rparr>"
  have at: "waits_for one_handed 0 = Await_delete" "dq_answer one_handed 0 = None"
    "q_element_path (popped one_handed 0) = Some (node_path (directory_of ''/q/e'') ''x'')"
    "\<not> pr_stale_watch (dq_pop one_handed 0)" "q_mutex (popped one_handed 0)" "dq_queue one_handed = [''x'' \<mapsto> ''s'']"
    "ls_phase (dq_lock one_handed) 0 = Leading"
    by (simp_all add: one_handed_def one_leads_def handing_def pop_started_def rb_zk_queue_pop_def with_lock_def)
  have s1: "dist_step faulty ''/l'' ''p'' ''/q/e'' one_handed d1"
    unfolding d1_def by (rule dist_step.delete_answered [OF at(1,2,3)]) (simp add: at)
  have s2: "dist_step faulty ''/l'' ''p'' ''/q/e'' d1 one_popped"
  proof -
    let ?r = "rb_zk_queue_delete_completed 0 (popped d1 0)"
    have same: "popped d1 0 = popped one_handed 0" "dq_lock d1 = dq_lock one_handed" "\<not> pr_stale_watch (dq_pop d1 0)"
      "waits_for d1 0 = Await_delete" "dq_answer d1 0 = Some Deleted_it" using at by (simp_all add: d1_def)
    have "Unlock_mutex \<in> set (snd ?r)" using at(5) same(1) by (simp add: delete_completed_unlocks)
    then have "unlocks 0 (snd ?r) (dq_lock d1)
        = acts 0 (ls_mutex (dq_lock one_handed) 0, rb_zk_mutex_unlock True (ls_mutex (dq_lock one_handed) 0)) (dq_lock one_handed)"
      using at(7) by (simp only: unlocks_def same(2)) simp
    moreover have "pops 0 ?r Await_nothing (pr_stale_watch (dq_pop d1 0)) d1
        = pops 0 (rb_zk_queue_delete_completed 0 (popped one_handed 0)) Await_nothing False (one_handed\<lparr>dq_queue := Map.empty\<rparr>)"
      using same(3) by (simp add: pops_def d1_def at(6))
    ultimately have "(pops 0 ?r Await_nothing (pr_stale_watch (dq_pop d1 0)) d1)\<lparr>dq_lock := unlocks 0 (snd ?r) (dq_lock d1)\<rparr>
        = one_popped" by (simp only: one_popped_def)
    moreover have "dist_step faulty ''/l'' ''p'' ''/q/e'' d1
        ((pops 0 ?r Await_nothing (pr_stale_watch (dq_pop d1 0)) d1)\<lparr>dq_lock := unlocks 0 (snd ?r) (dq_lock d1)\<rparr>)"
      by (rule dist_step.deleted [OF same(4) _ refl]) (simp add: same(5))
    ultimately show ?thesis by simp
  qed
  show ?thesis by (rule dist_reach.step [OF dist_reach.step [OF one_handed_reachable s1] s2])
qed

lemma one_popped_untouched: "\<not> pr_touched_freed (dq_pop one_popped i)"
  by (simp add: one_popped_def one_handed_def one_leads_def handled_def handing_def pop_started_def
      rb_zk_queue_pop_def new_queue_element_def)

lemma one_popped_over: "q_freed (popped one_popped 0)" "ls_phase (dq_lock one_popped) 0 = Unlocking"
  by (simp_all add: one_popped_def acts_def rb_zk_mutex_unlock_def one_handed_def one_leads_def handing_def pop_started_def
      rb_zk_queue_pop_def new_queue_element_def rb_zk_queue_delete_completed_def rb_zk_queue_element_decref_def Let_def)

section \<open>A pop goes on\<close>

text \<open>An element ignores its watch only once it knows which node it takes.\<close>

definition unwatched :: "pop_run \<Rightarrow> bool" where
  "unwatched st \<longleftrightarrow>
     (case pr_awaiting st of Await_data \<Rightarrow> True | Await_delete \<Rightarrow> True | Await_nothing \<Rightarrow> True
      | _ \<Rightarrow> \<not> q_ignore_watcher (pr_element st))"

lemma child_watcher_keeps_ignore [simp]:
  "q_ignore_watcher (fst (rb_zk_queue_child_watcher zk c q)) = q_ignore_watcher q"
  by (simp add: handler_defs)

lemma told_keeps_ignore: "q_ignore_watcher (pr_element (told zk st e)) = q_ignore_watcher (pr_element st)"
  by (cases e) simp_all

lemma heard_keeps_ignore: "q_ignore_watcher (pr_element (heard zk n st)) = q_ignore_watcher (pr_element st)"
  by (cases n) (simp_all add: told_keeps_ignore del: told.simps)

lemma unwatched_heard: "unwatched st \<Longrightarrow> pr_awaiting st = Await_lock \<Longrightarrow> unwatched (heard zk n st)"
  using heard_keeps_ignore [of zk n st] by (simp add: unwatched_def split: awaiting.split)

lemma unwatched_handled:
  "next' \<in> {Await_data, Await_delete, Await_nothing} \<or> \<not> q_ignore_watcher (fst r) \<Longrightarrow> unwatched (handled st r next' b)"
  by (auto simp: unwatched_def split: awaiting.split)

lemma pop_minimum_none_keeps:
  "min_str strings = None \<Longrightarrow> 0 \<le> rc \<Longrightarrow> fst (rb_zk_queue_pop_minimum0 zk rc strings w q) = q"
  by (simp add: handler_defs)

lemma unwatched_step:
  assumes inv: "dist_inv dir path d" and un: "\<forall>i. unwatched (dq_pop d i)" and step: "dist_step False dir leaf path d e"
  shows "\<forall>i. unwatched (dq_pop e i)"
  using step
proof cases
  case (asks i zk m)
  obtain n where n: "\<And>st. foldl (told zk) st (rb_zk_mutex_lock0 zk m) = heard zk n st"
    using speaks_heard [OF lock0_speaks [OF before_lock_asked(1)]] by metis
  have "unwatched (heard zk n (pop_started path))"
    by (rule unwatched_heard) (simp_all add: unwatched_def pop_started_def rb_zk_queue_pop_def new_queue_element_def)
  with un show ?thesis by (simp add: asks(1) n)
next
  case (lock_callback zk i r)
  note waits = asked_still_waits [OF inv lock_callback(3)]
  obtain n where n: "\<And>st. foldl (told zk) st (snd r) = heard zk n st"
    using speaks_heard [OF calls_back_speaks [OF lock_callback(3)]] by metis
  with unwatched_heard [of "dq_pop d i"] un waits show ?thesis by (simp add: lock_callback(1))
next
  case (children i w zk rc strings)
  then have "unwatched (dq_pop d i)" "waits_for d i = Await_children w" using un by simp_all
  then have "\<not> q_ignore_watcher (popped d i)" by (simp add: unwatched_def)
  then have i: "unwatched (handled (dq_pop d i) (rb_zk_queue_pop_minimum0 zk rc strings w (popped d i))
      (if rc < 0 then Await_nothing else if min_str strings \<noteq> None then Await_data
       else if w then Await_watch else Await_children True) b)" for b
    by (intro unwatched_handled) (auto simp: pop_minimum_none_keeps)
  have "unwatched (dq_pop e i)" unfolding children(1) pops_fields fun_upd_same by (rule i)
  moreover have "dq_pop e j = dq_pop d j" if "j \<noteq> i" for j using that by (simp add: children(1))
  ultimately show ?thesis using un by metis
next
  case (watch i zk)
  then have "unwatched (dq_pop d i)" "waits_for d i = Await_watch" using un by simp_all
  then have "\<not> q_ignore_watcher (popped d i)" by (simp add: unwatched_def)
  then have "unwatched (handled (dq_pop d i) (rb_zk_queue_child_watcher zk True (popped d i)) n b)" for n b
    by (intro unwatched_handled) simp
  with un show ?thesis by (simp add: watch(1))
next
  case (data i zk rc v)
  have "unwatched (handled (dq_pop d i) (rb_zk_queue_get_element zk rc v (popped d i)) n b)"
    if "n \<in> {Await_nothing, Await_delete}" for n b
    using that by (intro unwatched_handled) auto
  with un show ?thesis by (simp add: data(1))
next
  case (deleted i rc r)
  have "unwatched (handled (dq_pop d i) (rb_zk_queue_delete_completed rc (popped d i)) Await_nothing b)" for b
    by (rule unwatched_handled) simp
  with un show ?thesis by (simp add: deleted(1,4))
next
  case (stale_watch i zk)
  have "unwatched (dq_pop d i)" using un by simp
  then have "unwatched (dq_pop e i)" by (simp add: stale_watch(1) unwatched_def cong: awaiting.case_cong)
  moreover have "dq_pop e j = dq_pop d j" if "j \<noteq> i" for j using that by (simp add: stale_watch(1))
  ultimately show ?thesis using un by metis
qed (use un in simp_all)

definition dist_sound :: "string \<Rightarrow> string \<Rightarrow> dist_sys \<Rightarrow> bool" where
  "dist_sound dir path d \<longleftrightarrow>
     dist_inv dir path d \<and> works_alone d \<and> (\<forall>i. pop_inv (dq_pop d i)) \<and> queue_inv path d \<and> (\<forall>i. unwatched (dq_pop d i))"

lemma dist_sound_step: "dist_sound dir path d \<Longrightarrow> dist_step False dir leaf path d e \<Longrightarrow> dist_sound dir path e"
  unfolding dist_sound_def using dist_inv_step works_alone_step pops_alive queue_inv_step unwatched_step by metis

lemma dist_sound_reach: "dist_reach False dir leaf path dist_start d \<Longrightarrow> dist_sound dir path d"
proof (induction rule: dist_reach.induct)
  case here
  have "unwatched (dq_pop dist_start i)" for i by (simp add: dist_start_def unwatched_def)
  then show ?case
    unfolding dist_sound_def using dist_inv_start works_alone_start alive_start queue_inv_start by blast
qed (rule dist_sound_step)

text \<open>From each place where a pop works, the callbacks to come hand the next sensor over.\<close>

definition hands_next :: "string \<Rightarrow> string \<Rightarrow> string \<Rightarrow> nat \<Rightarrow> dist_sys \<Rightarrow> bool" where
  "hands_next dir leaf path i d \<longleftrightarrow>
     (\<exists>e. dist_reach False dir leaf path d e \<and> waits_for e i = Await_delete \<and>
        dq_pushed e = dq_pushed d \<and> length (dq_handed e) = Suc (length (dq_handed d)))"

lemma hands_next_later:
  assumes "dist_step False dir leaf path d e" and "hands_next dir leaf path i e"
    and "dq_pushed e = dq_pushed d" "dq_handed e = dq_handed d"
  shows "hands_next dir leaf path i d"
  using assms dist_reach_first [OF assms(1)] unfolding hands_next_def by metis

lemma client_lib_answers: "client_lib faulty dir d (answers dir (ls_nodes (dq_lock d)))"
  by (rule lawful_answers)

lemma answers_called [simp]:
  "answers dir ns (Aget_children p) = 0" "answers dir ns (Aget q) = 0" "answers dir ns (Adelete q) = 0"
  by (simp_all add: answers_def)

lemma data_hands_next:
  assumes ok: "dist_sound dir path d" and at: "waits_for d i = Await_data"
  shows "hands_next dir leaf path i d"
proof -
  have step: "hands_next dir leaf path i d'"
    if "dist_sound dir path d'" "waits_for d' i = Await_data" "dq_answer d' i = Some (Data_is v)" for d' v
  proof -
    let ?zk = "answers dir (ls_nodes (dq_lock d'))"
    let ?e = "pops i (rb_zk_queue_get_element ?zk 0 v (popped d' i)) Await_delete (pr_stale_watch (dq_pop d' i)) d'"
    have "dist_step False dir leaf path d' ?e"
      using dist_step.data [where dir = dir and leaf = leaf and path = path and faulty = False and rc = 0 and v = v,
          OF that(2) client_lib_answers] that(3) by simp
    moreover have "\<not> q_freed (popped d' i)" using that element_lives by (simp add: dist_sound_def)
    then have "waits_for ?e i = Await_delete" by (simp add: rb_zk_queue_get_element_def Let_def)
    ultimately show ?thesis
      unfolding hands_next_def by (intro exI [of _ ?e]) (simp add: dist_reach.step [OF dist_reach.here])
  qed
  have "pop_knows path (dq_queue d) (map snd (dq_handed d)) (dq_pop d i) (dq_answer d i)"
    using ok by (simp add: dist_sound_def queue_inv_def)
  then obtain nm v where nm: "q_element_path (popped d i) = Some (node_path (directory_of path) nm)" "dq_queue d nm = Some v"
    using at by (auto simp: pop_knows_def)
  have "pop_ok path (set (dq_pushed d)) (given_out d) (i \<in> dq_begun d) (ls_phase (dq_lock d) i) (dq_pop d i) (dq_answer d i)"
    using ok dist_inv_pop_ok [of dir path d i] by (simp add: dist_sound_def)
  then consider v where "dq_answer d i = Some (Data_is v)" | "dq_answer d i = None" using at by (auto simp: pop_ok_def)
  then show ?thesis
  proof cases
    case (1 w)
    then show ?thesis by (rule step [OF ok at])
  next
    case 2
    let ?e = "d\<lparr>dq_answer := (dq_answer d)(i \<mapsto> Data_is v)\<rparr>"
    have s: "dist_step False dir leaf path d ?e" by (rule dist_step.data_answered [OF at 2 nm])
    have "hands_next dir leaf path i ?e" by (rule step [OF dist_sound_step [OF ok s]]) (simp_all add: at)
    from hands_next_later [OF s this] show ?thesis by simp
  qed
qed

lemma listing_hands_next:
  assumes ok: "dist_sound dir path d" and at: "waits_for d i = Await_children w" "dq_answer d i = Some (Children_are strings)"
    and some: "min_str strings \<noteq> None"
  shows "hands_next dir leaf path i d"
proof -
  let ?zk = "answers dir (ls_nodes (dq_lock d))"
  let ?r = "rb_zk_queue_pop_minimum0 ?zk 0 strings w (popped d i)"
  let ?e = "pops i ?r Await_data w d"
  have s: "dist_step False dir leaf path d ?e"
    using dist_step.children [where dir = dir and leaf = leaf and path = path and faulty = False and rc = 0 and strings = strings,
        OF at(1) client_lib_answers] at(2) some by simp
  have "\<not> q_freed (popped d i)" using ok at element_lives by (simp add: dist_sound_def)
  then have "\<not> q_freed (fst ?r)" using some by (auto simp: rb_zk_queue_pop_minimum0_def Let_def)
  then have "waits_for ?e i = Await_data" by simp
  from data_hands_next [OF dist_sound_step [OF ok s] this] show ?thesis
    by (rule hands_next_later [OF s]) simp_all
qed

lemma asking_hands_next:
  assumes ok: "dist_sound dir path d" and at: "waits_for d i = Await_children w" "dq_answer d i = None"
    and some: "dom (dq_queue d) \<noteq> {}"
  shows "hands_next dir leaf path i d"
proof -
  have "dom (dq_queue d) \<subseteq> dom (map_of (dq_pushed d))"
    using ok by (simp add: dist_sound_def dist_inv_def map_le_implies_dom_le)
  then have "finite (dom (dq_queue d))" by (rule finite_subset) (rule finite_dom_map_of)
  then obtain strings where strings: "names_of strings = dom (dq_queue d)" by (rule listing_exists)
  let ?e = "d\<lparr>dq_answer := (dq_answer d)(i \<mapsto> Children_are strings)\<rparr>"
  have s: "dist_step False dir leaf path d ?e" by (rule dist_step.children_answered [OF at strings])
  have "min_str strings \<noteq> None" using min_str_least [of strings] strings some by (auto simp: least_of_def)
  then have "hands_next dir leaf path i ?e"
    by (intro listing_hands_next [OF dist_sound_step [OF ok s], where w = w]) (simp_all add: at)
  from hands_next_later [OF s this] show ?thesis by simp
qed

lemma watching_hands_next:
  assumes ok: "dist_sound dir path d" and at: "waits_for d i = Await_watch" and some: "dom (dq_queue d) \<noteq> {}"
  shows "hands_next dir leaf path i d"
proof -
  let ?zk = "answers dir (ls_nodes (dq_lock d))"
  have "unwatched (dq_pop d i)" using ok by (simp add: dist_sound_def)
  then have watched: "\<not> q_ignore_watcher (popped d i)" using at by (simp add: unwatched_def)
  let ?r = "rb_zk_queue_child_watcher ?zk True (popped d i)"
  let ?e = "pops i ?r (Await_children False) False d"
  have s: "dist_step False dir leaf path d ?e"
    using dist_step.watch [where dir = dir and leaf = leaf and path = path and faulty = False, OF at client_lib_answers] watched by simp
  have "\<not> q_freed (popped d i)" using ok at element_lives by (simp add: dist_sound_def)
  then have "waits_for ?e i = Await_children False"
    using watched by (simp add: rb_zk_queue_child_watcher_def rb_zk_queue_pop_nolock_def)
  from asking_hands_next [OF dist_sound_step [OF ok s] this] some show ?thesis
    by (intro hands_next_later [OF s]) simp_all
qed

lemma pop_hands_next:
  assumes ok: "dist_sound dir path d" and at: "busy (waits_for d i)" "waits_for d i \<noteq> Await_delete"
    and some: "dom (dq_queue d) \<noteq> {}"
  shows "hands_next dir leaf path i d"
proof (cases "waits_for d i")
  case (Await_children w)
  have "pop_ok path (set (dq_pushed d)) (given_out d) (i \<in> dq_begun d) (ls_phase (dq_lock d) i) (dq_pop d i) (dq_answer d i)"
    using ok dist_inv_pop_ok [of dir path d i] by (simp add: dist_sound_def)
  then consider "dq_answer d i = None" | strings where "dq_answer d i = Some (Children_are strings)"
    using Await_children by (auto simp: pop_ok_def)
  then show ?thesis
  proof cases
    case 1
    then show ?thesis by (rule asking_hands_next [OF ok Await_children _ some])
  next
    case (2 strings)
    show ?thesis
    proof (cases "min_str strings")
      case None
      let ?zk = "answers dir (ls_nodes (dq_lock d))"
      let ?n = "if w then Await_watch else Await_children True"
      let ?e = "pops i (rb_zk_queue_pop_minimum0 ?zk 0 strings w (popped d i)) ?n False d"
      have s: "dist_step False dir leaf path d ?e"
        using dist_step.children [where dir = dir and leaf = leaf and path = path and faulty = False and rc = 0 and strings = strings,
            OF Await_children client_lib_answers] 2 None by simp
      have "\<not> q_freed (popped d i)" using ok Await_children element_lives by (simp add: dist_sound_def)
      then have "waits_for ?e i = ?n" by (simp add: pop_minimum_none_keeps [OF None])
      then have "hands_next dir leaf path i ?e"
        using watching_hands_next [OF dist_sound_step [OF ok s], of i leaf]
          asking_hands_next [OF dist_sound_step [OF ok s], of i True leaf] some
        by (cases w) simp_all
      from hands_next_later [OF s this] show ?thesis by simp
    qed (use listing_hands_next [OF ok Await_children 2] in simp)
  qed
next
  case Await_watch
  then show ?thesis by (rule watching_hands_next [OF ok _ some])
next
  case Await_data
  then show ?thesis by (rule data_hands_next [OF ok])
qed (use at in simp_all)

end
