(* ===== verification/Config.thy ===== *)
theory Config
  imports Sensor
begin

text \<open>
  The configuration part of src/main.c: the members of the \<open>conf\<close> object, the options of librdkafka
  and librbhttp, the \<open>zookeeper\<close> object, the array of sensors, and the pause between two sensors.
  What the build has is a parameter: whether librbhttp is there (\<open>HAVE_RBHTTP\<close>) and the number its
  header gives \<open>CHUNKED_MODE\<close>.
\<close>

section \<open>The settings\<close>

text \<open>The members of \<open>struct _worker_info\<close> and \<open>struct _main_info\<close> the configuration sets.\<close>

record worker_config =
  wc_timeout :: int64
  wc_max_snmp_fails :: int64
  wc_max_kafka_fails :: "string option"
  wc_kafka_broker :: "string option"
  wc_kafka_topic :: "string option"
  wc_kafka_timeout :: int64
  wc_sleep_worker :: int64
  wc_http_endpoint :: "string option"
  wc_http_mode :: int64
  wc_http_insecure :: int64
  wc_http_max_total_connections :: int64
  wc_http_timeout :: int64
  wc_http_connttimeout :: int64
  wc_http_verbose :: int64
  wc_rb_http_max_messages :: int64

record main_info =
  mi_sleep_main :: "64 word"
  mi_threads :: "64 word"

text \<open>A call of \<open>rd_kafka_topic_conf_set\<close> or of \<open>rd_kafka_conf_set\<close>.\<close>

datatype kafka_setting = Topic_set string "string option" | Global_set string "string option"

record build =
  have_rbhttp :: bool
  chunked_mode :: int64

text \<open>The state of the parser: the two structures, the severity of the log, librdkafka's settings.\<close>

record conf_state =
  cs_worker :: worker_config
  cs_main :: main_info
  cs_severity :: "32 word option"
  cs_kafka :: "kafka_setting list"
  cs_ok :: bool

section \<open>Options of librdkafka\<close>

definition CONFIG_RDKAFKA_KEY :: string where
  "CONFIG_RDKAFKA_KEY = ''rdkafka.''"

text \<open>\<open>known\<close> says whether \<open>rd_kafka_topic_conf_set\<close> knows the name of a topic option.\<close>

definition parse_rdkafka_keyval_config ::
    "(string \<Rightarrow> string option \<Rightarrow> bool) \<Rightarrow> string \<Rightarrow> string option \<Rightarrow> kafka_setting list" where
  "parse_rdkafka_keyval_config known key value' =
     (let name = drop (length CONFIG_RDKAFKA_KEY) key;
          topic = prefix ''topic.'' name;
          tname = drop (length ''topic.'') name
      in (if topic then [Topic_set tname value'] else [])
         @ (if topic \<and> known tname value' then [] else [Global_set name value']))"

definition parse_rdkafka_config_json ::
    "'j json_c \<Rightarrow> (string \<Rightarrow> string option \<Rightarrow> bool) \<Rightarrow> string \<Rightarrow> 'j option \<Rightarrow> kafka_setting list" where
  "parse_rdkafka_config_json J known key jvalue =
     parse_rdkafka_keyval_config known key (jc_string J jvalue)"

section \<open>The conf object\<close>

text \<open>
  One turn of the loop of \<open>parse_json_config\<close>: the new state and whether \<open>errno\<close> is set after it. Of
  the calls to json-c only \<open>json_object_get_int64\<close> reports through \<open>errno\<close>.
\<close>

definition parse_config_key ::
    "build \<Rightarrow> 'j json_c \<Rightarrow> (string \<Rightarrow> string option \<Rightarrow> bool) \<Rightarrow> string \<Rightarrow> 'j option \<Rightarrow> conf_state
      \<Rightarrow> conf_state \<times> bool" where
  "parse_config_key B J known key jval st =
     (let i = fst (jc_int64 J jval);
          err = snd (jc_int64 J jval);
          s = jc_string J jval;
          w = cs_worker st;
          put_w = (\<lambda>w'. st\<lparr>cs_worker := w'\<rparr>)
      in if key = ''debug'' then (st\<lparr>cs_severity := Some (ucast i)\<rparr>, err)
         else if key = ''stdout'' then (st, False)
         else if key = ''syslog'' then (st, False)
         else if key = ''threads'' then
           (if sint i \<le> 0 then st else st\<lparr>cs_main := (cs_main st)\<lparr>mi_threads := i\<rparr>\<rparr>, err)
         else if key = ''timeout'' then (put_w (w\<lparr>wc_timeout := i\<rparr>), err)
         else if key = ''max_snmp_fails'' then (put_w (w\<lparr>wc_max_snmp_fails := i\<rparr>), err)
         else if key = ''max_kafka_fails'' then (put_w (w\<lparr>wc_max_kafka_fails := s\<rparr>), False)
         else if key = ''sleep_main'' then
           (if sint i \<le> 0 then st else st\<lparr>cs_main := (cs_main st)\<lparr>mi_sleep_main := i\<rparr>\<rparr>, err)
         else if key = ''kafka_broker'' then (put_w (w\<lparr>wc_kafka_broker := s\<rparr>), False)
         else if key = ''kafka_topic'' then (put_w (w\<lparr>wc_kafka_topic := s\<rparr>), False)
         else if key = ''kafka_timeout'' then (put_w (w\<lparr>wc_kafka_timeout := i\<rparr>), err)
         else if key = ''sleep_worker'' then (put_w (w\<lparr>wc_sleep_worker := i\<rparr>), err)
         else if key = ''http_endpoint'' then
           (if have_rbhttp B then put_w (w\<lparr>wc_http_endpoint := s\<rparr>) else st, False)
         else if key = CONFIG_RDKAFKA_KEY then
           (st\<lparr>cs_kafka := cs_kafka st @ parse_rdkafka_config_json J known key jval\<rparr>, False)
         else if key = ''http_max_total_connections'' then
           (put_w (w\<lparr>wc_http_max_total_connections := i\<rparr>), err)
         else if key = ''http_timeout'' then (put_w (w\<lparr>wc_http_timeout := i\<rparr>), err)
         else if key = ''http_connttimeout'' then (put_w (w\<lparr>wc_http_connttimeout := i\<rparr>), err)
         else if key = ''http_verbose'' then (put_w (w\<lparr>wc_http_verbose := i\<rparr>), err)
         else if key = ''http_insecure'' then
           (if have_rbhttp B then (put_w (w\<lparr>wc_http_insecure := i\<rparr>), err) else (st, False))
         else if key = ''rb_http_max_messages'' then
           (put_w (w\<lparr>wc_rb_http_max_messages := i\<rparr>), err)
         else if key = ''rb_http_mode'' then
           (if \<not> have_rbhttp B then st
            else case s of
                   None \<Rightarrow> st
                 | Some sval \<Rightarrow>
                     if sval = ''normal'' then put_w (w\<lparr>wc_http_mode := 0\<rparr>)
                     else if sval = ''deflated'' then put_w (w\<lparr>wc_http_mode := chunked_mode B\<rparr>)
                     else st, False)
         else (st, False))"

definition parse_config_member ::
    "build \<Rightarrow> 'j json_c \<Rightarrow> (string \<Rightarrow> string option \<Rightarrow> bool) \<Rightarrow> conf_state \<Rightarrow> string \<times> 'j option
      \<Rightarrow> conf_state" where
  "parse_config_member B J known st m =
     (let (st', err) = parse_config_key B J known (fst m) (snd m) st
      in if err then st'\<lparr>cs_ok := False\<rparr> else st')"

definition parse_json_config ::
    "build \<Rightarrow> 'j json_c \<Rightarrow> (string \<Rightarrow> string option \<Rightarrow> bool) \<Rightarrow> 'j \<Rightarrow> conf_state \<Rightarrow> conf_state" where
  "parse_json_config B J known config st =
     foldl (parse_config_member B J known) (st\<lparr>cs_ok := True\<rparr>) (jc_members J config)"

text \<open>What parsing the fallback text of the program gives: the members, in order.\<close>

definition str_default_config :: "(string \<times> int64) list" where
  "str_default_config =
     [(''debug'', 100), (''syslog'', 0), (''stdout'', 1), (''threads'', 10), (''timeout'', 5),
      (''max_snmp_fails'', 2), (''sleep_main'', 10), (''sleep_worker'', 2)]"

definition default_config_ok :: "'j json_c \<Rightarrow> 'j \<Rightarrow> bool" where
  "default_config_ok J d \<longleftrightarrow>
     jc_members J d = map (\<lambda>(k, i). (k, Some (jc_new_int64 J i))) str_default_config
     \<and> (\<forall>i. jc_int64 J (Some (jc_new_int64 J i)) = (i, False))"

text \<open>\<open>memset\<close> and the initialiser leave everything zero or null.\<close>

definition zero_config :: conf_state where
  "zero_config =
     \<lparr>cs_worker = \<lparr>wc_timeout = 0, wc_max_snmp_fails = 0, wc_max_kafka_fails = None,
        wc_kafka_broker = None, wc_kafka_topic = None, wc_kafka_timeout = 0, wc_sleep_worker = 0,
        wc_http_endpoint = None, wc_http_mode = 0, wc_http_insecure = 0,
        wc_http_max_total_connections = 0, wc_http_timeout = 0, wc_http_connttimeout = 0,
        wc_http_verbose = 0, wc_rb_http_max_messages = 0\<rparr>,
      cs_main = \<lparr>mi_sleep_main = 0, mi_threads = 0\<rparr>, cs_severity = None, cs_kafka = [], cs_ok = True\<rparr>"

text \<open>
  The part of \<open>main\<close> from the defaults to the end of the \<open>conf\<close> object: \<open>debug_severity\<close> is the
  argument of \<open>-d\<close>, or the default.
\<close>

definition configure ::
    "build \<Rightarrow> 'j json_c \<Rightarrow> (string \<Rightarrow> string option \<Rightarrow> bool) \<Rightarrow> 'j \<Rightarrow> 32 word \<Rightarrow> 'j \<Rightarrow> conf_state outcome" where
  "configure B J known default_config debug_severity config_file =
     (let st = (parse_json_config B J known default_config zero_config)\<lparr>cs_severity := Some debug_severity\<rparr>
      in case jc_get J (Some config_file) ''conf'' of
           None \<Rightarrow> Inr st
         | Some None \<Rightarrow> Inl Null_deref
         | Some (Some config) \<Rightarrow> Inr (parse_json_config B J known config st))"

section \<open>A declarative reading of the conf object\<close>

text \<open>
  The value of a key, or the old one when the key is absent or its value is not acceptable.
\<close>

definition setting :: "(string \<times> 'j option) list \<Rightarrow> string \<Rightarrow> ('j option \<Rightarrow> 'a option) \<Rightarrow> 'a \<Rightarrow> 'a" where
  "setting ms key accept old =
     (case map_of ms key of
        None \<Rightarrow> old
      | Some v \<Rightarrow> (case accept v of None \<Rightarrow> old | Some x \<Rightarrow> x))"

definition integer_keys :: "build \<Rightarrow> string set" where
  "integer_keys B =
     {''debug'', ''threads'', ''timeout'', ''max_snmp_fails'', ''sleep_main'', ''kafka_timeout'',
      ''sleep_worker'', ''http_max_total_connections'', ''http_timeout'', ''http_connttimeout'',
      ''http_verbose'', ''rb_http_max_messages''} \<union> (if have_rbhttp B then {''http_insecure''} else {})"

definition an_int :: "'j json_c \<Rightarrow> 'j option \<Rightarrow> int64 option" where
  "an_int J v = Some (fst (jc_int64 J v))"

definition a_positive :: "'j json_c \<Rightarrow> 'j option \<Rightarrow> 64 word option" where
  "a_positive J v = (if sint (fst (jc_int64 J v)) \<le> 0 then None else Some (fst (jc_int64 J v)))"

definition a_string :: "'j json_c \<Rightarrow> 'j option \<Rightarrow> string option option" where
  "a_string J v = Some (jc_string J v)"

definition a_mode :: "build \<Rightarrow> 'j json_c \<Rightarrow> 'j option \<Rightarrow> int64 option" where
  "a_mode B J v =
     (if jc_string J v = Some ''normal'' then Some 0
      else if jc_string J v = Some ''deflated'' then Some (chunked_mode B) else None)"

definition with_rbhttp :: "build \<Rightarrow> ('j option \<Rightarrow> 'a option) \<Rightarrow> 'j option \<Rightarrow> 'a option" where
  "with_rbhttp B accept v = (if have_rbhttp B then accept v else None)"

definition settings_of ::
    "build \<Rightarrow> 'j json_c \<Rightarrow> (string \<Rightarrow> string option \<Rightarrow> bool) \<Rightarrow> (string \<times> 'j option) list \<Rightarrow> conf_state
      \<Rightarrow> conf_state" where
  "settings_of B J known ms st =
     (let w = cs_worker st; m = cs_main st in
      \<lparr>cs_worker =
        \<lparr>wc_timeout = setting ms ''timeout'' (an_int J) (wc_timeout w),
         wc_max_snmp_fails = setting ms ''max_snmp_fails'' (an_int J) (wc_max_snmp_fails w),
         wc_max_kafka_fails = setting ms ''max_kafka_fails'' (a_string J) (wc_max_kafka_fails w),
         wc_kafka_broker = setting ms ''kafka_broker'' (a_string J) (wc_kafka_broker w),
         wc_kafka_topic = setting ms ''kafka_topic'' (a_string J) (wc_kafka_topic w),
         wc_kafka_timeout = setting ms ''kafka_timeout'' (an_int J) (wc_kafka_timeout w),
         wc_sleep_worker = setting ms ''sleep_worker'' (an_int J) (wc_sleep_worker w),
         wc_http_endpoint = setting ms ''http_endpoint'' (with_rbhttp B (a_string J)) (wc_http_endpoint w),
         wc_http_mode = setting ms ''rb_http_mode'' (with_rbhttp B (a_mode B J)) (wc_http_mode w),
         wc_http_insecure = setting ms ''http_insecure'' (with_rbhttp B (an_int J)) (wc_http_insecure w),
         wc_http_max_total_connections =
           setting ms ''http_max_total_connections'' (an_int J) (wc_http_max_total_connections w),
         wc_http_timeout = setting ms ''http_timeout'' (an_int J) (wc_http_timeout w),
         wc_http_connttimeout = setting ms ''http_connttimeout'' (an_int J) (wc_http_connttimeout w),
         wc_http_verbose = setting ms ''http_verbose'' (an_int J) (wc_http_verbose w),
         wc_rb_http_max_messages = setting ms ''rb_http_max_messages'' (an_int J) (wc_rb_http_max_messages w)\<rparr>,
       cs_main =
        \<lparr>mi_sleep_main = setting ms ''sleep_main'' (a_positive J) (mi_sleep_main m),
         mi_threads = setting ms ''threads'' (a_positive J) (mi_threads m)\<rparr>,
       cs_severity = setting ms ''debug'' (\<lambda>v. Some (Some (ucast (fst (jc_int64 J v))))) (cs_severity st),
       cs_kafka = cs_kafka st @ setting ms CONFIG_RDKAFKA_KEY
         (\<lambda>v. Some (parse_rdkafka_config_json J known CONFIG_RDKAFKA_KEY v)) [],
       cs_ok = (cs_ok st \<and> (\<forall>(k, v) \<in> set ms. k \<in> integer_keys B \<longrightarrow> \<not> snd (jc_int64 J v)))\<rparr>)"

lemma setting_Nil [simp]: "setting [] key accept old = old"
  by (simp add: setting_def)

lemma setting_other [simp]: "k \<noteq> key \<Longrightarrow> setting ((k, v) # ms) key accept old = setting ms key accept old"
  by (simp add: setting_def)

lemma setting_this [simp]:
  "k \<notin> fst ` set ms \<Longrightarrow> setting ((k, v) # ms) k accept old = (case accept v of None \<Rightarrow> old | Some x \<Rightarrow> x)"
  "k \<notin> fst ` set ms \<Longrightarrow> setting ms k accept old = old"
  by (simp_all add: setting_def map_of_eq_None_iff [THEN iffD2])

text \<open>The keys with a meaning; any other key leaves everything as it is.\<close>

definition config_keys :: "string list" where
  "config_keys =
     [''debug'', ''stdout'', ''syslog'', ''threads'', ''timeout'', ''max_snmp_fails'', ''max_kafka_fails'',
      ''sleep_main'', ''kafka_broker'', ''kafka_topic'', ''kafka_timeout'', ''sleep_worker'',
      ''http_endpoint'', CONFIG_RDKAFKA_KEY, ''http_max_total_connections'', ''http_timeout'',
      ''http_connttimeout'', ''http_verbose'', ''http_insecure'', ''rb_http_max_messages'', ''rb_http_mode'']"

lemma parse_config_key_unknown:
  "key \<notin> set config_keys \<Longrightarrow> parse_config_key B J known key v st = (st, False)"
  by (simp add: parse_config_key_def config_keys_def Let_def)

lemmas accept_defs = an_int_def a_positive_def a_string_def a_mode_def with_rbhttp_def

text \<open>Reading a member first and the others after it, and what reading one member does.\<close>

lemma setting_Cons:
  "k \<notin> fst ` set ms \<Longrightarrow>
     setting ((k, v) # ms) key accept old = setting ms key accept (setting [(k, v)] key accept old)"
  by (cases "k = key") (simp_all add: setting_def map_of_eq_None_iff [THEN iffD2])

lemma setting_single: "setting [(k, v)] key accept old = (if k = key then (case accept v of None \<Rightarrow> old | Some x \<Rightarrow> x) else old)"
  by (simp add: setting_def)

lemma settings_of_append:
  assumes "k \<notin> fst ` set ms"
  shows "settings_of B J known ((k, v) # ms) st = settings_of B J known ms (settings_of B J known [(k, v)] st)"
proof -
  have "setting ms CONFIG_RDKAFKA_KEY f x = x" if "k = CONFIG_RDKAFKA_KEY"
    for f :: "'a option \<Rightarrow> kafka_setting list option" and x
    using assms that by simp
  then show ?thesis
    unfolding settings_of_def Let_def by (simp add: setting_Cons [OF assms]) (auto simp: setting_single)
qed

lemma settings_of_member: "settings_of B J known [(k, v)] st = parse_config_member B J known st (k, v)"
proof (cases "k \<in> set config_keys")
  case False
  then show ?thesis
    by (simp add: parse_config_member_def parse_config_key_unknown settings_of_def Let_def setting_single
        config_keys_def integer_keys_def)
next
  case True
  then have "k = ''rb_http_mode'' \<or> k \<in> set (butlast config_keys)" by (auto simp: config_keys_def)
  then show ?thesis
  proof
    assume "k = ''rb_http_mode''"
    then show ?thesis
      by (cases "jc_string J v")
        (auto simp: settings_of_def parse_config_member_def parse_config_key_def Let_def setting_single
          integer_keys_def accept_defs CONFIG_RDKAFKA_KEY_def)
  next
    assume "k \<in> set (butlast config_keys)"
    then show ?thesis
      unfolding config_keys_def
      by (simp, elim disjE)
        (simp_all add: settings_of_def parse_config_member_def parse_config_key_def Let_def setting_single
          integer_keys_def accept_defs CONFIG_RDKAFKA_KEY_def)
  qed
qed

lemma settings_of_Cons:
  assumes "k \<notin> fst ` set ms"
  shows "settings_of B J known ((k, v) # ms) st
    = settings_of B J known ms (parse_config_member B J known st (k, v))"
  unfolding settings_of_append [OF assms] settings_of_member ..

text \<open>Parsing a \<open>conf\<close> object is reading each setting by its key, in any order.\<close>

lemma parse_members_settings:
  "distinct (map fst ms) \<Longrightarrow> foldl (parse_config_member B J known) st ms = settings_of B J known ms st"
proof (induction ms arbitrary: st)
  case Nil
  show ?case by (simp add: settings_of_def Let_def)
next
  case (Cons m ms)
  obtain k v where m: "m = (k, v)" by (cases m)
  have "foldl (parse_config_member B J known) st (m # ms)
      = settings_of B J known ms (parse_config_member B J known st m)" using Cons by simp
  also have "\<dots> = settings_of B J known (m # ms) st"
    unfolding m by (rule settings_of_Cons [symmetric]) (use Cons.prems m in simp)
  finally show ?case .
qed

lemma parse_json_config_settings:
  assumes "distinct (map fst (jc_members J config))"
  shows "parse_json_config B J known config st
    = settings_of B J known (jc_members J config) (st\<lparr>cs_ok := True\<rparr>)"
  unfolding parse_json_config_def by (rule parse_members_settings [OF assms])

section \<open>There is always a worker\<close>

text \<open>\<open>threads\<close> and \<open>sleep_main\<close> are positive from the defaults on, whatever the file says.\<close>

definition daemon_ready :: "conf_state \<Rightarrow> bool" where
  "daemon_ready st \<longleftrightarrow> 0 < sint (mi_threads (cs_main st)) \<and> 0 < sint (mi_sleep_main (cs_main st))"

lemma parse_config_member_ready:
  "daemon_ready st \<Longrightarrow> daemon_ready (parse_config_member B J known st m)"
  by (auto simp: daemon_ready_def parse_config_member_def parse_config_key_def Let_def
      split: option.split)

lemma parse_json_config_ready: "daemon_ready st \<Longrightarrow> daemon_ready (parse_json_config B J known c st)"
proof -
  have "daemon_ready st \<Longrightarrow> daemon_ready (foldl (parse_config_member B J known) st ms)" for st ms
    by (induction ms arbitrary: st) (simp_all add: parse_config_member_ready)
  then show "daemon_ready st \<Longrightarrow> ?thesis" by (simp add: parse_json_config_def daemon_ready_def)
qed

lemma default_config_settings:
  assumes "default_config_ok J d"
  shows "cs_main (parse_json_config B J known d zero_config) = \<lparr>mi_sleep_main = 10, mi_threads = 10\<rparr>
    \<and> wc_timeout (cs_worker (parse_json_config B J known d zero_config)) = 5
    \<and> cs_ok (parse_json_config B J known d zero_config)"
proof -
  have mem: "jc_members J d = map (\<lambda>(k, i). (k, Some (jc_new_int64 J i))) str_default_config"
    and int: "\<And>i. jc_int64 J (Some (jc_new_int64 J i)) = (i, False)"
    using assms by (simp_all add: default_config_ok_def)
  have "distinct (map fst (jc_members J d))" unfolding mem str_default_config_def by simp
  then show ?thesis
    by (simp add: parse_json_config_settings mem int str_default_config_def settings_of_def
        setting_def accept_defs zero_config_def Let_def)
qed

lemma configure_ready:
  assumes "default_config_ok J d" and "configure B J known d sev file = Inr st"
  shows "daemon_ready st"
proof -
  have "daemon_ready (parse_json_config B J known d zero_config)"
    using default_config_settings [OF assms(1), of B known] by (simp add: daemon_ready_def)
  then have "daemon_ready ((parse_json_config B J known d zero_config)\<lparr>cs_severity := Some sev\<rparr>)"
    by (simp add: daemon_ready_def)
  then show ?thesis
    using assms(2) parse_json_config_ready by (auto simp: configure_def Let_def split: option.splits)
qed

section \<open>Options of librbhttp\<close>

text \<open>The calls of \<open>rb_http_handler_set_opt\<close>, in order; what they return is only logged.\<close>

definition process_rb_http_options :: "worker_config \<Rightarrow> (string \<times> string) list" where
  "process_rb_http_options w =
     map (\<lambda>(option_key, i). (option_key, snprintf BUFSIZ (print_ld i)))
       [(''HTTP_MAX_TOTAL_CONNECTIONS'', wc_http_max_total_connections w),
        (''HTTP_TIMEOUT'', wc_http_timeout w), (''HTTP_CONNTTIMEOUT'', wc_http_connttimeout w),
        (''HTTP_VERBOSE'', wc_http_verbose w), (''RB_HTTP_MAX_MESSAGES'', wc_rb_http_max_messages w),
        (''RB_HTTP_MODE'', wc_http_mode w)]
     @ (if wc_http_insecure w \<noteq> 0 then [(''HTTP_INSECURE'', ''1'')] else [])"

section \<open>The pause of the main loop\<close>

text \<open>\<open>usleep((useconds_t)((sleep_main * 1000000) / count))\<close>, in 64 and then 32 bits.\<close>

definition main_pause :: "64 word \<Rightarrow> 64 word \<Rightarrow> 32 word" where
  "main_pause sleep_main count = ucast ((sleep_main * 1000000) div count)"

lemma main_pause_exact:
  assumes "unat sleep_main * 1000000 < 2 ^ 64" and "unat sleep_main * 1000000 div unat count < 2 ^ 32"
  shows "unat (main_pause sleep_main count) = unat sleep_main * 1000000 div unat count"
proof -
  have "unat (sleep_main * 1000000) = unat sleep_main * 1000000"
    using assms(1) by (simp add: unat_word_ariths take_bit_eq_mod)
  then have "unat ((sleep_main * 1000000) div count) = unat sleep_main * 1000000 div unat count"
    by (simp add: unat_div_distrib)
  then show ?thesis using assms(2) by (simp add: main_pause_def unsigned_ucast_eq take_bit_nat_eq_self)
qed

end
