(* ===== verification/Startup.thy ===== *)
theory Startup
  imports Config
begin

text \<open>
  What src/main.c does with the configuration file before the workers start: the \<open>zookeeper\<close> object
  (\<open>parse_zookeeper_json\<close>) and the array of sensors (\<open>parse_sensors\<close>).
\<close>

section \<open>The zookeeper object\<close>

record 'j zk_settings =
  zs_host :: "string option"
  zs_pop_watcher_timeout :: int64
  zs_push_timeout :: int64
  zs_sensors :: "'j option"

text \<open>
  The loop over the members. \<open>errno\<close> is not cleared before it, and the first member after which it is
  set ends the function; \<open>mem\<close> says whether the host can be duplicated.
\<close>

fun parse_zookeeper_members ::
    "'j json_c \<Rightarrow> bool \<Rightarrow> (string \<times> 'j option) list \<Rightarrow> bool \<Rightarrow> 'j zk_settings \<Rightarrow> 'j zk_settings option outcome" where
  "parse_zookeeper_members J mem [] errno zs = Inr (Some zs)"
| "parse_zookeeper_members J mem ((key, jval) # ms) errno zs =
     obind
       (if key = ''host'' then
          (case jc_string J jval of
             None \<Rightarrow> Inl Null_deref
           | Some h \<Rightarrow> Inr (zs\<lparr>zs_host := (if mem then Some h else None)\<rparr>, \<not> mem))
        else if key = ''pop_watcher_timeout'' then
          Inr (zs\<lparr>zs_pop_watcher_timeout := fst (jc_int64 J jval)\<rparr>, snd (jc_int64 J jval))
        else if key = ''push_timeout'' then
          Inr (zs\<lparr>zs_push_timeout := fst (jc_int64 J jval)\<rparr>, snd (jc_int64 J jval))
        else if key = ''sensors'' then Inr (zs\<lparr>zs_sensors := jval\<rparr>, False)
        else Inr (zs, False))
       (\<lambda>(zs', err).
         if errno \<or> err then Inr None else parse_zookeeper_members J mem ms False zs')"

text \<open>The arguments of \<open>init_rbmon_zk\<close> when it is called; a negative pop timeout is only logged.\<close>

record 'j zk_start =
  zk_host_arg :: string
  zk_pop_arg :: "64 word"
  zk_push_arg :: "64 word"
  zk_sensors_arg :: "'j option"

definition parse_zookeeper_json :: "'j json_c \<Rightarrow> bool \<Rightarrow> bool \<Rightarrow> 'j option \<Rightarrow> 'j zk_start option outcome" where
  "parse_zookeeper_json J mem errno zk_config =
     (case zk_config of
        None \<Rightarrow> Inl Null_deref
      | Some c \<Rightarrow>
          obind (parse_zookeeper_members J mem (jc_members J c) errno
                   \<lparr>zs_host = None, zs_pop_watcher_timeout = 0, zs_push_timeout = 0, zs_sensors = None\<rparr>)
            (\<lambda>r. Inr (case r of
                        None \<Rightarrow> None
                      | Some zs \<Rightarrow>
                          (case zs_host zs of
                             None \<Rightarrow> None
                           | Some host \<Rightarrow>
                               if zs_push_timeout zs = 0 then None
                               else if sint (zs_push_timeout zs) < 0 then None
                               else Some \<lparr>zk_host_arg = host, zk_pop_arg = zs_pop_watcher_timeout zs,
                                          zk_push_arg = zs_push_timeout zs, zk_sensors_arg = zs_sensors zs\<rparr>))))"

text \<open>What the loop leaves when every member can be read.\<close>

definition zk_readable :: "'j json_c \<Rightarrow> (string \<times> 'j option) list \<Rightarrow> bool" where
  "zk_readable J ms \<longleftrightarrow>
     (\<forall>(k, v) \<in> set ms.
        (k = ''host'' \<longrightarrow> jc_string J v \<noteq> None) \<and>
        (k \<in> {''pop_watcher_timeout'', ''push_timeout''} \<longrightarrow> \<not> snd (jc_int64 J v)))"

definition zk_settings_of :: "'j json_c \<Rightarrow> (string \<times> 'j option) list \<Rightarrow> 'j zk_settings \<Rightarrow> 'j zk_settings" where
  "zk_settings_of J ms zs =
     \<lparr>zs_host = setting ms ''host'' (a_string J) (zs_host zs),
      zs_pop_watcher_timeout = setting ms ''pop_watcher_timeout'' (an_int J) (zs_pop_watcher_timeout zs),
      zs_push_timeout = setting ms ''push_timeout'' (an_int J) (zs_push_timeout zs),
      zs_sensors = setting ms ''sensors'' Some (zs_sensors zs)\<rparr>"

lemma parse_zookeeper_members_settings:
  assumes "distinct (map fst ms)" and "zk_readable J ms"
  shows "parse_zookeeper_members J True ms False zs = Inr (Some (zk_settings_of J ms zs))"
  using assms
proof (induction ms arbitrary: zs)
  case (Cons m ms)
  obtain k v where m: "m = (k, v)" by (cases m)
  have rest: "parse_zookeeper_members J True ms False zs' = Inr (Some (zk_settings_of J ms zs'))" for zs'
    using Cons by (simp add: zk_readable_def)
  have new: "k \<notin> fst ` set ms" using Cons.prems m by simp
  have read: "k = ''host'' \<Longrightarrow> \<exists>h. jc_string J v = Some h"
    "k = ''pop_watcher_timeout'' \<or> k = ''push_timeout'' \<Longrightarrow> \<not> snd (jc_int64 J v)"
    using Cons.prems(2) m by (auto simp: zk_readable_def)
  consider "k = ''host''" | "k = ''pop_watcher_timeout''" | "k = ''push_timeout''" | "k = ''sensors''"
    | "k \<noteq> ''host''" "k \<noteq> ''pop_watcher_timeout''" "k \<noteq> ''push_timeout''" "k \<noteq> ''sensors''"
    by blast
  then show ?case
  proof cases
    case 1
    then obtain h where "jc_string J v = Some h" using read(1) by blast
    then show ?thesis using new 1 unfolding m by (simp add: rest zk_settings_of_def accept_defs)
  next
    case 2
    then show ?thesis using new read(2) unfolding m by (simp add: rest zk_settings_of_def accept_defs)
  next
    case 3
    then show ?thesis using new read(2) unfolding m by (simp add: rest zk_settings_of_def accept_defs)
  next
    case 4
    then show ?thesis using new unfolding m by (simp add: rest zk_settings_of_def)
  next
    case 5
    then show ?thesis unfolding m by (simp add: rest zk_settings_of_def)
  qed
qed (simp add: zk_settings_of_def)

text \<open>With \<open>errno\<close> set before, the first member ends the function.\<close>

lemma parse_zookeeper_stale_errno:
  assumes "ms \<noteq> []" and "zk_readable J ms"
  shows "parse_zookeeper_members J mem ms True zs = Inr None"
  using assms by (cases ms) (auto simp: zk_readable_def)

lemma parse_zookeeper_json_eq:
  assumes "distinct (map fst (jc_members J c))" and "zk_readable J (jc_members J c)"
  shows "parse_zookeeper_json J True False (Some c) =
     Inr (case setting (jc_members J c) ''host'' (a_string J) None of
            None \<Rightarrow> None
          | Some host \<Rightarrow>
              if 0 < sint (setting (jc_members J c) ''push_timeout'' (an_int J) 0)
              then Some \<lparr>zk_host_arg = host,
                     zk_pop_arg = setting (jc_members J c) ''pop_watcher_timeout'' (an_int J) 0,
                     zk_push_arg = setting (jc_members J c) ''push_timeout'' (an_int J) 0,
                     zk_sensors_arg = setting (jc_members J c) ''sensors'' Some None\<rparr>
              else None)"
proof -
  have zero: "sint x = 0 \<longleftrightarrow> x = 0" for x :: int64 by (metis sint_0 signed_word_eqI)
  show ?thesis
    using parse_zookeeper_members_settings [OF assms]
    by (auto simp: parse_zookeeper_json_def zk_settings_of_def zero [symmetric] split: option.splits)
qed

section \<open>The array of sensors\<close>

definition CONFIG_SENSORS_KEY :: string where
  "CONFIG_SENSORS_KEY = ''sensors''"

text \<open>
  The loop of \<open>parse_sensors\<close> over the positions \<open>is\<close>; \<open>mem i\<close> are the allocations of sensor \<open>i\<close>.
\<close>

fun parse_sensors_loop ::
    "'j json_c \<Rightarrow> 'f matheval \<Rightarrow> (nat \<Rightarrow> sensor_mem) \<Rightarrow> worker_info \<Rightarrow> 'j option \<Rightarrow> nat list
      \<Rightarrow> 'j rb_sensor rb_array \<Rightarrow> 'j rb_sensor rb_array outcome" where
  "parse_sensors_loop J E mem W json_sensors [] ret = Inr ret"
| "parse_sensors_loop J E mem W json_sensors (i # is) ret =
     (if rb_array_full ret then Inr ret
      else obind (parse_rb_sensor J E (mem i) (jc_array_idx J json_sensors i) W) (\<lambda>sensor.
             case sensor of
               None \<Rightarrow> parse_sensors_loop J E mem W json_sensors is ret
             | Some s \<Rightarrow> obind (rb_array_add ret (Some s)) (parse_sensors_loop J E mem W json_sensors is)))"

text \<open>The result of \<open>rb_sensors_array_new\<close> is read without a check, unless the array is empty.\<close>

definition parse_sensors ::
    "'j json_c \<Rightarrow> 'f matheval \<Rightarrow> bool \<Rightarrow> (nat \<Rightarrow> sensor_mem) \<Rightarrow> worker_info \<Rightarrow> 'j
      \<Rightarrow> 'j rb_sensor rb_array option outcome" where
  "parse_sensors J E mem_array mem W config =
     (case jc_get J (Some config) CONFIG_SENSORS_KEY of
        None \<Rightarrow> Inr None
      | Some json_sensors \<Rightarrow>
          if jc_type J json_sensors \<noteq> Json_array then Inr None
          else
            let n = jc_array_length J json_sensors
            in case rb_array_new mem_array n of
                 None \<Rightarrow> if n = 0 then Inr None else Inl Null_deref
               | Some ret \<Rightarrow> obind (parse_sensors_loop J E mem W json_sensors [0..<n] ret) (\<lambda>r. Inr (Some r)))"

text \<open>The workers of the pass: what \<open>parse_json_config\<close> leaves for them.\<close>

definition pass_worker :: "snmp_session \<Rightarrow> bool \<Rightarrow> conf_state \<Rightarrow> worker_info" where
  "pass_worker default_session http st =
     \<lparr>wi_default_session = default_session, wi_timeout = wc_timeout (cs_worker st),
      wi_kafka_broker = (wc_kafka_broker (cs_worker st) \<noteq> None), wi_http_handler = http\<rparr>"

text \<open>The sensors the parser accepts, in the order of the file.\<close>

definition accepted :: "'a option outcome \<Rightarrow> 'a option" where
  "accepted r = (case r of Inl _ \<Rightarrow> None | Inr s \<Rightarrow> s)"

lemma accepted_simps [simp]: "accepted (Inr s) = s" "accepted (Inl e) = None"
  by (simp_all add: accepted_def)

lemma parse_sensors_loop_contents:
  assumes "rb_array_wf ret" and "length (rb_array_contents ret) + length is \<le> arr_size ret"
    and "parse_sensors_loop J E mem W a is ret = Inr r"
  shows "rb_array_wf r \<and> rb_array_contents r = rb_array_contents ret
      @ map Some (List.map_filter (\<lambda>i. accepted (parse_rb_sensor J E (mem i) (jc_array_idx J a i) W)) is)"
  using assms
proof (induction "is" arbitrary: ret)
  case (Cons i "is")
  have room: "\<not> rb_array_full ret"
    using Cons.prems(1,2) rb_arr.full_iff by fastforce
  with Cons.prems(3) obtain so where so: "parse_rb_sensor J E (mem i) (jc_array_idx J a i) W = Inr so"
    by (auto simp: obind_Inr_iff)
  show ?case
  proof (cases so)
    case None
    with so room Cons.prems Cons.IH [of ret] show ?thesis by (simp add: List.map_filter_def)
  next
    case (Some s)
    obtain b where b: "rb_array_add ret (Some s) = Inr b" "rb_array_wf b" "arr_size b = arr_size ret"
      "rb_array_contents b = rb_array_contents ret @ [Some s]"
      using rb_arr.add_room [OF Cons.prems(1) room] by blast
    have "parse_sensors_loop J E mem W a is b = Inr r" using Cons.prems(3) room so Some b(1) by simp
    from Cons.IH [OF b(2) _ this] Cons.prems(2) b so Some show ?thesis by (simp add: List.map_filter_def)
  qed
qed (simp add: List.map_filter_def)

lemma parse_sensors_contents:
  assumes "parse_sensors J E mem_array mem W config = Inr (Some r)"
  shows "\<exists>a. jc_get J (Some config) CONFIG_SENSORS_KEY = Some a \<and> rb_array_wf r \<and> rb_array_contents r =
     map Some (List.map_filter (\<lambda>i. accepted (parse_rb_sensor J E (mem i) (jc_array_idx J a i) W))
                 [0..<jc_array_length J a])"
proof -
  obtain a where a: "jc_get J (Some config) CONFIG_SENSORS_KEY = Some a"
    and loop: "parse_sensors_loop J E mem W a [0..<jc_array_length J a] (rb_array_fresh (jc_array_length J a)) = Inr r"
    using assms by (auto simp: parse_sensors_def Let_def rb_array_new_def obind_Inr_iff split: option.splits if_splits)
  from parse_sensors_loop_contents [OF rb_arr.wf_fresh _ loop] a show ?thesis
    by (simp add: rb_arr.contents_fresh rb_arr.capacity_fresh)
qed

text \<open>Every sensor of the array can be processed.\<close>

lemma parse_sensors_ok:
  assumes "parse_sensors J E mem_array mem W config = Inr (Some r)"
    and a: "jc_get J (Some config) CONFIG_SENSORS_KEY = Some a"
    and deps: "\<And>i. sm_deps (mem i)"
    and toks: "\<And>i s mons ms. i < jc_array_length J a \<Longrightarrow>
      parse_rb_sensor J E (mem i) (jc_array_idx J a i) W = Inr (Some s) \<Longrightarrow>
      sen_monitors s = Some mons \<Longrightarrow> rb_array_contents mons = map Some ms \<Longrightarrow> split_tokens_ok ms"
  shows "\<forall>s \<in> set (rb_array_contents r). \<exists>s'. s = Some s' \<and> sensor_ok E s'"
proof -
  have "sensor_ok E s" if "accepted (parse_rb_sensor J E (mem i) (jc_array_idx J a i) W) = Some s"
    and i: "i < jc_array_length J a" for i s
  proof -
    have "parse_rb_sensor J E (mem i) (jc_array_idx J a i) W = Inr (Some s)"
      using that(1) by (auto simp: accepted_def split: sum.splits)
    from parsed_sensor_ok [OF this deps toks [OF i this]] show ?thesis .
  qed
  then show ?thesis
    using parse_sensors_contents [OF assms(1)] a by (auto simp: List.map_filter_def)
qed

end
