(* ===== verification/Daemon.thy ===== *)
theory Daemon
  imports Workers Sensor
begin

text \<open>
  The running program: the threads of Workers with what their sensors hold. A worker that has the
  lock of a sensor makes its pass monitor by monitor, and between two monitors the other threads do
  what they like: they make passes over other sensors, open sessions through the shared worker
  information, hand messages to the same producers. Every pass is nevertheless as if it ran alone,
  and what a sensor holds and has sent is what some sequence of whole passes gives.
\<close>

section \<open>The state\<close>

text \<open>The local variables of \<open>process_monitors_array\<close> in a worker.\<close>

record running_pass =
  rp_index :: nat
  rp_current :: values_array
  rp_queue :: "rb_message_array tailq"
  rp_ctx :: process_ctx
  rp_worker :: worker_info

record 'j daemon =
  dm_sys :: sys
  dm_sensors :: "'j rb_sensor list"
  dm_passes :: "running_pass option list"      \<comment> \<open>one for each worker\<close>
  dm_worker :: worker_info
  dm_out :: "(nat \<times> produced) list"            \<comment> \<open>with the sensor it comes from\<close>
  dm_fault :: "fault option"

section \<open>A pass in pieces\<close>

text \<open>Up to the loop; a pass that cannot start is at its end at once.\<close>

definition start_pass ::
    "snmp_lib \<Rightarrow> pass_mem \<Rightarrow> worker_info \<Rightarrow> 'j rb_sensor \<Rightarrow> (worker_info \<times> running_pass) outcome" where
  "start_pass S PM W sensor =
     (case (sen_monitors sensor, sen_last_vals sensor) of
        (Some monitors, Some last_vals) \<Rightarrow>
          let (W', sess) = open_session S (pm_session PM) W (sen_snmp sensor);
              ctx = (if sess \<noteq> None \<and> pm_ctx PM then sess else None)
          in obind (copy_values (pm_current PM) (arr_count monitors) last_vals) (\<lambda>current.
             case (sess, current) of
               (Some (Some s), Some cur) \<Rightarrow>
                 Inr (W', \<lparr>rp_index = 0, rp_current = cur, rp_queue = [], rp_ctx = ctx, rp_worker = W'\<rparr>)
             | _ \<Rightarrow>
                 Inr (W', \<lparr>rp_index = arr_count monitors, rp_current = last_vals, rp_queue = [],
                           rp_ctx = ctx, rp_worker = W'\<rparr>))
      | _ \<Rightarrow> Inl Null_deref)"

text \<open>One turn of the loop: the sensor, the pass, and what went to the producers.\<close>

definition turn_pass ::
    "'j printing \<Rightarrow> 'f turn \<Rightarrow> 'j rb_sensor \<Rightarrow> running_pass
      \<Rightarrow> ('j rb_sensor \<times> running_pass \<times> produced list) outcome" where
  "turn_pass P T sensor rp =
     (case (sen_monitors sensor, sen_last_vals sensor) of
        (Some monitors, Some last_vals) \<Rightarrow>
          obind (process_monitor_i P (rp_worker rp) monitors (sen_op_vars sensor) (rp_ctx rp) T (rp_index rp)
                   \<lparr>ps_last = last_vals, ps_current = rp_current rp, ps_queue = rp_queue rp, ps_out = []\<rparr>) (\<lambda>st.
            Inr (sensor\<lparr>sen_last_vals := Some (ps_last st)\<rparr>,
                 rp\<lparr>rp_index := Suc (rp_index rp), rp_current := ps_current st, rp_queue := ps_queue st\<rparr>,
                 ps_out st))
      | _ \<Rightarrow> Inl Null_deref)"

definition pass_over :: "'j rb_sensor \<Rightarrow> running_pass \<Rightarrow> bool" where
  "pass_over sensor rp \<longleftrightarrow>
     (case sen_monitors sensor of None \<Rightarrow> True | Some monitors \<Rightarrow> arr_count monitors \<le> rp_index rp)"

section \<open>Steps\<close>

text \<open>Which workers make a pass, and over which sensor.\<close>

definition at_work :: "sys \<Rightarrow> nat option list" where
  "at_work st = map (\<lambda>pc. case pc of Processing s \<Rightarrow> Some s | _ \<Rightarrow> None) (workers st)"

text \<open>
  The threads move as in Workers; a pass begins with the lock and ends with its release. What the
  world answers in a turn is free, but for the expressions of the monitors, which \<open>E\<close> evaluates;
  the small allocation of the context succeeds.
\<close>

inductive daemon_step ::
    "nat \<Rightarrow> 'j printing \<Rightarrow> snmp_lib \<Rightarrow> 'f matheval \<Rightarrow> 'j daemon \<Rightarrow> 'j daemon \<Rightarrow> bool" for cap P S E where
  threads:
    "sys_step cap (dm_sys d) y \<Longrightarrow> at_work y = at_work (dm_sys d) \<Longrightarrow> daemon_step cap P S E d (d\<lparr>dm_sys := y\<rparr>)"
| begins:
    "w < length (workers (dm_sys d)) \<Longrightarrow> workers (dm_sys d) ! w = Popped s \<Longrightarrow>
       rb_sensor_trylock s (dm_sys d) = (y, True) \<Longrightarrow> pm_ctx PM \<Longrightarrow>
       start_pass S PM (dm_worker d) (dm_sensors d ! s) = Inr (W', rp) \<Longrightarrow>
       daemon_step cap P S E d
         (d\<lparr>dm_sys := at_worker w (Processing s) y, dm_passes := (dm_passes d)[w := Some rp], dm_worker := W'\<rparr>)"
| begins_fault:
    "w < length (workers (dm_sys d)) \<Longrightarrow> workers (dm_sys d) ! w = Popped s \<Longrightarrow>
       rb_sensor_trylock s (dm_sys d) = (y, True) \<Longrightarrow> pm_ctx PM \<Longrightarrow>
       start_pass S PM (dm_worker d) (dm_sensors d ! s) = Inl e \<Longrightarrow>
       daemon_step cap P S E d (d\<lparr>dm_fault := Some e\<rparr>)"
| turn:
    "w < length (workers (dm_sys d)) \<Longrightarrow> workers (dm_sys d) ! w = Processing s \<Longrightarrow>
       dm_passes d ! w = Some rp \<Longrightarrow> \<not> pass_over (dm_sensors d ! s) rp \<Longrightarrow> turn_ok E T \<Longrightarrow>
       turn_pass P T (dm_sensors d ! s) rp = Inr (sensor, rp', sent) \<Longrightarrow>
       daemon_step cap P S E d
         (d\<lparr>dm_sensors := (dm_sensors d)[s := sensor], dm_passes := (dm_passes d)[w := Some rp'],
            dm_out := dm_out d @ map (Pair s) sent\<rparr>)"
| turn_fault:
    "w < length (workers (dm_sys d)) \<Longrightarrow> workers (dm_sys d) ! w = Processing s \<Longrightarrow>
       dm_passes d ! w = Some rp \<Longrightarrow> \<not> pass_over (dm_sensors d ! s) rp \<Longrightarrow> turn_ok E T \<Longrightarrow>
       turn_pass P T (dm_sensors d ! s) rp = Inl e \<Longrightarrow>
       daemon_step cap P S E d (d\<lparr>dm_fault := Some e\<rparr>)"
| ends:
    "w < length (workers (dm_sys d)) \<Longrightarrow> workers (dm_sys d) ! w = Processing s \<Longrightarrow>
       dm_passes d ! w = Some rp \<Longrightarrow> pass_over (dm_sensors d ! s) rp \<Longrightarrow>
       daemon_step cap P S E d
         (d\<lparr>dm_sys := at_worker w (Unlocked s) (rb_sensor_unlock s (dm_sys d)),
            dm_passes := (dm_passes d)[w := None]\<rparr>)"

definition initial_daemon :: "worker_info \<Rightarrow> 'j rb_sensor list \<Rightarrow> nat \<Rightarrow> 'j daemon" where
  "initial_daemon W sensors n =
     \<lparr>dm_sys = initial_sys (length sensors) n, dm_sensors = sensors, dm_passes = replicate n None,
      dm_worker = W, dm_out = [], dm_fault = None\<rparr>"

inductive reachable_daemon ::
    "nat \<Rightarrow> 'j printing \<Rightarrow> snmp_lib \<Rightarrow> 'f matheval \<Rightarrow> worker_info \<Rightarrow> 'j rb_sensor list \<Rightarrow> nat \<Rightarrow> 'j daemon \<Rightarrow> bool"
    for cap P S E W sensors n where
  init: "reachable_daemon cap P S E W sensors n (initial_daemon W sensors n)"
| step: "reachable_daemon cap P S E W sensors n d \<Longrightarrow> daemon_step cap P S E d d' \<Longrightarrow>
           reachable_daemon cap P S E W sensors n d'"

section \<open>Whole passes\<close>

text \<open>A sequence of passes over one sensor, each alone, with everything they send.\<close>

fun serial ::
    "'j printing \<Rightarrow> snmp_lib \<Rightarrow> (pass_mem \<times> (nat \<Rightarrow> 'f turn) \<times> worker_info) list \<Rightarrow> 'j rb_sensor
      \<Rightarrow> ('j rb_sensor \<times> produced list) outcome" where
  "serial P S [] s = Inr (s, [])"
| "serial P S ((PM, turns, W) # ps) s =
     obind (process_rb_sensor P S PM turns W s [] []) (\<lambda>(s', r).
     obind (serial P S ps s') (\<lambda>(s'', out). Inr (s'', pr_out r @ out)))"

lemma serial_append:
  "serial P S (ps @ qs) s =
     obind (serial P S ps s) (\<lambda>(s', out). obind (serial P S qs s') (\<lambda>(s'', out'). Inr (s'', out @ out')))"
proof (induction ps arbitrary: s)
  case Nil
  show ?case by (simp add: obind_def split: sum.splits prod.splits)
next
  case (Cons p ps)
  obtain PM turns W where p: "p = (PM, turns, W)" by (cases p)
  show ?case
    by (simp add: p Cons obind_def split: sum.splits prod.splits)
qed


section \<open>Pieces of a pass against the whole\<close>

definition sensor_fits ::
    "'f matheval \<Rightarrow> 'j rb_sensor \<Rightarrow> 'j monitors_array \<Rightarrow> 'j rb_monitor list \<Rightarrow> nat list option list
      \<Rightarrow> monitor_value option list \<Rightarrow> bool" where
  "sensor_fits E s mons ms deps vals \<longleftrightarrow>
     sen_monitors s = Some mons \<and> rb_array_wf mons \<and> rb_array_contents mons = map Some ms
     \<and> split_tokens_ok ms \<and> sen_op_vars s = Some (stored_deps deps) \<and> deps_fit E ms deps
     \<and> sen_last_vals s = Some (filled vals) \<and> vals_ok ms deps vals"

lemma sensor_ok_fits: "sensor_ok E s \<longleftrightarrow> (\<exists>mons ms deps vals. sensor_fits E s mons ms deps vals)"
  by (simp add: sensor_ok_def sensor_fits_def)

lemma sensor_fitsD:
  assumes "sensor_fits E s mons ms deps vals"
  shows "arr_count mons = length ms" and "length vals = length ms" and "in_range (length ms) deps"
  using assms length_rb_array_contents [of mons] deps_fit_in_range [of E ms deps]
  by (auto simp: sensor_fits_def vals_ok_def)

lemma sensor_fits_vals:
  "sensor_fits E s mons ms deps vals \<Longrightarrow> vals_ok ms deps xs \<Longrightarrow>
     sensor_fits E (s\<lparr>sen_last_vals := Some (filled xs)\<rparr>) mons ms deps xs"
  by (simp add: sensor_fits_def)

lemma pass_step_shift:
  "pass_step P W ms deps ctx T i (vals, out) =
     obind (pass_step P W ms deps ctx T i (vals, [])) (\<lambda>(vals', sent). Inr (vals', out @ sent))"
  by (simp add: pass_step_def obind_def split: sum.splits option.splits prod.splits)

lemma pass_fold_snoc:
  "pass_fold P W ms deps ctx turns (is @ [i]) s =
     obind (pass_fold P W ms deps ctx turns is s) (pass_step P W ms deps ctx (turns i) i)"
proof (induction "is" arbitrary: s)
  case Nil
  show ?case by (cases "pass_step P W ms deps ctx (turns i) i s") simp_all
next
  case (Cons j js)
  then show ?case by (cases "pass_step P W ms deps ctx (turns j) j s") simp_all
qed

lemma pass_fold_turns:
  "\<forall>i \<in> set is. turns i = turns' i \<Longrightarrow>
     pass_fold P W ms deps ctx turns is s = pass_fold P W ms deps ctx turns' is s"
proof (induction "is" arbitrary: s)
  case (Cons j js)
  then show ?case by (cases "pass_step P W ms deps ctx (turns' j) j s") simp_all
qed simp

text \<open>
  A pass under way: it began on \<open>s0\<close>, the sensor is now \<open>s\<close> and \<open>sent\<close> went out. Whatever the turns to
  come will be, it is the beginning of the pass \<open>(PM, turns, W)\<close> over \<open>s0\<close>.
\<close>

definition under_way ::
    "'j printing \<Rightarrow> snmp_lib \<Rightarrow> 'f matheval \<Rightarrow> 'j rb_sensor \<Rightarrow> pass_mem \<Rightarrow> (nat \<Rightarrow> 'f turn) \<Rightarrow> worker_info
      \<Rightarrow> running_pass \<Rightarrow> 'j rb_sensor \<Rightarrow> produced list \<Rightarrow> bool" where
  "under_way P S E s0 PM turns W rp s sent \<longleftrightarrow> pm_ctx PM \<and>
     (\<exists>mons ms deps vals xs. sensor_fits E s0 mons ms deps vals
        \<and> vals_ok ms deps xs \<and> s = s0\<lparr>sen_last_vals := Some (filled xs)\<rparr>
        \<and> (case pass_session S PM W (sen_snmp s0) of
             None \<Rightarrow> xs = vals \<and> sent = [] \<and> rp_index rp = length ms
           | Some se \<Rightarrow> rp_index rp \<le> length ms \<and> rp_ctx rp = Some (Some se)
               \<and> rp_worker rp = fst (open_session S (pm_session PM) W (sen_snmp s0))
               \<and> rp_current rp = filled xs \<and> rp_queue rp = []
               \<and> pass_fold P (rp_worker rp) ms deps (Some (Some se)) turns [0..<rp_index rp] (vals, []) = Inr (xs, sent)))"

lemma under_way_ok: "under_way P S E s0 PM turns W rp s sent \<Longrightarrow> sensor_ok E s"
  unfolding under_way_def sensor_ok_fits using sensor_fits_vals by blast

lemma under_wayE:
  assumes "under_way P S E s0 PM turns W rp s sent"
  obtains mons ms deps vals xs where "pm_ctx PM" and "sensor_fits E s0 mons ms deps vals" and "vals_ok ms deps xs"
    and "s = s0\<lparr>sen_last_vals := Some (filled xs)\<rparr>"
    and "pass_session S PM W (sen_snmp s0) = None \<longrightarrow> xs = vals \<and> sent = [] \<and> rp_index rp = length ms"
    and "\<forall>se. pass_session S PM W (sen_snmp s0) = Some se \<longrightarrow>
        rp_index rp \<le> length ms \<and> rp_ctx rp = Some (Some se)
        \<and> rp_worker rp = fst (open_session S (pm_session PM) W (sen_snmp s0))
        \<and> rp_current rp = filled xs \<and> rp_queue rp = []
        \<and> pass_fold P (rp_worker rp) ms deps (Some (Some se)) turns [0..<rp_index rp] (vals, []) = Inr (xs, sent)"
  using assms unfolding under_way_def by (auto split: option.splits)

lemma start_pass_under_way:
  assumes "sensor_ok E s" and "pm_ctx PM"
  shows "\<exists>W' rp. start_pass S PM W s = Inr (W', rp) \<and> under_way P S E s PM turns W rp s []"
proof -
  obtain mons ms deps vals where fits: "sensor_fits E s mons ms deps vals"
    using assms(1) by (auto simp: sensor_ok_fits)
  note n = sensor_fitsD [OF fits]
  have same: "s\<lparr>sen_last_vals := Some (filled vals)\<rparr> = s" and "vals_ok ms deps vals"
    using fits by (simp_all add: sensor_fits_def)
  have copy: "copy_values m (length ms) (filled vals) = Inr (if m then Some (filled vals) else None)" for m
    using copy_values_filled [of m vals] n(2) by simp
  obtain W' o' where sess0: "open_session S (pm_session PM) W (sen_snmp s) = (W', o')" by fastforce
  have "\<exists>rp. start_pass S PM W s = Inr (W', rp)
      \<and> (case pass_session S PM W (sen_snmp s) of
           None \<Rightarrow> rp_index rp = length ms
         | Some se \<Rightarrow> rp_index rp = 0 \<and> rp_ctx rp = Some (Some se) \<and> rp_worker rp = W'
             \<and> rp_current rp = filled vals \<and> rp_queue rp = [])"
    using fits assms(2)
    by (auto simp: start_pass_def sensor_fits_def sess0 n(1) copy pass_session_def Let_def split: option.splits)
  then obtain rp where rp: "start_pass S PM W s = Inr (W', rp)"
    "case pass_session S PM W (sen_snmp s) of
       None \<Rightarrow> rp_index rp = length ms
     | Some se \<Rightarrow> rp_index rp = 0 \<and> rp_ctx rp = Some (Some se) \<and> rp_worker rp = W'
         \<and> rp_current rp = filled vals \<and> rp_queue rp = []" by blast
  have "under_way P S E s PM turns W rp s []"
    unfolding under_way_def
    using assms(2) fits same \<open>vals_ok ms deps vals\<close> rp(2)
    by (intro conjI exI [of _ mons] exI [of _ ms] exI [of _ deps] exI [of _ vals])
      (auto simp: sess0 split: option.splits)
  with rp(1) show ?thesis by blast
qed

lemma turn_pass_under_way:
  assumes way: "under_way P S E s0 PM turns W rp s sent" and more: "\<not> pass_over s rp"
    and T: "turn_ok E T" and "layout_ok (pr_layout P)" and "prints_short E"
  shows "\<exists>s' rp' now_sent. turn_pass P T s rp = Inr (s', rp', now_sent)
           \<and> under_way P S E s0 PM (turns(rp_index rp := T)) W rp' s' (sent @ now_sent)"
proof -
  from way obtain mons ms deps vals xs where ctx: "pm_ctx PM" and fits: "sensor_fits E s0 mons ms deps vals"
    and xs: "vals_ok ms deps xs" and s: "s = s0\<lparr>sen_last_vals := Some (filled xs)\<rparr>"
    and none: "pass_session S PM W (sen_snmp s0) = None \<longrightarrow> xs = vals \<and> sent = [] \<and> rp_index rp = length ms"
    and some: "\<forall>se. pass_session S PM W (sen_snmp s0) = Some se \<longrightarrow>
        rp_index rp \<le> length ms \<and> rp_ctx rp = Some (Some se)
        \<and> rp_worker rp = fst (open_session S (pm_session PM) W (sen_snmp s0))
        \<and> rp_current rp = filled xs \<and> rp_queue rp = []
        \<and> pass_fold P (rp_worker rp) ms deps (Some (Some se)) turns [0..<rp_index rp] (vals, []) = Inr (xs, sent)"
    by (rule under_wayE)
  note n = sensor_fitsD [OF fits]
  have mons: "sen_monitors s = Some mons" using fits s by (simp add: sensor_fits_def)
  then have i: "rp_index rp < length ms" using more n(1) by (simp add: pass_over_def)
  then obtain se where sess: "pass_session S PM W (sen_snmp s0) = Some se" and
    r: "rp_ctx rp = Some (Some se)" "rp_worker rp = fst (open_session S (pm_session PM) W (sen_snmp s0))"
      "rp_current rp = filled xs" "rp_queue rp = []"
      "pass_fold P (rp_worker rp) ms deps (Some (Some se)) turns [0..<rp_index rp] (vals, []) = Inr (xs, sent)"
    using none some by (cases "pass_session S PM W (sen_snmp s0)") auto
  have len: "length xs = length ms" using xs by (simp add: vals_ok_def)
  obtain ys now_sent where step: "pass_step P (rp_worker rp) ms deps (Some (Some se)) T (rp_index rp) (xs, []) = Inr (ys, now_sent)"
    and ys: "vals_ok ms deps ys"
    using pass_step_ok [of ms deps "(xs, [])" E "rp_index rp" T P "rp_worker rp" se] xs fits i T assms(4,5)
    by (auto simp: sensor_fits_def)
  have "process_monitor_i P (rp_worker rp) mons (Some (stored_deps deps)) (Some (Some se)) T (rp_index rp) (pass_state (xs, []))
      = Inr (pass_state (ys, now_sent))"
    using fits len i step by (subst process_monitor_i_refines [OF _ _ n(3)]) (auto simp: sensor_fits_def)
  moreover have "pass_state (xs, []) = \<lparr>ps_last = filled xs, ps_current = rp_current rp, ps_queue = rp_queue rp, ps_out = []\<rparr>"
    by (simp add: pass_state_def r)
  ultimately have turn: "turn_pass P T s rp = Inr (s0\<lparr>sen_last_vals := Some (filled ys)\<rparr>,
      rp\<lparr>rp_index := Suc (rp_index rp), rp_current := filled ys, rp_queue := []\<rparr>, now_sent)"
    using fits r(1) by (simp add: turn_pass_def s sensor_fits_def pass_state_def)
  let ?turns = "turns(rp_index rp := T)"
  have "pass_fold P (rp_worker rp) ms deps (Some (Some se)) ?turns [0..<rp_index rp] (vals, []) = Inr (xs, sent)"
    by (rule trans [OF pass_fold_turns r(5)]) simp
  then have "pass_fold P (rp_worker rp) ms deps (Some (Some se)) ?turns [0..<Suc (rp_index rp)] (vals, [])
      = Inr (ys, sent @ now_sent)"
    using pass_step_shift [of P "rp_worker rp" ms deps "Some (Some se)" T "rp_index rp" xs sent]
    by (simp add: pass_fold_snoc step)
  then have "under_way P S E s0 PM ?turns W (rp\<lparr>rp_index := Suc (rp_index rp), rp_current := filled ys, rp_queue := []\<rparr>)
      (s0\<lparr>sen_last_vals := Some (filled ys)\<rparr>) (sent @ now_sent)"
    unfolding under_way_def
    using ctx fits ys sess r i
    by (intro conjI exI [of _ mons] exI [of _ ms] exI [of _ deps] exI [of _ vals] exI [of _ ys]) simp_all
  with turn show ?thesis by blast
qed

lemma under_way_over:
  assumes way: "under_way P S E s0 PM turns W rp s sent" and over: "pass_over s rp"
  shows "\<exists>r. process_rb_sensor P S PM turns W s0 [] [] = Inr (s, r) \<and> pr_out r = sent"
proof -
  from way obtain mons ms deps vals xs where ctx: "pm_ctx PM" and fits: "sensor_fits E s0 mons ms deps vals"
    and xs: "vals_ok ms deps xs" and s: "s = s0\<lparr>sen_last_vals := Some (filled xs)\<rparr>"
    and none: "pass_session S PM W (sen_snmp s0) = None \<longrightarrow> xs = vals \<and> sent = [] \<and> rp_index rp = length ms"
    and some: "\<forall>se. pass_session S PM W (sen_snmp s0) = Some se \<longrightarrow>
        rp_index rp \<le> length ms \<and> rp_ctx rp = Some (Some se)
        \<and> rp_worker rp = fst (open_session S (pm_session PM) W (sen_snmp s0))
        \<and> rp_current rp = filled xs \<and> rp_queue rp = []
        \<and> pass_fold P (rp_worker rp) ms deps (Some (Some se)) turns [0..<rp_index rp] (vals, []) = Inr (xs, sent)"
    by (rule under_wayE)
  note n = sensor_fitsD [OF fits]
  have f: "sen_monitors s0 = Some mons" "rb_array_wf mons" "rb_array_contents mons = map Some ms"
    "sen_op_vars s0 = Some (stored_deps deps)" "sen_last_vals s0 = Some (filled vals)"
    using fits by (simp_all add: sensor_fits_def)
  show ?thesis
  proof (cases "pass_session S PM W (sen_snmp s0)")
    case None
    then have "process_monitors_array P S PM turns W mons (filled vals) (sen_op_vars s0) (sen_snmp s0) [] [] =
        Inr \<lparr>pr_aok = False, pr_worker = fst (open_session S (pm_session PM) W (sen_snmp s0)),
             pr_last = filled vals, pr_queue = [], pr_out = []\<rparr>"
      by (rule process_monitors_array_no_session) (simp add: n)
    with none [rule_format, OF None] f s show ?thesis by (simp add: process_rb_sensor_def)
  next
    case (Some se)
    note run = some [rule_format, OF Some]
    have i: "rp_index rp = length ms" using over f(1) s n(1) run by (simp add: pass_over_def)
    from run have fold: "pass_fold P (fst (open_session S (pm_session PM) W (sen_snmp s0))) ms deps (Some (Some se))
        turns [0..<length ms] (vals, []) = Inr (xs, sent)" unfolding i by metis
    have "process_monitors_array P S PM turns W mons (filled vals) (sen_op_vars s0) (sen_snmp s0) [] [] =
        Inr (pass_finished (fst (open_session S (pm_session PM) W (sen_snmp s0))) (xs, sent))"
      unfolding f(4) process_monitors_array_eq [OF f(2,3) n(3,2) Some] using fold ctx by simp
    with f s show ?thesis by (simp add: process_rb_sensor_def pass_finished_def)
  qed
qed


section \<open>The invariant\<close>

definition outs_of :: "nat \<Rightarrow> 'j daemon \<Rightarrow> produced list" where
  "outs_of s d = map snd (filter (\<lambda>m. fst m = s) (dm_out d))"

text \<open>A sensor nobody works on: whole passes led to it.\<close>

definition at_rest ::
    "'j printing \<Rightarrow> snmp_lib \<Rightarrow> 'f matheval \<Rightarrow> 'j rb_sensor \<Rightarrow> 'j rb_sensor \<Rightarrow> produced list \<Rightarrow> bool" where
  "at_rest P S E s0 s out \<longleftrightarrow>
     sensor_ok E s \<and> (\<exists>ps :: (pass_mem \<times> (nat \<Rightarrow> 'f turn) \<times> worker_info) list. serial P S ps s0 = Inr (s, out))"

text \<open>One under work: whole passes, then the beginning of one.\<close>

definition in_pass ::
    "'j printing \<Rightarrow> snmp_lib \<Rightarrow> 'f matheval \<Rightarrow> 'j rb_sensor \<Rightarrow> running_pass option \<Rightarrow> 'j rb_sensor
      \<Rightarrow> produced list \<Rightarrow> bool" where
  "in_pass P S E s0 p s out \<longleftrightarrow>
     (\<exists>rp (ps :: (pass_mem \<times> (nat \<Rightarrow> 'f turn) \<times> worker_info) list) s1 out1 PM turns W sent.
        p = Some rp \<and> serial P S ps s0 = Inr (s1, out1) \<and> under_way P S E s1 PM turns W rp s sent
        \<and> out = out1 @ sent)"

definition daemon_inv ::
    "nat \<Rightarrow> 'j printing \<Rightarrow> snmp_lib \<Rightarrow> 'f matheval \<Rightarrow> 'j rb_sensor list \<Rightarrow> nat \<Rightarrow> 'j daemon \<Rightarrow> bool" where
  "daemon_inv cap P S E init n d \<longleftrightarrow>
     sys_inv cap (length init) n (dm_sys d) \<and> length (dm_sensors d) = length init
     \<and> length (dm_passes d) = n \<and> dm_fault d = None
     \<and> (\<forall>s < length init. Some s \<notin> set (at_work (dm_sys d)) \<longrightarrow>
          at_rest P S E (init ! s) (dm_sensors d ! s) (outs_of s d))
     \<and> (\<forall>w < n. \<forall>s. at_work (dm_sys d) ! w = Some s \<longrightarrow>
          in_pass P S E (init ! s) (dm_passes d ! w) (dm_sensors d ! s) (outs_of s d))"

lemma at_work_length [simp]: "length (at_work st) = length (workers st)"
  by (simp add: at_work_def)

lemma at_work_nth: "w < length (workers st) \<Longrightarrow> at_work st ! w = Some s \<longleftrightarrow> workers st ! w = Processing s"
  by (auto simp: at_work_def split: worker_pc.splits)

lemma at_work_update:
  "at_work (at_worker w pc st) = (at_work st)[w := (case pc of Processing s \<Rightarrow> Some s | _ \<Rightarrow> None)]"
  by (simp add: at_work_def map_update)

lemma at_work_cells [simp]: "at_work (set_cell s f st) = at_work st" "at_work (touch s st) = at_work st"
  by (simp_all add: at_work_def touch_def)

lemma some_at_work:
  "Some s \<in> set (at_work st) \<longleftrightarrow> (\<exists>w < length (workers st). workers st ! w = Processing s)"
  by (auto simp: in_set_conv_nth at_work_nth)

text \<open>What the invariant of the threads says about who works.\<close>

lemma free_lock_at_rest:
  assumes inv: "sys_inv cap k n st" and s: "s < k" and "rb_sensor_trylock s st = (y, True)"
  shows "Some s \<notin> set (at_work st)"
proof -
  have "\<not> locked (cells st ! s)" using assms(3) by (auto simp: rb_sensor_trylock_def split: if_splits)
  then have "tally (holds_lock s) (workers st) = 0" using inv s by (simp add: sys_inv_def)
  then have "\<not> holds_lock s pc" if "pc \<in> set (workers st)" for pc
    using that by (auto simp: tally_def filter_empty_conv)
  then show ?thesis unfolding some_at_work using nth_mem by fastforce
qed

lemma one_at_work:
  assumes "sys_inv cap k n st" and "v < length (workers st)" and "w < length (workers st)"
    and "at_work st ! v = Some s" and "at_work st ! w = Some s"
  shows "v = w"
  using sys_inv_one_lock [OF assms(1-3)] assms(2-5) by (simp add: at_work_nth)

lemma at_work_sensor:
  "sys_inv cap k n st \<Longrightarrow> w < length (workers st) \<Longrightarrow> at_work st ! w = Some s \<Longrightarrow> s < k"
  using sys_inv_holder [of cap k n st w s] by (simp add: at_work_nth)

lemma outs_of_tagged:
  "outs_of t (d\<lparr>dm_out := dm_out d @ map (Pair s) sent\<rparr>) = outs_of t d @ (if t = s then sent else [])"
  by (induction sent) (auto simp: outs_of_def)

lemma daemon_inv_initial:
  assumes "\<forall>s \<in> set init. sensor_ok E s"
  shows "daemon_inv cap P S E init n (initial_daemon W init n)"
proof -
  have "at_work (initial_sys k n) = replicate n None" for k
    by (simp add: at_work_def initial_sys_def)
  moreover have "at_rest P S E s s []" if "s \<in> set init" for s
    unfolding at_rest_def using assms that by (intro conjI exI [of _ "[]"]) simp_all
  ultimately show ?thesis
    by (simp add: daemon_inv_def initial_daemon_def sys_inv_initial outs_of_def)
qed


lemma daemon_invD:
  assumes "daemon_inv cap P S E init n d"
  shows "sys_inv cap (length init) n (dm_sys d)" and "length (workers (dm_sys d)) = n"
    and "length (dm_sensors d) = length init" and "length (dm_passes d) = n" and "dm_fault d = None"
    and "\<And>s. s < length init \<Longrightarrow> Some s \<notin> set (at_work (dm_sys d)) \<Longrightarrow>
           at_rest P S E (init ! s) (dm_sensors d ! s) (outs_of s d)"
    and "\<And>w s. w < n \<Longrightarrow> at_work (dm_sys d) ! w = Some s \<Longrightarrow>
           in_pass P S E (init ! s) (dm_passes d ! w) (dm_sensors d ! s) (outs_of s d)"
  using assms by (simp_all add: daemon_inv_def sys_inv_def)

text \<open>A move of one worker that touches its own pass and its own sensor only.\<close>

lemma daemon_inv_move:
  assumes inv: "daemon_inv cap P S E init n d" and w: "w < n" and s: "s < length init"
    and mine: "\<And>v. v < n \<Longrightarrow> at_work (dm_sys d) ! v = Some s \<Longrightarrow> v = w"
    and own: "at_work (dm_sys d) ! w = Some s \<or> at_work (dm_sys d) ! w = None"
    and sys: "sys_inv cap (length init) n y" "at_work y = (at_work (dm_sys d))[w := a]" "a = None \<or> a = Some s"
    and new: "a = None \<Longrightarrow> at_rest P S E (init ! s) sensor (outs_of s d @ sent)"
      "a = Some s \<Longrightarrow> in_pass P S E (init ! s) p sensor (outs_of s d @ sent)"
  shows "daemon_inv cap P S E init n
    (d\<lparr>dm_sys := y, dm_sensors := (dm_sensors d)[s := sensor], dm_passes := (dm_passes d)[w := p],
       dm_worker := W', dm_out := dm_out d @ map (Pair s) sent\<rparr>)" (is "daemon_inv cap P S E init n ?d")
proof -
  note D = daemon_invD [OF inv]
  have out: "outs_of t ?d = outs_of t d @ (if t = s then sent else [])" for t
    using outs_of_tagged [of t d s sent] by (simp add: outs_of_def)
  have len: "length (at_work (dm_sys d)) = n" by (simp add: D(2))
  have "at_rest P S E (init ! t) (dm_sensors ?d ! t) (outs_of t ?d)"
    if t: "t < length init" "Some t \<notin> set (at_work y)" for t
  proof (cases "t = s")
    case True
    with t have "a = None" using sys(2,3) w len by (auto simp: set_update_memI)
    with new(1) True s D(3) show ?thesis by (simp add: out)
  next
    case False
    have "Some t \<notin> set (at_work (dm_sys d))"
    proof
      assume "Some t \<in> set (at_work (dm_sys d))"
      then obtain v where v: "v < n" "at_work (dm_sys d) ! v = Some t" by (auto simp: in_set_conv_nth D(2))
      then have "v \<noteq> w" using own False by auto
      then have "at_work y ! v = Some t" using v sys(2) by simp
      then show False using t(2) v(1) len sys(2) by (metis length_list_update nth_mem)
    qed
    with D(6) [OF t(1)] False show ?thesis by (simp add: out)
  qed
  moreover have "in_pass P S E (init ! t) (dm_passes ?d ! v) (dm_sensors ?d ! t) (outs_of t ?d)"
    if v: "v < n" "at_work y ! v = Some t" for v t
  proof (cases "v = w")
    case True
    with v sys(2) w len have "a = Some t" by simp
    with sys(3) have "t = s" "a = Some s" by auto
    with new(2) True s D(3,4) w show ?thesis by (simp add: out)
  next
    case False
    with v sys(2) have "at_work (dm_sys d) ! v = Some t" by simp
    with mine [OF v(1)] False have "t \<noteq> s" by auto
    with D(7) [OF v(1) \<open>at_work (dm_sys d) ! v = Some t\<close>] False show ?thesis by (simp add: out)
  qed
  ultimately show ?thesis using D sys(1) by (simp add: daemon_inv_def)
qed

lemma daemon_inv_step:
  fixes E :: "'f matheval"
  assumes inv: "daemon_inv cap P S E init n d" and step: "daemon_step cap P S E d d'"
    and small: "cap + n + 2 < 2 ^ 32" and lay: "layout_ok (pr_layout P)" and short: "prints_short E"
  shows "daemon_inv cap P S E init n d'"
  using step
proof cases
  case (threads y)
  then have "sys_inv cap (length init) n y" using sys_inv_step [OF daemon_invD(1) [OF inv] _ small] by blast
  with threads inv show ?thesis by (simp add: daemon_inv_def outs_of_def)
next
  case (begins w s y PM W' rp)
  note D = daemon_invD [OF inv]
  have w: "w < n" using begins(2) D(2) by simp
  have s: "s < length init" using sys_inv_holder [OF D(1) begins(2)] begins(3) by simp
  have free: "Some s \<notin> set (at_work (dm_sys d))" by (rule free_lock_at_rest [OF D(1) s begins(4)])
  have "sys_step cap (dm_sys d) (at_worker w (Processing s) y)"
    using sys_step.trylock [OF begins(2,3,4)] by simp
  then have y: "sys_inv cap (length init) n (at_worker w (Processing s) y)" by (rule sys_inv_step [OF D(1) _ small])
  have "at_work y = at_work (dm_sys d)"
    using begins(4) by (auto simp: rb_sensor_trylock_def split: if_splits)
  then have work: "at_work (at_worker w (Processing s) y) = (at_work (dm_sys d))[w := Some s]"
    by (simp add: at_work_update)
  have rest: "at_rest P S E (init ! s) (dm_sensors d ! s) (outs_of s d)" by (rule D(6) [OF s free])
  then obtain ps :: "(pass_mem \<times> (nat \<Rightarrow> 'f turn) \<times> worker_info) list" where
    ok: "sensor_ok E (dm_sensors d ! s)" and ps: "serial P S ps (init ! s) = Inr (dm_sensors d ! s, outs_of s d)"
    unfolding at_rest_def by blast
  have "under_way P S E (dm_sensors d ! s) PM turns (dm_worker d) rp (dm_sensors d ! s) []" for turns :: "nat \<Rightarrow> 'f turn"
    using start_pass_under_way [OF ok begins(5), of S "dm_worker d" P turns] begins(6) by auto
  then have "in_pass P S E (init ! s) (Some rp) (dm_sensors d ! s) (outs_of s d @ [])"
    unfolding in_pass_def using ps by blast
  moreover have "v = w" if "v < n" "at_work (dm_sys d) ! v = Some s" for v
    using free that by (metis D(2) at_work_length nth_mem)
  moreover have "at_work (dm_sys d) ! w = None" using begins(2,3) by (simp add: at_work_def)
  ultimately show ?thesis
    using daemon_inv_move [OF inv w s _ _ y work, of "dm_sensors d ! s" "[]" "Some rp" W'] begins(1) by simp
next
  case (begins_fault w s y PM e)
  note D = daemon_invD [OF inv]
  have s: "s < length init" using sys_inv_holder [OF D(1) begins_fault(2)] begins_fault(3) by simp
  have free: "Some s \<notin> set (at_work (dm_sys d))" by (rule free_lock_at_rest [OF D(1) s begins_fault(4)])
  have "sensor_ok E (dm_sensors d ! s)" using D(6) [OF s free] by (simp add: at_rest_def)
  from start_pass_under_way [OF this begins_fault(5), of S "dm_worker d"] begins_fault(6) show ?thesis by auto
next
  case (turn w s rp T sensor rp' sent)
  note D = daemon_invD [OF inv]
  have w: "w < n" using turn(2) D(2) by simp
  have work: "at_work (dm_sys d) ! w = Some s" using at_work_nth [OF turn(2)] turn(3) by simp
  have s: "s < length init" by (rule at_work_sensor [OF D(1) turn(2) work])
  from D(7) [OF w work] turn(4) obtain ps :: "(pass_mem \<times> (nat \<Rightarrow> 'f turn) \<times> worker_info) list" and s1 out1 PM turns W before
    where p: "serial P S ps (init ! s) = Inr (s1, out1)" "under_way P S E s1 PM turns W rp (dm_sensors d ! s) before"
      "outs_of s d = out1 @ before"
    unfolding in_pass_def by auto
  from turn_pass_under_way [OF p(2) turn(5,6) lay short] turn(7)
  have "under_way P S E s1 PM (turns(rp_index rp := T)) W rp' sensor (before @ sent)" by simp
  then have "in_pass P S E (init ! s) (Some rp') sensor (outs_of s d @ sent)"
    unfolding in_pass_def using p by (metis append.assoc)
  moreover have "(at_work (dm_sys d))[w := Some s] = at_work (dm_sys d)" by (metis list_update_id work)
  ultimately have "daemon_inv cap P S E init n
      (d\<lparr>dm_sys := dm_sys d, dm_sensors := (dm_sensors d)[s := sensor], dm_passes := (dm_passes d)[w := Some rp'],
         dm_worker := dm_worker d, dm_out := dm_out d @ map (Pair s) sent\<rparr>)"
    using work one_at_work [OF D(1) _ turn(2) _ work]
    by (intro daemon_inv_move [OF inv w s, where a = "Some s"] D(1)) (simp_all add: D(2))
  then show ?thesis using turn(1) by simp
next
  case (turn_fault w s rp T e)
  note D = daemon_invD [OF inv]
  have w: "w < n" using turn_fault(2) D(2) by simp
  have work: "at_work (dm_sys d) ! w = Some s" using at_work_nth [OF turn_fault(2)] turn_fault(3) by simp
  from D(7) [OF w work] turn_fault(4) obtain s1 PM W before and turns :: "nat \<Rightarrow> 'f turn" where
    "under_way P S E s1 PM turns W rp (dm_sensors d ! s) before"
    unfolding in_pass_def by auto
  from turn_pass_under_way [OF this turn_fault(5,6) lay short] turn_fault(7) show ?thesis by simp
next
  case (ends w s rp)
  note D = daemon_invD [OF inv]
  have w: "w < n" using ends(2) D(2) by simp
  have work: "at_work (dm_sys d) ! w = Some s" using at_work_nth [OF ends(2)] ends(3) by simp
  have s: "s < length init" by (rule at_work_sensor [OF D(1) ends(2) work])
  from D(7) [OF w work] ends(4) obtain ps :: "(pass_mem \<times> (nat \<Rightarrow> 'f turn) \<times> worker_info) list" and s1 out1 PM turns W before
    where p: "serial P S ps (init ! s) = Inr (s1, out1)" "under_way P S E s1 PM turns W rp (dm_sensors d ! s) before"
      "outs_of s d = out1 @ before"
    unfolding in_pass_def by auto
  from under_way_over [OF p(2) ends(5)] obtain r where
    "process_rb_sensor P S PM turns W s1 [] [] = Inr (dm_sensors d ! s, r)" "pr_out r = before" by blast
  then have "serial P S (ps @ [(PM, turns, W)]) (init ! s) = Inr (dm_sensors d ! s, outs_of s d)"
    using p(1,3) by (simp add: serial_append)
  then have rest: "at_rest P S E (init ! s) (dm_sensors d ! s) (outs_of s d @ [])"
    unfolding at_rest_def using under_way_ok [OF p(2)] by auto
  let ?y = "at_worker w (Unlocked s) (rb_sensor_unlock s (dm_sys d))"
  have y: "sys_inv cap (length init) n ?y"
    by (rule sys_inv_step [OF D(1) sys_step.unlock [OF ends(2,3)] small])
  have "at_work ?y = (at_work (dm_sys d))[w := None]"
    by (simp add: at_work_update rb_sensor_unlock_def)
  from daemon_inv_move [OF inv w s _ _ y this, of "dm_sensors d ! s" "[]" None "dm_worker d"] rest
    one_at_work [OF D(1) _ ends(2) _ work] work
  show ?thesis using ends(1) by (simp add: D(2))
qed

lemma daemon_inv_reachable:
  assumes "reachable_daemon cap P S E W init n d" and "\<forall>s \<in> set init. sensor_ok E s"
    and "cap + n + 2 < 2 ^ 32" and "layout_ok (pr_layout P)" and "prints_short E"
  shows "daemon_inv cap P S E init n d"
  using assms(1)
proof induction
  case init
  show ?case by (rule daemon_inv_initial [OF assms(2)])
next
  case (step d d')
  then show ?case using daemon_inv_step assms(3-5) by blast
qed


section \<open>What every run keeps\<close>

text \<open>The threads of the running program are the threads of Workers.\<close>

lemma daemon_threads:
  assumes "reachable_daemon cap P S E W init n d"
  shows "reachable_sys cap (length init) n (dm_sys d)"
  using assms
proof induction
  case init
  show ?case by (simp add: initial_daemon_def reachable_sys.init)
next
  case (step d d')
  from step.hyps(2) show ?case
  proof cases
    case (begins w s y PM W' rp)
    then show ?thesis using reachable_sys.step [OF step.IH sys_step.trylock] by fastforce
  next
    case (ends w s rp)
    then show ?thesis using reachable_sys.step [OF step.IH sys_step.unlock] by simp
  qed (use step.IH in \<open>auto intro: reachable_sys.step\<close>)
qed

lemma at_rest_serial:
  assumes run: "reachable_daemon cap P S E W init n d" and ok: "\<forall>s \<in> set init. sensor_ok E s"
    and small: "cap + n + 2 < 2 ^ 32" and lay: "layout_ok (pr_layout P)" and short: "prints_short E"
  shows "dm_fault d = None
     \<and> (\<forall>s < length init. (\<forall>w < n. workers (dm_sys d) ! w \<noteq> Processing s) \<longrightarrow>
          at_rest P S E (init ! s) (dm_sensors d ! s) (outs_of s d))"
proof -
  note D = daemon_invD [OF daemon_inv_reachable [OF assms]]
  have "Some s \<notin> set (at_work (dm_sys d))" if "\<forall>w < n. workers (dm_sys d) ! w \<noteq> Processing s" for s
    using that by (auto simp: some_at_work D(2))
  then show ?thesis using D(5,6) by blast
qed

text \<open>The configuration of a sensor never changes, and its values keep their kinds, even within a pass.\<close>

lemma process_rb_sensor_keeps:
  "process_rb_sensor P S PM turns W s ret out = Inr (s', r) \<Longrightarrow> \<exists>v. s' = s\<lparr>sen_last_vals := v\<rparr>"
  by (auto simp: process_rb_sensor_def obind_Inr_iff split: option.splits)

lemma serial_keeps: "serial P S ps s = Inr (s', out) \<Longrightarrow> \<exists>v. s' = s\<lparr>sen_last_vals := v\<rparr>"
proof (induction ps arbitrary: s out)
  case Nil
  then show ?case by (intro exI [of _ "sen_last_vals s"]) simp
next
  case (Cons p ps)
  obtain PM turns W where p: "p = (PM, turns, W)" by (cases p)
  from Cons.prems p obtain s1 r out1 where one: "process_rb_sensor P S PM turns W s [] [] = Inr (s1, r)"
    and rest: "serial P S ps s1 = Inr (s', out1)"
    by (auto simp: obind_Inr_iff)
  from process_rb_sensor_keeps [OF one] Cons.IH [OF rest] show ?case by auto
qed

lemma sensor_always_fits:
  fixes E :: "'f matheval"
  assumes run: "reachable_daemon cap P S E W init n d" and ok: "\<forall>s \<in> set init. sensor_ok E s"
    and small: "cap + n + 2 < 2 ^ 32" and lay: "layout_ok (pr_layout P)" and short: "prints_short E"
    and s: "s < length init"
  shows "sensor_ok E (dm_sensors d ! s) \<and> (\<exists>v. dm_sensors d ! s = (init ! s)\<lparr>sen_last_vals := v\<rparr>)"
proof -
  note D = daemon_invD [OF daemon_inv_reachable [OF assms(1-5)]]
  show ?thesis
  proof (cases "Some s \<in> set (at_work (dm_sys d))")
    case False
    from D(6) [OF s this] show ?thesis using serial_keeps by (fastforce simp: at_rest_def)
  next
    case True
    then obtain w where "w < n" "at_work (dm_sys d) ! w = Some s" by (auto simp: in_set_conv_nth D(2))
    from D(7) [OF this] obtain rp s1 out1 PM W sent
      and ps :: "(pass_mem \<times> (nat \<Rightarrow> 'f turn) \<times> worker_info) list" and turns :: "nat \<Rightarrow> 'f turn"
      where "serial P S ps (init ! s) = Inr (s1, out1)"
      and way: "under_way P S E s1 PM turns W rp (dm_sensors d ! s) sent"
      unfolding in_pass_def by auto
    then have one: "\<exists>v. s1 = (init ! s)\<lparr>sen_last_vals := v\<rparr>" using serial_keeps by blast
    from way obtain x where "dm_sensors d ! s = s1\<lparr>sen_last_vals := x\<rparr>"
      by (auto elim: under_wayE)
    with one have "\<exists>v. dm_sensors d ! s = (init ! s)\<lparr>sen_last_vals := v\<rparr>" by auto
    with under_way_ok [OF way] show ?thesis by (rule conjI)
  qed
qed

lemma sensor_ok_kinds:
  assumes "sensor_ok E s" and mons: "sen_monitors s = Some mons" "rb_array_contents mons = map Some ms"
    and i: "i < length ms" "mon_type (ms ! i) \<noteq> RB_MONITOR_T__OP"
    and v: "sen_last_vals s = Some a" "elms a ! i = Some mv"
  shows "value_wf mv \<and> (is_value mv \<longleftrightarrow> mon_splittok (ms ! i) = None)"
proof -
  from assms obtain deps vals where "vals_ok ms deps vals" "a = filled vals"
    by (auto simp: sensor_ok_def inj_map_eq_map)
  with i v(2) show ?thesis by (auto simp: vals_ok_def kind_fits_def)
qed


section \<open>Passes begin and end\<close>

lemma reachable_daemon_trans:
  "(daemon_step cap P S E)\<^sup>*\<^sup>* d d' \<Longrightarrow> reachable_daemon cap P S E W init n d \<Longrightarrow>
     reachable_daemon cap P S E W init n d'"
  by (induction rule: rtranclp_induct) (auto intro: reachable_daemon.step)

text \<open>The first sensor gets to the first worker.\<close>

lemma first_pass_begins:
  fixes PM :: pass_mem
  assumes ok: "sensor_ok E (init ! 0)" and "0 < length init" "0 < n" "0 < cap" and "pm_ctx PM"
  shows "\<exists>d. reachable_daemon cap P S E W init n d \<and> workers (dm_sys d) ! 0 = Processing 0
           \<and> (\<forall>v. 0 < v \<longrightarrow> v < n \<longrightarrow> workers (dm_sys d) ! v = Waiting)
           \<and> dm_sensors d = init \<and> dm_out d = []"
proof -
  define s1 where "s1 = (rb_sensor_get 0 (initial_sys (length init) n))\<lparr>main_at := Main_got 0\<rparr>"
  define s2 where "s2 = s1\<lparr>queue := queue s1 @ [0], main_at := Main_next 1\<rparr>"
  define s3 where "s3 = at_worker 0 (Popped 0) (s2\<lparr>queue := []\<rparr>)"
  note defs = s1_def s2_def s3_def rb_sensor_get_def touch_def initial_sys_def
  let ?d = "\<lambda>st. (initial_daemon W init n)\<lparr>dm_sys := st\<rparr>"
  have none: "at_work (initial_sys (length init) n) = replicate n None"
    by (simp add: at_work_def initial_sys_def)
  have a: "sys_step cap (initial_sys (length init) n) s1"
    unfolding s1_def by (rule sys_step.main_get) (use assms in \<open>simp_all add: initial_sys_def\<close>)
  have b: "sys_step cap s1 s2"
    using sys_step.main_queue [of s1 0 cap] assms(4) by (simp add: defs)
  have c: "sys_step cap s2 s3"
    unfolding s3_def by (rule sys_step.pop) (use assms in \<open>simp_all add: defs\<close>)
  have work: "at_work s1 = replicate n None" "at_work s2 = replicate n None" "at_work s3 = replicate n None"
    using assms(3) by (cases n; simp add: defs at_work_def)+
  have step: "reachable_daemon cap P S E W init n (?d y)"
    if "reachable_daemon cap P S E W init n (?d x)" "sys_step cap x y" "at_work y = at_work x" for x y
    using reachable_daemon.step [OF that(1) daemon_step.threads [of cap "?d x" y]] that(2,3) by simp
  have "?d (initial_sys (length init) n) = initial_daemon W init n" by (simp add: initial_daemon_def)
  then have "reachable_daemon cap P S E W init n (?d (initial_sys (length init) n))"
    by (metis reachable_daemon.init)
  then have r3: "reachable_daemon cap P S E W init n (?d s3)"
    using step a b c work none by metis
  obtain W' rp where st: "start_pass S PM W (init ! 0) = Inr (W', rp)"
    using start_pass_under_way [OF ok assms(5)] by blast
  have lock: "rb_sensor_trylock 0 s3 = (fst (rb_sensor_trylock 0 s3), True)"
    using assms(2) by (simp add: defs rb_sensor_trylock_def)
  have w3: "workers s3 ! 0 = Popped 0" "0 < length (workers s3)" "\<forall>v. 0 < v \<longrightarrow> v < n \<longrightarrow> workers s3 ! v = Waiting"
    using assms(3) by (simp_all add: defs)
  have w4: "workers (fst (rb_sensor_trylock 0 s3)) = workers s3" using lock by (auto simp: rb_sensor_trylock_def touch_def)
  let ?e = "(?d s3)\<lparr>dm_sys := at_worker 0 (Processing 0) (fst (rb_sensor_trylock 0 s3)),
     dm_passes := (dm_passes (?d s3))[0 := Some rp], dm_worker := W'\<rparr>"
  have "daemon_step cap P S E (?d s3) ?e"
    by (rule daemon_step.begins [of 0 _ 0 _ PM]) (use w3 lock assms(5) st in \<open>simp_all add: initial_daemon_def\<close>)
  from reachable_daemon.step [OF r3 this] show ?thesis
    by (rule exI [of _ ?e, OF conjI]) (use w3 w4 in \<open>simp add: initial_daemon_def\<close>)
qed

text \<open>A worker can always bring its pass to an end by its own steps.\<close>

lemma pass_can_end:
  fixes E :: "'f matheval"
  assumes "reachable_daemon cap P S E W init n d" and ok: "\<forall>s \<in> set init. sensor_ok E s"
    and small: "cap + n + 2 < 2 ^ 32" and lay: "layout_ok (pr_layout P)" and short: "prints_short E"
    and w: "w < n" and "workers (dm_sys d) ! w = Processing s" and T: "turn_ok E T"
  shows "\<exists>d'. (daemon_step cap P S E)\<^sup>*\<^sup>* d d' \<and> workers (dm_sys d') ! w = Unlocked s
    \<and> (\<forall>v. v \<noteq> w \<longrightarrow> workers (dm_sys d') ! v = workers (dm_sys d) ! v)
    \<and> (\<forall>t. t \<noteq> s \<longrightarrow> dm_sensors d' ! t = dm_sensors d ! t \<and> outs_of t d' = outs_of t d)"
  using assms(1,7)
proof (induction "case dm_passes d ! w of None \<Rightarrow> 0 | Some rp \<Rightarrow>
      (case sen_monitors (dm_sensors d ! s) of None \<Rightarrow> 0 | Some m \<Rightarrow> arr_count m - rp_index rp)"
    arbitrary: d rule: less_induct)
  case less
  note D = daemon_invD [OF daemon_inv_reachable [OF less.prems(1) ok small lay short]]
  have wl: "w < length (workers (dm_sys d))" using w D(2) by simp
  have work: "at_work (dm_sys d) ! w = Some s" using at_work_nth [OF wl] less.prems(2) by simp
  have s: "s < length init" by (rule at_work_sensor [OF D(1) wl work])
  from D(7) [OF w work] obtain rp s1 out1 PM W' sent
    and ps :: "(pass_mem \<times> (nat \<Rightarrow> 'f turn) \<times> worker_info) list" and turns :: "nat \<Rightarrow> 'f turn"
    where rp: "dm_passes d ! w = Some rp" and way: "under_way P S E s1 PM turns W' rp (dm_sensors d ! s) sent"
    unfolding in_pass_def by blast
  show ?case
  proof (cases "pass_over (dm_sensors d ! s) rp")
    case True
    let ?d = "d\<lparr>dm_sys := at_worker w (Unlocked s) (rb_sensor_unlock s (dm_sys d)), dm_passes := (dm_passes d)[w := None]\<rparr>"
    have "daemon_step cap P S E d ?d" by (rule daemon_step.ends [OF wl less.prems(2) rp True])
    moreover have "workers (dm_sys ?d) = (workers (dm_sys d))[w := Unlocked s]"
      by (simp add: rb_sensor_unlock_def touch_def)
    ultimately show ?thesis using wl by (intro exI [of _ ?d]) (auto simp: outs_of_def)
  next
    case False
    from turn_pass_under_way [OF way False T lay short] obtain s' rp' now_sent
      where t: "turn_pass P T (dm_sensors d ! s) rp = Inr (s', rp', now_sent)" by blast
    let ?d = "d\<lparr>dm_sensors := (dm_sensors d)[s := s'], dm_passes := (dm_passes d)[w := Some rp'],
                dm_out := dm_out d @ map (Pair s) now_sent\<rparr>"
    have step: "daemon_step cap P S E d ?d" by (rule daemon_step.turn [OF wl less.prems(2) rp False T t])
    have r: "reachable_daemon cap P S E W init n ?d" by (rule reachable_daemon.step [OF less.prems(1) step])
    from t have "sen_monitors s' = sen_monitors (dm_sensors d ! s)" "rp_index rp' = Suc (rp_index rp)"
      by (auto simp: turn_pass_def obind_Inr_iff split: option.splits)
    then have dec: "(case dm_passes ?d ! w of None \<Rightarrow> 0 | Some rp \<Rightarrow>
        (case sen_monitors (dm_sensors ?d ! s) of None \<Rightarrow> 0 | Some m \<Rightarrow> arr_count m - rp_index rp))
      < (case dm_passes d ! w of None \<Rightarrow> 0 | Some rp \<Rightarrow>
        (case sen_monitors (dm_sensors d ! s) of None \<Rightarrow> 0 | Some m \<Rightarrow> arr_count m - rp_index rp))"
      using False rp w s D(3,4) by (auto simp: pass_over_def split: option.splits)
    have other: "t \<noteq> s \<Longrightarrow> dm_sensors ?d ! t = dm_sensors d ! t \<and> outs_of t ?d = outs_of t d" for t
      by (simp add: outs_of_def filter_map comp_def)
    from less.hyps [OF dec r] less.prems(2) obtain d' where
      "(daemon_step cap P S E)\<^sup>*\<^sup>* ?d d'" "workers (dm_sys d') ! w = Unlocked s"
      "\<forall>v. v \<noteq> w \<longrightarrow> workers (dm_sys d') ! v = workers (dm_sys ?d) ! v"
      "\<forall>t. t \<noteq> s \<longrightarrow> dm_sensors d' ! t = dm_sensors ?d ! t \<and> outs_of t d' = outs_of t ?d" by auto
    with other show ?thesis using converse_rtranclp_into_rtranclp [of "daemon_step cap P S E", OF step]
      by (intro exI [of _ d']) simp
  qed
qed

end
