(* ===== verification/Program.thy ===== *)
theory Program
  imports Startup Daemon
begin

text \<open>
  The function \<open>main\<close> of src/main.c around its loop: the command line, the order in which the
  configuration, ZooKeeper, Kafka, HTTP, the sensors and the workers are set up, with every exit on the
  way; and the shut-down, which waits for the threads and for the messages left. What \<open>main\<close> asks of
  the libraries is a list of effects, what they answer is the record \<open>world\<close>.
\<close>

section \<open>The command line\<close>

text \<open>
  \<open>getopt(argc, argv, "gc:hvd:")\<close>, called until it returns -1: the options with their arguments, and
  \<open>?\<close> for an unknown one or a missing argument. As in glibc, operands may stand between options.
\<close>

fun getopt_cluster :: "string \<Rightarrow> string list \<Rightarrow> (char \<times> string) list \<times> string list" where
  "getopt_cluster [] args = ([], args)"
| "getopt_cluster (c # cs) args =
     (if c \<in> {CHR ''c'', CHR ''d''} then
        (if cs \<noteq> [] then ([(c, cs)], args)
         else case args of [] \<Rightarrow> ([(CHR ''?'', [])], []) | a # rest \<Rightarrow> ([(c, a)], rest))
      else
        (let (opts, rest) = getopt_cluster cs args
         in ((if c \<in> {CHR ''g'', CHR ''h'', CHR ''v''} then c else CHR ''?'', []) # opts, rest)))"

lemma getopt_cluster_rest: "length (snd (getopt_cluster cs args)) \<le> length args"
  by (induction cs args rule: getopt_cluster.induct) (auto split: list.splits prod.splits)

function getopt :: "string list \<Rightarrow> (char \<times> string) list" where
  "getopt [] = []"
| "getopt (a # args) =
     (if a = ''--'' then []
      else if prefix ''-'' a \<and> a \<noteq> ''-'' then
        fst (getopt_cluster (tl a) args) @ getopt (snd (getopt_cluster (tl a) args))
      else getopt args)"
  by pat_completeness auto
termination
  by (relation "measure length") (auto simp: le_imp_less_Suc getopt_cluster_rest)

text \<open>\<open>atoi\<close>: \<open>strtol\<close> in 64 bits, cut to an \<open>int\<close>.\<close>

definition strtol10 :: "string \<Rightarrow> int64" where
  "strtol10 s =
     (let (neg, r) = split_sign (dropWhile is_space s);
          n = int (num_of 10 digit_val (takeWhile is_digit r))
      in word_of_int (max (- (2 ^ 63)) (min (2 ^ 63 - 1) (if neg then - n else n))))"

definition atoi :: "string \<Rightarrow> 32 word" where
  "atoi s = ucast (strtol10 s)"

section \<open>Stages\<close>

text \<open>What \<open>main\<close> does to its surroundings, in order.\<close>

datatype 'j main_effect =
    Help_printed
  | Zookeeper_started "'j zk_start"
  | Kafka_producer | Kafka_brokers string | Kafka_topic "string option" | Delivery_thread
  | Kafka_confs_destroyed
  | Http_handler string | Http_option string string | Http_run | Report_thread
  | Worker_started nat
  | Worker_joined nat | Sensors_array_freed
  | Delivery_joined | Kafka_polled nat | Kafka_topic_destroyed | Kafka_destroyed
  | Report_joined | Http_destroyed
  | Config_released | Queue_destroyed

text \<open>After a stage the program goes on, or has ended by \<open>exit\<close> or a fault.\<close>

datatype 'a progress = Exited nat | Crashed fault | Goes_on 'a

type_synonym ('j, 'a) stage = "'j main_effect list \<times> 'a progress"

definition and_then :: "('j, 'a) stage \<Rightarrow> ('a \<Rightarrow> ('j, 'b) stage) \<Rightarrow> ('j, 'b) stage" where
  "and_then s f =
     (case snd s of
        Exited c \<Rightarrow> (fst s, Exited c)
      | Crashed e \<Rightarrow> (fst s, Crashed e)
      | Goes_on a \<Rightarrow> (fst s @ fst (f a), snd (f a)))"

definition calls :: "'a outcome \<Rightarrow> ('j, 'a) stage" where
  "calls x = ([], case x of Inl e \<Rightarrow> Crashed e | Inr a \<Rightarrow> Goes_on a)"

lemma and_then_simps [simp]:
  "and_then (es, Exited c) f = (es, Exited c)"
  "and_then (es, Crashed e) f = (es, Crashed e)"
  "and_then (es, Goes_on a) f = (es @ fst (f a), snd (f a))"
  by (simp_all add: and_then_def)

lemma calls_simps [simp]: "calls (Inl e) = ([], Crashed e)" "calls (Inr a) = ([], Goes_on a)"
  by (simp_all add: calls_def)

lemma and_then_Goes_on:
  "and_then s f = (es, Goes_on b) \<longleftrightarrow>
     (\<exists>es1 a es2. s = (es1, Goes_on a) \<and> f a = (es2, Goes_on b) \<and> es = es1 @ es2)"
  by (cases s; cases "snd s") (auto simp: and_then_def prod_eq_iff)

lemma and_then_Exited:
  "and_then s f = (es, Exited c) \<longleftrightarrow>
     s = (es, Exited c) \<or> (\<exists>es1 a es2. s = (es1, Goes_on a) \<and> f a = (es2, Exited c) \<and> es = es1 @ es2)"
  by (cases s; cases "snd s") (auto simp: and_then_def prod_eq_iff)

lemma and_then_Crashed:
  "and_then s f = (es, Crashed e) \<longleftrightarrow>
     s = (es, Crashed e) \<or> (\<exists>es1 a es2. s = (es1, Goes_on a) \<and> f a = (es2, Crashed e) \<and> es = es1 @ es2)"
  by (cases s; cases "snd s") (auto simp: and_then_def prod_eq_iff)

section \<open>The options\<close>

record options =
  config_path :: "string option"
  debug_severity :: "32 word"

text \<open>\<open>LOG_INFO\<close> is 6.\<close>

definition default_options :: options where
  "default_options = \<lparr>config_path = None, debug_severity = 6\<rparr>"

fun main_options :: "(char \<times> string) list \<Rightarrow> options \<Rightarrow> ('j, options) stage" where
  "main_options [] o' = ([], Goes_on o')"
| "main_options ((c, arg) # opts) o' =
     (if c = CHR ''h'' then ([Help_printed], Exited 0)
      else if c = CHR ''g'' then main_options opts o'
      else if c = CHR ''c'' then main_options opts (o'\<lparr>config_path := Some arg\<rparr>)
      else if c = CHR ''d'' then main_options opts (o'\<lparr>debug_severity := atoi arg\<rparr>)
      else ([Help_printed], Exited 1))"

section \<open>The world\<close>

text \<open>
  What the build has besides librbhttp, and what the calls give: the file that can be read, the
  producers, the allocations, the threads.
\<close>

record 'j world =
  w_build :: build
  w_zookeeper :: bool
  w_file :: "string \<Rightarrow> 'j option"
  w_known :: "string \<Rightarrow> string option \<Rightarrow> bool"
  w_zk_mem :: bool
  w_zk_errno :: bool
  w_session :: snmp_session
  w_kafka_new :: bool
  w_brokers_add :: "string \<Rightarrow> nat"
  w_http_create :: "string \<Rightarrow> bool"
  w_report_thread :: bool
  w_array_mem :: bool
  w_sensor_mem :: "nat \<Rightarrow> sensor_mem"
  w_malloc :: "64 word \<Rightarrow> bool"
  w_thread :: "nat \<Rightarrow> bool"

section \<open>Configuration\<close>

text \<open>From the check of the path to the end of the zookeeper object.\<close>

definition main_config ::
    "'j json_c \<Rightarrow> 'j world \<Rightarrow> 'j \<Rightarrow> options \<Rightarrow> ('j, 'j \<times> conf_state) stage" where
  "main_config J V default_config o' =
     (case config_path o' of
        None \<Rightarrow> ([], Exited 1)
      | Some path \<Rightarrow>
          case w_file V path of
            None \<Rightarrow> ([], Exited 1)
          | Some config_file \<Rightarrow>
              and_then (calls (configure (w_build V) J (w_known V) default_config (debug_severity o') config_file)) (\<lambda>st.
              and_then
                (case jc_get J (Some config_file) ''zookeeper'' of
                   None \<Rightarrow> ([], Goes_on ())
                 | Some zk \<Rightarrow>
                     if \<not> w_zookeeper V then ([], Goes_on ())
                     else and_then (calls (parse_zookeeper_json J (w_zk_mem V) (w_zk_errno V) zk)) (\<lambda>z.
                            (case z of None \<Rightarrow> [] | Some a \<Rightarrow> [Zookeeper_started a], Goes_on ())))
                (\<lambda>_. ([], Goes_on (config_file, st)))))"

section \<open>The producers\<close>

text \<open>What \<open>rd_kafka_topic_new\<close> returns is not looked at.\<close>

definition main_kafka :: "'j world \<Rightarrow> worker_config \<Rightarrow> ('j, bool) stage" where
  "main_kafka V w =
     (case wc_kafka_broker w of
        None \<Rightarrow> ([Kafka_confs_destroyed], Goes_on False)
      | Some broker \<Rightarrow>
          if \<not> w_kafka_new V then ([], Exited 1)
          else if w_brokers_add V broker = 0 then ([Kafka_producer, Kafka_brokers broker], Exited 1)
          else ([Kafka_producer, Kafka_brokers broker, Kafka_topic (wc_kafka_topic w), Delivery_thread], Goes_on True))"

definition main_http :: "'j world \<Rightarrow> worker_config \<Rightarrow> ('j, bool) stage" where
  "main_http V w =
     (if \<not> have_rbhttp (w_build V) then ([], Goes_on False)
      else case wc_http_endpoint w of
             None \<Rightarrow> ([], Goes_on False)
           | Some endpoint \<Rightarrow>
               if \<not> w_http_create V endpoint then ([], Exited 1)
               else
                 let run = Http_handler endpoint # map (\<lambda>(k, v). Http_option k v) (process_rb_http_options w) @ [Http_run]
                 in if w_report_thread V then (run @ [Report_thread], Goes_on True) else (run, Exited 1))"

section \<open>The workers\<close>

text \<open>
  \<open>malloc(sizeof(pthread_t) * threads)\<close> in 64 bits, and the loop that lets \<open>pthread_create\<close> write each
  element; what it returns is not looked at, so the result lists the threads there are.
\<close>

definition worker_table_bytes :: "64 word \<Rightarrow> 64 word" where
  "worker_table_bytes threads = 8 * threads"

fun create_workers :: "(nat \<Rightarrow> bool) \<Rightarrow> nat \<Rightarrow> nat list \<Rightarrow> nat list \<Rightarrow> ('j, nat list) stage" where
  "create_workers created bytes [] ts = ([], Goes_on ts)"
| "create_workers created bytes (i # is) ts =
     (if bytes < 8 * i + 8 then ([], Crashed Buffer_overflow)
      else if created i then and_then ([Worker_started i], Goes_on ()) (\<lambda>_. create_workers created bytes is (ts @ [i]))
      else create_workers created bytes is ts)"

definition main_workers :: "'j world \<Rightarrow> main_info \<Rightarrow> ('j, nat list) stage" where
  "main_workers V m =
     (let bytes = worker_table_bytes (mi_threads m)
      in if \<not> w_malloc V bytes then ([], Exited 1)
         else create_workers (w_thread V) (unat bytes) [0..<unat (mi_threads m)] [])"

section \<open>Starting\<close>

text \<open>What the main loop starts with.\<close>

record 'j program =
  pg_ret :: bool
  pg_conf :: conf_state
  pg_kafka :: bool
  pg_worker :: worker_info
  pg_sensors :: "'j rb_sensor rb_array"
  pg_threads :: "nat list"

definition main_start ::
    "'j json_c \<Rightarrow> 'f matheval \<Rightarrow> 'j world \<Rightarrow> 'j \<Rightarrow> string list \<Rightarrow> ('j, 'j program) stage" where
  "main_start J E V default_config argv =
     and_then (main_options (getopt argv) default_options) (\<lambda>o'.
     and_then (main_config J V default_config o') (\<lambda>(config_file, st).
     and_then (main_kafka V (cs_worker st)) (\<lambda>kafka.
     and_then (main_http V (cs_worker st)) (\<lambda>http.
     let W = pass_worker ((w_session V)\<lparr>ss_version := SNMP_VERSION_1\<rparr>) http st in
     and_then (calls (parse_sensors J E (w_array_mem V) (w_sensor_mem V) W config_file)) (\<lambda>array.
     case array of
       None \<Rightarrow> ([], Exited 1)
     | Some sensors_array \<Rightarrow>
         and_then (main_workers V (cs_main st)) (\<lambda>ts.
         ([], Goes_on
            \<lparr>pg_ret = cs_ok (parse_json_config (w_build V) J (w_known V) default_config zero_config),
             pg_conf = st, pg_kafka = kafka, pg_worker = W, pg_sensors = sensors_array, pg_threads = ts\<rparr>)))))))"

section \<open>Stopping\<close>

text \<open>A loop that waits: the first index from which on the condition holds, if any.\<close>

partial_function (option) wait_until :: "(nat \<Rightarrow> bool) \<Rightarrow> nat \<Rightarrow> nat option" where
  "wait_until stop i = (if stop i then Some i else wait_until stop (Suc i))"

text \<open>
  The thread of the delivery reports with what \<open>run\<close> is before each turn; the thread of the HTTP
  reports, with the number of reports each call gives; and the loop over the length of the queue.
\<close>

definition rdkafka_delivery_reports_poll_f :: "(nat \<Rightarrow> bool) \<Rightarrow> nat option" where
  "rdkafka_delivery_reports_poll_f run = wait_until (\<lambda>i. \<not> run i) 0"

definition get_report_thread :: "(nat \<Rightarrow> nat) \<Rightarrow> (nat \<Rightarrow> bool) \<Rightarrow> nat option" where
  "get_report_thread reports run = wait_until (\<lambda>i. \<not> (reports i \<noteq> 0 \<or> run i)) 0"

definition flush_messages :: "(nat \<Rightarrow> nat) \<Rightarrow> nat option" where
  "flush_messages outq_len = wait_until (\<lambda>i. outq_len i = 0) 0"

text \<open>Joining reads the element of every thread, created or not.\<close>

fun join_workers :: "nat list \<Rightarrow> nat list \<Rightarrow> ('j, unit) stage" where
  "join_workers created [] = ([], Goes_on ())"
| "join_workers created (i # is) =
     (if i \<notin> set created then ([], Crashed Uninitialised)
      else and_then ([Worker_joined i], Goes_on ()) (\<lambda>_. join_workers created is))"

text \<open>What the libraries answer during the shut-down; \<open>run\<close> is 0 by then.\<close>

record stop_world =
  sw_outq_len :: "nat \<Rightarrow> nat"
  sw_reports :: "nat \<Rightarrow> nat"

definition main_stop_kafka :: "stop_world \<Rightarrow> 'j program \<Rightarrow> ('j, unit) stage" where
  "main_stop_kafka Z p =
     (if wc_kafka_broker (cs_worker (pg_conf p)) = None then ([], Goes_on ())
      else
        and_then (calls (returned (rdkafka_delivery_reports_poll_f (\<lambda>i. False)))) (\<lambda>_.
        and_then ([Delivery_joined], Goes_on ()) (\<lambda>_.
        if \<not> pg_kafka p then ([], Goes_on ())
        else
          and_then (calls (returned (flush_messages (sw_outq_len Z)))) (\<lambda>n.
          (map (\<lambda>i. Kafka_polled (sw_outq_len Z i)) [0..<n] @ [Kafka_topic_destroyed, Kafka_destroyed], Goes_on ())))))"

definition main_stop_http :: "'j world \<Rightarrow> stop_world \<Rightarrow> 'j program \<Rightarrow> ('j, unit) stage" where
  "main_stop_http V Z p =
     (if \<not> have_rbhttp (w_build V) \<or> wc_http_endpoint (cs_worker (pg_conf p)) = None then ([], Goes_on ())
      else and_then (calls (returned (get_report_thread (sw_reports Z) (\<lambda>i. False)))) (\<lambda>_.
             ([Report_joined, Http_destroyed], Goes_on ())))"

text \<open>\<open>main\<close> returns what the parsing of the default configuration returned.\<close>

definition main_stop :: "'j world \<Rightarrow> stop_world \<Rightarrow> 'j program \<Rightarrow> ('j, unit) stage" where
  "main_stop V Z p =
     and_then (join_workers (pg_threads p) [0..<unat (mi_threads (cs_main (pg_conf p)))]) (\<lambda>_.
     and_then ([Sensors_array_freed], Goes_on ()) (\<lambda>_.
     and_then (main_stop_kafka Z p) (\<lambda>_.
     and_then (main_stop_http V Z p) (\<lambda>_.
     ([Config_released, Queue_destroyed], Exited (of_bool (pg_ret p)))))))"

section \<open>What the command line says\<close>

definition goes_on_option :: "char \<times> string \<Rightarrow> bool" where
  "goes_on_option opt \<longleftrightarrow> fst opt \<in> {CHR ''g'', CHR ''c'', CHR ''d''}"

definition last_argument :: "char \<Rightarrow> (char \<times> string) list \<Rightarrow> string option" where
  "last_argument c opts = map_of (rev opts) c"

lemma main_options_reading:
  "main_options opts o' =
     (case dropWhile goes_on_option opts of
        [] \<Rightarrow> ([], Goes_on \<lparr>config_path = (case last_argument (CHR ''c'') opts of None \<Rightarrow> config_path o' | p \<Rightarrow> p),
                     debug_severity = (case last_argument (CHR ''d'') opts of None \<Rightarrow> debug_severity o' | Some s \<Rightarrow> atoi s)\<rparr>)
      | opt # _ \<Rightarrow> ([Help_printed], Exited (if fst opt = CHR ''h'' then 0 else 1)))"
proof (induction opts o' rule: main_options.induct)
  case (2 c arg opts o')
  consider "c = CHR ''h''" | "c = CHR ''g''" | "c = CHR ''c''" | "c = CHR ''d''"
    | "c \<noteq> CHR ''h''" "c \<notin> {CHR ''g'', CHR ''c'', CHR ''d''}" by blast
  then show ?case
    by cases (auto simp: 2 goes_on_option_def last_argument_def map_add_def
          simp del: dropWhile_eq_Nil_conv split: list.splits option.splits)
qed (simp add: last_argument_def)

text \<open>A printed integer is read back.\<close>

lemma strtol10_show_int:
  assumes "- (2 ^ 63) \<le> z" "z < 2 ^ 63"
  shows "strtol10 (show_int z) = word_of_int z"
proof -
  have all: "takeWhile is_digit (nat_digits n) = nat_digits n" for n
    using takeWhile_digits [of "[]" n] by simp
  obtain c cs where c: "nat_digits (nat \<bar>z\<bar>) = c # cs" "is_digit c" using hd_nat_digits by blast
  have "split_sign (dropWhile is_space (show_int z)) = (z < 0, nat_digits (nat \<bar>z\<bar>))"
  proof (cases "z < 0")
    case True
    then have "show_int z = CHR ''-'' # nat_digits (nat \<bar>z\<bar>)" by (simp add: show_int_def)
    with True show ?thesis by (simp add: is_space_def)
  next
    case False
    then have "show_int z = nat_digits (nat \<bar>z\<bar>)" by (simp add: show_int_def)
    with False show ?thesis using digit_not_letter [OF c(2)] c(1) by simp
  qed
  moreover have "max (- (2 ^ 63)) (min (2 ^ 63 - 1) (if z < 0 then - int (nat \<bar>z\<bar>) else int (nat \<bar>z\<bar>))) = z"
    using assms by auto
  ultimately show ?thesis by (simp only: strtol10_def all Let_def num_of_nat_digits prod.case)
qed

lemma atoi_show_int:
  assumes "- (2 ^ 31) \<le> z" "z < 2 ^ 31"
  shows "sint (atoi (show_int z)) = z"
proof -
  have "strtol10 (show_int z) = word_of_int z" using assms by (intro strtol10_show_int) simp_all
  moreover have "(ucast (word_of_int z :: int64) :: 32 word) = word_of_int z"
    by transfer simp
  moreover have "sint (word_of_int z :: 32 word) = signed_take_bit 31 z" by transfer simp
  ultimately show ?thesis using assms by (simp add: atoi_def signed_take_bit_int_eq_self)
qed

section \<open>Waiting\<close>

lemma wait_until_Some:
  "wait_until P i = Some k \<Longrightarrow> i \<le> k \<and> P k \<and> (\<forall>j. i \<le> j \<longrightarrow> j < k \<longrightarrow> \<not> P j)"
proof (rule wait_until.raw_induct [where P = "\<lambda>P i k. i \<le> k \<and> P k \<and> (\<forall>j. i \<le> j \<longrightarrow> j < k \<longrightarrow> \<not> P j)"])
  fix f and P :: "nat \<Rightarrow> bool" and i k :: nat
  assume IH: "\<And>P i k. f P i = Some k \<Longrightarrow> i \<le> k \<and> P k \<and> (\<forall>j. i \<le> j \<longrightarrow> j < k \<longrightarrow> \<not> P j)"
    and eq: "(if P i then Some i else f P (Suc i)) = Some k"
  show "i \<le> k \<and> P k \<and> (\<forall>j. i \<le> j \<longrightarrow> j < k \<longrightarrow> \<not> P j)"
  proof (cases "P i")
    case False
    with eq have "f P (Suc i) = Some k" by simp
    from IH [OF this] have k: "Suc i \<le> k" "P k" "\<And>j. Suc i \<le> j \<Longrightarrow> j < k \<Longrightarrow> \<not> P j" by auto
    have "\<not> P j" if "i \<le> j" "j < k" for j using False k(3) [of j] that by (cases "j = i") auto
    with k show ?thesis by simp
  qed (use eq in simp)
qed

lemma wait_until_finds:
  assumes "i \<le> k" "P k" 
  shows "\<exists>k. wait_until P i = Some k"
  using assms
proof (induction "k - i" arbitrary: i)
  case 0
  then show ?case by (simp add: wait_until.simps)
next
  case (Suc n)
  from Suc(1) [of "Suc i"] Suc(2-) have "\<exists>k. wait_until P (Suc i) = Some k" by simp
  then show ?case by (subst wait_until.simps) simp
qed

lemma wait_until_eq:
  "wait_until P 0 = (if \<exists>k. P k then Some (LEAST k. P k) else None)"
proof (cases "wait_until P 0")
  case None
  then show ?thesis using wait_until_finds [of 0 _ P] by fastforce
next
  case (Some k)
  from wait_until_Some [OF Some] have "P k" "\<forall>j. j < k \<longrightarrow> \<not> P j" by simp_all
  then have "(LEAST k. P k) = k" by (metis LeastI_ex Least_le not_less le_antisym)
  with \<open>P k\<close> Some show ?thesis by auto
qed

section \<open>Threads created and joined\<close>

lemma create_workers_room:
  "\<forall>i \<in> set is. 8 * i + 8 \<le> bytes \<Longrightarrow>
     create_workers created bytes is ts = (map Worker_started (filter created is), Goes_on (ts @ filter created is))"
  by (induction "is" arbitrary: ts) auto

lemma create_workers_no_room:
  "i \<in> set is \<Longrightarrow> bytes < 8 * i + 8 \<Longrightarrow> \<exists>es. create_workers created bytes is ts = (es, Crashed Buffer_overflow)"
proof (induction "is" arbitrary: ts)
  case (Cons k ks)
  show ?case
  proof (cases "k = i")
    case False
    with Cons.prems have "i \<in> set ks" by simp
    from Cons.IH [OF this Cons.prems(2), of ts] Cons.IH [OF this Cons.prems(2), of "ts @ [k]"]
    show ?thesis by (auto simp: and_then_def)
  qed (use Cons.prems in simp)
qed simp

lemma join_workers_all:
  "set is \<subseteq> set created \<Longrightarrow> join_workers created is = (map Worker_joined is, Goes_on ())"
  by (induction "is") auto

lemma join_workers_missing:
  "\<not> set is \<subseteq> set created \<Longrightarrow> \<exists>es. join_workers created is = (es, Crashed Uninitialised)"
proof (induction "is")
  case (Cons k ks)
  then show ?case by (cases "k \<in> set created") (auto simp: and_then_def)
qed simp

lemma worker_table_fits:
  assumes "0 < unat threads"
  shows "8 * unat threads \<le> unat (worker_table_bytes threads) \<longleftrightarrow> unat threads < 2 ^ 61"
proof -
  have eq: "unat (worker_table_bytes threads) = 8 * unat threads mod 2 ^ 64"
    by (simp add: worker_table_bytes_def unat_word_ariths take_bit_eq_mod)
  show ?thesis
  proof (cases "unat threads < 2 ^ 61")
    case True
    then show ?thesis by (simp add: eq)
  next
    case False
    moreover have "8 * unat threads mod 2 ^ 64 < 2 ^ 64" by simp
    ultimately show ?thesis unfolding eq by simp
  qed
qed

lemma main_workers_eq:
  assumes "0 < unat (mi_threads m)" and "w_malloc V (worker_table_bytes (mi_threads m))"
  shows "unat (mi_threads m) < 2 ^ 61 \<Longrightarrow> main_workers V m =
           (map Worker_started (filter (w_thread V) [0..<unat (mi_threads m)]),
            Goes_on (filter (w_thread V) [0..<unat (mi_threads m)]))"
    and "2 ^ 61 \<le> unat (mi_threads m) \<Longrightarrow> \<exists>es. main_workers V m = (es, Crashed Buffer_overflow)"
proof -
  let ?n = "unat (mi_threads m)" and ?b = "unat (worker_table_bytes (mi_threads m))"
  have eq: "main_workers V m = create_workers (w_thread V) ?b [0..<?n] []"
    using assms(2) by (simp add: main_workers_def)
  { assume "?n < 2 ^ 61"
    then have "8 * ?n \<le> ?b" using worker_table_fits [OF assms(1)] by simp
    then have "\<forall>i \<in> set [0..<?n]. 8 * i + 8 \<le> ?b" by auto
    from create_workers_room [OF this, of "w_thread V" "[]"] show "main_workers V m =
           (map Worker_started (filter (w_thread V) [0..<?n]), Goes_on (filter (w_thread V) [0..<?n]))"
      unfolding eq by simp }
  { assume "2 ^ 61 \<le> ?n"
    then have "?b < 8 * ?n" using worker_table_fits [OF assms(1)] by simp
    then have "?n - 1 \<in> set [0..<?n]" "?b < 8 * (?n - 1) + 8" using assms(1) by auto
    from create_workers_no_room [OF this] show "\<exists>es. main_workers V m = (es, Crashed Buffer_overflow)"
      unfolding eq by blast }
qed

section \<open>What starting gives\<close>

text \<open>Stages that start no worker, and that end, if they do, with 1.\<close>

definition no_worker :: "('j, 'a) stage \<Rightarrow> bool" where
  "no_worker s \<longleftrightarrow> (\<forall>i. Worker_started i \<notin> set (fst s))"

definition fails_early :: "('j, 'a) stage \<Rightarrow> bool" where
  "fails_early s \<longleftrightarrow> (\<forall>c. snd s = Exited c \<longrightarrow> c = 1 \<and> no_worker s)"

lemma fails_early_and_then:
  assumes "no_worker s" and "fails_early s" and "\<And>a. fails_early (f a)"
  shows "fails_early (and_then s f)"
  using assms by (cases s; cases "snd s") (fastforce simp: fails_early_def no_worker_def)+

lemma fails_early_last: "fails_early s \<Longrightarrow> fails_early (and_then s (\<lambda>a. ([], Goes_on (g a))))"
  by (cases s; cases "snd s") (auto simp: fails_early_def no_worker_def)

lemma fails_early_simps [simp]:
  "fails_early (es, Goes_on a)" "fails_early (es, Crashed e)"
  "fails_early ([], Exited (Suc 0))"
  "no_worker ([], x)" "fails_early (calls r)" "no_worker (calls r)"
  by (auto simp: fails_early_def no_worker_def calls_def split: sum.splits)

lemma stages_fail_early:
  "no_worker (main_config J V d o')" "fails_early (main_config J V d o')"
  "no_worker (main_kafka V w)" "fails_early (main_kafka V w)"
  "no_worker (main_http V w)" "fails_early (main_http V w)" "fails_early (main_workers V m)"
proof -
  show "no_worker (main_config J V d o')"
    by (auto simp: no_worker_def main_config_def and_then_def calls_def split: option.splits sum.splits progress.splits if_splits)
  show "fails_early (main_config J V d o')"
    by (auto simp: main_config_def intro!: fails_early_and_then split: option.splits)
      (auto simp: no_worker_def and_then_def calls_def split: option.splits sum.splits progress.splits)
  show "no_worker (main_kafka V w)" "fails_early (main_kafka V w)"
    by (auto simp: fails_early_def no_worker_def main_kafka_def split: option.splits)
  show "no_worker (main_http V w)" "fails_early (main_http V w)"
    by (auto simp: fails_early_def no_worker_def main_http_def Let_def split: option.splits)
  have "snd (create_workers cr b is ts :: ('a, nat list) stage) \<noteq> Exited c" for cr b "is" ts c
    by (induction "is" arbitrary: ts) (auto simp: and_then_def)
  then show "fails_early (main_workers V m)" by (simp add: main_workers_def fails_early_def Let_def no_worker_def)
qed

lemma no_worker_options: "no_worker (main_options opts o')"
  by (simp add: no_worker_def main_options_reading split: list.split)

lemma main_config_goes_on:
  assumes "main_config J V d o' = (es, Goes_on (cfg, st))"
  shows "\<exists>path. config_path o' = Some path \<and> w_file V path = Some cfg
     \<and> configure (w_build V) J (w_known V) d (debug_severity o') cfg = Inr st"
  using assms by (auto simp: main_config_def and_then_Goes_on calls_def split: option.splits sum.splits)

lemma main_kafka_goes_on:
  "main_kafka V w = (es, Goes_on k) \<Longrightarrow> k \<longleftrightarrow> wc_kafka_broker w \<noteq> None"
  by (auto simp: main_kafka_def split: option.splits if_splits)

lemma main_http_goes_on:
  "main_http V w = (es, Goes_on k) \<Longrightarrow> k \<longleftrightarrow> have_rbhttp (w_build V) \<and> wc_http_endpoint w \<noteq> None"
  by (auto simp: main_http_def Let_def split: option.splits if_splits)

lemma create_workers_goes_on:
  fixes es :: "'a main_effect list"
  shows "create_workers created bytes is ts = (es, Goes_on r) \<Longrightarrow>
     r = ts @ filter created is \<and> es = map Worker_started (filter created is)"
proof (induction "is" arbitrary: ts es)
  case (Cons k ks)
  show ?case
  proof (cases "created k")
    case True
    with Cons.prems Cons.IH [of "ts @ [k]"] show ?thesis
      by (cases "create_workers created bytes ks (ts @ [k]) :: ('a, nat list) stage") (auto split: if_splits)
  next
    case False
    with Cons show ?thesis by (simp split: if_splits)
  qed
qed simp

lemma main_workers_goes_on:
  "main_workers V m = (es, Goes_on ts) \<Longrightarrow>
     ts = filter (w_thread V) [0..<unat (mi_threads m)] \<and> es = map Worker_started ts"
  using create_workers_goes_on [of "w_thread V" _ "[0..<unat (mi_threads m)]" "[]" es ts]
  by (auto simp: main_workers_def Let_def split: if_splits)

text \<open>A program that runs has read its file, has the sensors of it, and one worker for each thread created.\<close>

lemma main_start_goes_on:
  assumes "main_start J E V d argv = (es, Goes_on p)"
  shows "\<exists>path cfg sev.
       last_argument (CHR ''c'') (getopt argv) = Some path \<and> w_file V path = Some cfg
     \<and> configure (w_build V) J (w_known V) d sev cfg = Inr (pg_conf p)
     \<and> parse_sensors J E (w_array_mem V) (w_sensor_mem V) (pg_worker p) cfg = Inr (Some (pg_sensors p))
     \<and> (pg_kafka p \<longleftrightarrow> wc_kafka_broker (cs_worker (pg_conf p)) \<noteq> None)
     \<and> wi_timeout (pg_worker p) = wc_timeout (cs_worker (pg_conf p))
     \<and> pg_threads p = filter (w_thread V) [0..<unat (mi_threads (cs_main (pg_conf p)))]
     \<and> filter (\<lambda>e. \<exists>i. e = Worker_started i) es = map Worker_started (pg_threads p)"
proof -
  obtain o' es1 cfg st es2 kafka es3 http es4 array es5 ts W where
    o': "main_options (getopt argv) default_options = (es1, Goes_on o')"
    and c: "main_config J V d o' = (es2, Goes_on (cfg, st))"
    and k: "main_kafka V (cs_worker st) = (es3, Goes_on kafka)"
    and h: "main_http V (cs_worker st) = (es4, Goes_on http)"
    and W: "W = pass_worker ((w_session V)\<lparr>ss_version := SNMP_VERSION_1\<rparr>) http st"
    and a: "parse_sensors J E (w_array_mem V) (w_sensor_mem V) W cfg = Inr (Some array)"
    and w: "main_workers V (cs_main st) = (es5, Goes_on ts)"
    and p: "pg_conf p = st" "pg_kafka p = kafka" "pg_worker p = W" "pg_sensors p = array" "pg_threads p = ts"
    and es: "es = es1 @ es2 @ es3 @ es4 @ es5"
    using assms
    by (auto simp: main_start_def and_then_Goes_on Let_def calls_def split: option.splits sum.splits)
  have path: "config_path o' = last_argument (CHR ''c'') (getopt argv)"
    using o' by (auto simp: main_options_reading default_options_def split: list.splits option.splits)
  have none: "filter (\<lambda>e. \<exists>i. e = Worker_started i) x = []" if "\<And>i. Worker_started i \<notin> set x" for x :: "'a main_effect list"
    using that by (auto simp: filter_empty_conv)
  have "no_worker (es1, x1)" "no_worker (es2, x2)" "no_worker (es3, x3)" "no_worker (es4, x4)"
    for x1 x2 x3 x4 :: "unit progress"
    using no_worker_options [of "getopt argv" default_options, where 'a = 'a] stages_fail_early(1) [of J V d o']
      stages_fail_early(3,5) [of V "cs_worker st"] o' c k h
    by (simp_all add: no_worker_def)
  then have "filter (\<lambda>e. \<exists>i. e = Worker_started i) es = filter (\<lambda>e. \<exists>i. e = Worker_started i) es5"
    by (simp add: es none no_worker_def)
  also have "\<dots> = map Worker_started ts" using main_workers_goes_on [OF w] by (simp add: filter_map comp_def)
  finally show ?thesis
    using main_config_goes_on [OF c] path a p main_kafka_goes_on [OF k] main_workers_goes_on [OF w] W
    by (auto simp: pass_worker_def)
qed

text \<open>A program that ends before its loop has started no worker.\<close>

lemma calls_Goes_on [simp]: "calls x = (es, Goes_on a) \<longleftrightarrow> es = [] \<and> x = Inr a"
  by (cases x) auto

lemma main_start_exited:
  assumes "main_start J E V d argv = (es, Exited c)"
  shows "(\<forall>i. Worker_started i \<notin> set es)
     \<and> c = (case dropWhile goes_on_option (getopt argv) of
              [] \<Rightarrow> 1 | opt # _ \<Rightarrow> if fst opt = CHR ''h'' then 0 else 1)"
proof (cases "dropWhile goes_on_option (getopt argv)")
  case Nil
  then obtain o' where o': "(main_options (getopt argv) default_options :: ('a, options) stage) = ([], Goes_on o')"
    by (simp add: main_options_reading)
  have "fails_early (main_start J E V d argv)"
    unfolding main_start_def o' and_then_simps
    by (auto simp: Let_def intro!: fails_early_last fails_early_and_then stages_fail_early split: option.splits)
  then show ?thesis using assms by (auto simp: fails_early_def no_worker_def Nil)
next
  case (Cons opt rest)
  then show ?thesis using assms by (auto simp: main_start_def main_options_reading)
qed

text \<open>The result of \<open>main\<close> is settled with the default configuration.\<close>

lemma main_start_ret:
  assumes "main_start J E V d argv = (es, Goes_on p)" and "default_config_ok J d"
  shows "pg_ret p"
proof -
  have "pg_ret p = cs_ok (parse_json_config (w_build V) J (w_known V) d zero_config)"
    using assms(1) by (auto simp: main_start_def and_then_Goes_on Let_def split: option.splits)
  then show ?thesis using default_config_settings [OF assms(2)] by simp
qed

section \<open>What stopping waits for\<close>

abbreviation uses_kafka :: "'j program \<Rightarrow> bool" where
  "uses_kafka p \<equiv> wc_kafka_broker (cs_worker (pg_conf p)) \<noteq> None"

abbreviation uses_http :: "'j world \<Rightarrow> 'j program \<Rightarrow> bool" where
  "uses_http V p \<equiv> have_rbhttp (w_build V) \<and> wc_http_endpoint (cs_worker (pg_conf p)) \<noteq> None"

abbreviation asked_threads :: "'j program \<Rightarrow> nat" where
  "asked_threads p \<equiv> unat (mi_threads (cs_main (pg_conf p)))"

lemma delivery_thread_ends: "rdkafka_delivery_reports_poll_f (\<lambda>i. False) = Some 0"
  by (simp add: rdkafka_delivery_reports_poll_f_def wait_until.simps)

lemma main_stop_kafka_eq:
  assumes "pg_kafka p \<longleftrightarrow> uses_kafka p"
  shows "main_stop_kafka Z p =
     (if \<not> uses_kafka p then ([], Goes_on ())
      else if \<exists>k. sw_outq_len Z k = 0 then
        (Delivery_joined # map (\<lambda>i. Kafka_polled (sw_outq_len Z i)) [0..<LEAST k. sw_outq_len Z k = 0]
           @ [Kafka_topic_destroyed, Kafka_destroyed], Goes_on ())
      else ([Delivery_joined], Crashed Hangs))"
  using assms by (simp add: main_stop_kafka_def delivery_thread_ends flush_messages_def wait_until_eq)

lemma main_stop_http_eq:
  "main_stop_http V Z p =
     (if \<not> uses_http V p then ([], Goes_on ())
      else if \<exists>k. sw_reports Z k = 0 then ([Report_joined, Http_destroyed], Goes_on ())
      else ([], Crashed Hangs))"
  by (auto simp: main_stop_http_def get_report_thread_def wait_until_eq)

lemma main_stop_eq:
  assumes "pg_kafka p \<longleftrightarrow> uses_kafka p" and "{..<asked_threads p} \<subseteq> set (pg_threads p)"
    and "uses_kafka p \<longrightarrow> (\<exists>k. sw_outq_len Z k = 0)" and "uses_http V p \<longrightarrow> (\<exists>k. sw_reports Z k = 0)"
  shows "main_stop V Z p =
     (map Worker_joined [0..<asked_threads p] @ [Sensors_array_freed]
        @ (if uses_kafka p then
             Delivery_joined # map (\<lambda>i. Kafka_polled (sw_outq_len Z i)) [0..<LEAST k. sw_outq_len Z k = 0]
               @ [Kafka_topic_destroyed, Kafka_destroyed] else [])
        @ (if uses_http V p then [Report_joined, Http_destroyed] else [])
        @ [Config_released, Queue_destroyed],
      Exited (of_bool (pg_ret p)))"
proof -
  have "set [0..<asked_threads p] \<subseteq> set (pg_threads p)" using assms(2) by (simp add: atLeast0LessThan)
  then show ?thesis
    using assms by (simp add: main_stop_def join_workers_all main_stop_kafka_eq main_stop_http_eq)
qed

lemma main_stop_crashes:
  assumes "pg_kafka p \<longleftrightarrow> uses_kafka p"
  shows "\<not> {..<asked_threads p} \<subseteq> set (pg_threads p) \<Longrightarrow> snd (main_stop V Z p) = Crashed Uninitialised"
    and "{..<asked_threads p} \<subseteq> set (pg_threads p) \<Longrightarrow>
         (uses_kafka p \<and> (\<forall>k. sw_outq_len Z k \<noteq> 0)) \<or> (uses_http V p \<and> (\<forall>k. sw_reports Z k \<noteq> 0)) \<Longrightarrow>
         snd (main_stop V Z p) = Crashed Hangs"
proof -
  let ?is = "[0..<asked_threads p]"
  { assume "\<not> {..<asked_threads p} \<subseteq> set (pg_threads p)"
    then have "\<not> set ?is \<subseteq> set (pg_threads p)" by (simp add: atLeast0LessThan)
    from join_workers_missing [OF this, where 'a = 'a] show "snd (main_stop V Z p) = Crashed Uninitialised"
      by (auto simp: main_stop_def) }
  { assume "{..<asked_threads p} \<subseteq> set (pg_threads p)"
      and no: "(uses_kafka p \<and> (\<forall>k. sw_outq_len Z k \<noteq> 0)) \<or> (uses_http V p \<and> (\<forall>k. sw_reports Z k \<noteq> 0))"
    then have "set ?is \<subseteq> set (pg_threads p)" by (simp add: atLeast0LessThan)
    note joined = join_workers_all [OF this]
    have "snd (main_stop_kafka Z p) = Crashed Hangs
        \<or> (\<exists>es. main_stop_kafka Z p = (es, Goes_on ())) \<and> main_stop_http V Z p = ([], Crashed Hangs)"
    proof (cases "uses_kafka p \<and> \<not> (\<exists>k. sw_outq_len Z k = 0)")
      case True
      then have "main_stop_kafka Z p = ([Delivery_joined], Crashed Hangs)"
        by (simp only: main_stop_kafka_eq [OF assms] simp_thms if_False)
      then show ?thesis by simp
    next
      case False
      then have "\<exists>es. main_stop_kafka Z p = (es, Goes_on ())"
        by (cases "uses_kafka p") (simp_all only: main_stop_kafka_eq [OF assms] simp_thms if_False if_True, simp_all)
      moreover have "uses_http V p \<and> \<not> (\<exists>k. sw_reports Z k = 0)" using no False by blast
      then have "main_stop_http V Z p = ([], Crashed Hangs)" by (simp only: main_stop_http_eq simp_thms if_False)
      ultimately show ?thesis by blast
    qed
    then show "snd (main_stop V Z p) = Crashed Hangs"
      by (auto simp: main_stop_def joined and_then_def) }
qed

end
