(* ===== verification/Shutdown.thy ===== *)
theory Shutdown
  imports Program
begin

text \<open>
  The end of a run: once the signal has cleared \<open>run\<close>, every step of a thread brings it nearer to its
  end, and as long as a thread has not left, some step can be made. So the joins of \<open>main\<close> return. And
  the whole: a program that starts runs without a fault.
\<close>

section \<open>The threads leave\<close>

fun steps_left :: "worker_pc \<Rightarrow> nat" where
  "steps_left (Popped s) = 4"
| "steps_left (Processing s) = 3"
| "steps_left (Unlocked s) = 2"
| "steps_left (Skipped s) = 2"
| "steps_left Waiting = 1"
| "steps_left (Left s) = 0"

fun main_steps_left :: "main_pc \<Rightarrow> nat" where
  "main_steps_left (Main_got i) = 2"
| "main_steps_left (Main_next i) = 1"
| "main_steps_left Main_left = 0"

definition thread_steps :: "sys \<Rightarrow> nat" where
  "thread_steps st = sum_list (map steps_left (workers st)) + main_steps_left (main_at st)"

definition all_left :: "sys \<Rightarrow> bool" where
  "all_left st \<longleftrightarrow> list_all (\<lambda>pc. \<exists>s. pc = Left s) (workers st) \<and> main_at st = Main_left"

lemma thread_steps_worker:
  assumes "w < length (workers st)" and "steps_left pc < steps_left (workers st ! w)"
    and "workers y = workers st" and "main_at y = main_at st"
  shows "thread_steps (at_worker w pc y) < thread_steps st"
proof -
  have "steps_left (workers st ! w) \<le> sum_list (map steps_left (workers st))"
    using elem_le_sum_list [of w "map steps_left (workers st)"] assms(1) by simp
  then show ?thesis
    using assms by (simp add: thread_steps_def map_update sum_list_update)
qed

lemma rb_sensor_fields [simp]:
  "workers (rb_sensor_unlock s st) = workers st" "main_at (rb_sensor_unlock s st) = main_at st"
  "running (rb_sensor_unlock s st) = running st" "queue (rb_sensor_unlock s st) = queue st"
  "workers (rb_sensor_put s st) = workers st" "main_at (rb_sensor_put s st) = main_at st"
  "running (rb_sensor_put s st) = running st" "queue (rb_sensor_put s st) = queue st"
  by (simp_all add: rb_sensor_unlock_def rb_sensor_put_def touch_def)

lemma rb_sensor_trylock_fields:
  "rb_sensor_trylock s st = (y, got) \<Longrightarrow>
     workers y = workers st \<and> main_at y = main_at st \<and> running y = running st \<and> queue y = queue st"
  by (auto simp: rb_sensor_trylock_def touch_def split: if_splits)

lemma sys_step_stopping:
  assumes "sys_step cap st st'" and "\<not> running st"
  shows "\<not> running st'" and "st' = st \<or> thread_steps st' < thread_steps st"
    and "main_at st' = Main_got i \<longrightarrow> main_at st = Main_got i" and "length (queue st') \<le> length (queue st) \<or> (\<forall>i. main_at st' \<noteq> Main_got i)"
proof -
  have "\<not> running st' \<and> (st' = st \<or> thread_steps st' < thread_steps st)
      \<and> (main_at st' = Main_got i \<longrightarrow> main_at st = Main_got i) \<and> (length (queue st') \<le> length (queue st) \<or> (\<forall>i. main_at st' \<noteq> Main_got i))"
    using assms
  proof cases
    case (main_queue i)
    then show ?thesis using assms(2) by (simp add: thread_steps_def)
  next
    case (main_leave i)
    then show ?thesis by (simp add: thread_steps_def)
  next
    case (pop_leave w s q)
    then show ?thesis using thread_steps_worker [of w st "Left (Some s)" "st\<lparr>queue := q\<rparr>"] by simp
  next
    case (leave w)
    then show ?thesis using thread_steps_worker [of w st "Left None" st] by simp
  next
    case (trylock w s y got)
    then show ?thesis
      using rb_sensor_trylock_fields [OF trylock(4)] thread_steps_worker [of w st "if got then Processing s else Skipped s" y] assms(2)
      by simp
  next
    case (unlock w s)
    then show ?thesis using thread_steps_worker [of w st "Unlocked s" "rb_sensor_unlock s st"] assms(2) by simp
  next
    case (put w s)
    then show ?thesis using thread_steps_worker [of w st Waiting "rb_sensor_put s st"] assms(2) by auto
  qed (use assms(2) in simp_all)
  then show "\<not> running st'" and "st' = st \<or> thread_steps st' < thread_steps st"
    and "main_at st' = Main_got i \<longrightarrow> main_at st = Main_got i" and "length (queue st') \<le> length (queue st) \<or> (\<forall>i. main_at st' \<noteq> Main_got i)"
    by blast+
qed

section \<open>The passes end\<close>

definition turns_of :: "'j daemon \<Rightarrow> nat \<Rightarrow> nat" where
  "turns_of d w =
     (case (dm_passes d ! w, workers (dm_sys d) ! w) of
        (Some rp, Processing s) \<Rightarrow>
          (case sen_monitors (dm_sensors d ! s) of None \<Rightarrow> 0 | Some m \<Rightarrow> arr_count m - rp_index rp)
      | _ \<Rightarrow> 0)"

definition turns_left :: "'j daemon \<Rightarrow> nat" where
  "turns_left d = (\<Sum>w < length (workers (dm_sys d)). turns_of d w)"

lemma turn_pass_keeps:
  "turn_pass P T s rp = Inr (s', rp', sent) \<Longrightarrow> sen_monitors s' = sen_monitors s \<and> rp_index rp' = Suc (rp_index rp)"
  by (auto simp: turn_pass_def obind_Inr_iff split: option.splits)

lemma turns_left_turn:
  assumes "w < length (workers (dm_sys d))" "workers (dm_sys d) ! w = Processing s" "dm_passes d ! w = Some rp"
    and "\<not> pass_over (dm_sensors d ! s) rp" and "turn_pass P T (dm_sensors d ! s) rp = Inr (sensor, rp', sent)"
    and "s < length (dm_sensors d)" and "w < length (dm_passes d)"
  shows "turns_left (d\<lparr>dm_sensors := (dm_sensors d)[s := sensor], dm_passes := (dm_passes d)[w := Some rp'],
            dm_out := out\<rparr>) < turns_left d" (is "turns_left ?d < _")
proof -
  note k = turn_pass_keeps [OF assms(5)]
  have same: "turns_of ?d v = turns_of d v" if "v \<noteq> w" for v
  proof -
    have "sen_monitors ((dm_sensors d)[s := sensor] ! t) = sen_monitors (dm_sensors d ! t)" for t
      using k assms(6) by (cases "t = s") simp_all
    then show ?thesis using that by (simp add: turns_of_def split: option.split worker_pc.split)
  qed
  have less: "turns_of ?d w < turns_of d w"
    using assms k by (auto simp: turns_of_def pass_over_def split: option.splits)
  have "turns_of ?d v \<le> turns_of d v" for v using same [of v] less by (cases "v = w") simp_all
  then have "sum (turns_of ?d) {..<length (workers (dm_sys d))} < sum (turns_of d) {..<length (workers (dm_sys d))}"
    using assms(1) less by (intro sum_strict_mono_ex1) auto
  then show ?thesis by (simp add: turns_left_def)
qed

text \<open>Once \<open>run\<close> is 0, a step brings some thread nearer to its end.\<close>

definition nearer :: "('j daemon \<times> 'j daemon) set" where
  "nearer = inv_image (less_than <*lex*> less_than) (\<lambda>d. (thread_steps (dm_sys d), turns_left d))"

lemma wf_nearer: "wf nearer"
  unfolding nearer_def by (intro wf_inv_image wf_lex_prod wf_less_than)

lemma daemon_step_stopping:
  assumes inv: "daemon_inv cap P S E init n d" and step: "daemon_step cap P S E d d'" and stop: "\<not> running (dm_sys d)"
    and small: "cap + n + 2 < 2 ^ 32" and lay: "layout_ok (pr_layout P)" and short: "prints_short E"
  shows "\<not> running (dm_sys d') \<and> (d' = d \<or> (d', d) \<in> nearer)"
  using step
proof cases
  case (threads y)
  from sys_step_stopping(1,2) [OF threads(2) stop] threads(1) show ?thesis
    by (auto simp: nearer_def)
next
  case (begins w s y PM W' rp)
  note y = rb_sensor_trylock_fields [OF begins(4)]
  have "thread_steps (at_worker w (Processing s) y) < thread_steps (dm_sys d)"
    by (rule thread_steps_worker [OF begins(2)]) (simp_all add: begins(3) y)
  then show ?thesis using y stop begins(1) by (simp add: nearer_def)
next
  case (begins_fault w s y PM e)
  then show ?thesis using daemon_invD(5) [OF daemon_inv_step [OF inv step small lay short]] by simp
next
  case (turn w s rp T sensor rp' sent)
  note D = daemon_invD [OF inv]
  have "at_work (dm_sys d) ! w = Some s" using at_work_nth [OF turn(2)] turn(3) by simp
  then have "s < length init" by (rule at_work_sensor [OF D(1) turn(2)])
  then have "turns_left d' < turns_left d"
    unfolding turn(1) using D(2-4) turn(2) by (intro turns_left_turn [OF turn(2,3,4,5,7)]) simp_all
  then show ?thesis using stop turn(1) by (simp add: nearer_def)
next
  case (turn_fault w s rp T e)
  then show ?thesis using daemon_invD(5) [OF daemon_inv_step [OF inv step small lay short]] by simp
next
  case (ends w s rp)
  have "thread_steps (at_worker w (Unlocked s) (rb_sensor_unlock s (dm_sys d))) < thread_steps (dm_sys d)"
    by (rule thread_steps_worker [OF ends(2)]) (simp_all add: ends(3))
  then show ?thesis using stop ends(1) by (simp add: nearer_def)
qed

lemma at_worker_changes: "w < length (workers st) \<Longrightarrow> pc \<noteq> workers st ! w \<Longrightarrow> workers y = workers st \<Longrightarrow> at_worker w pc y \<noteq> st"
  by (metis at_worker_fields(5) nth_list_update_eq)

lemma moves:
  "daemon_step cap P S E d d' \<Longrightarrow> dm_sys d' \<noteq> dm_sys d \<or> dm_passes d' \<noteq> dm_passes d \<Longrightarrow>
     \<exists>d'. daemon_step cap P S E d d' \<and> d' \<noteq> d"
  by blast

lemma thread_moves:
  assumes "sys_step cap (dm_sys d) (at_worker w pc y)" and "w < length (workers (dm_sys d))"
    and "workers y = workers (dm_sys d)" and "pc \<noteq> workers (dm_sys d) ! w"
    and "\<forall>s. pc \<noteq> Processing s" and "\<forall>s. workers (dm_sys d) ! w \<noteq> Processing s"
  shows "\<exists>d'. daemon_step cap P S E d d' \<and> d' \<noteq> d"
proof -
  have "(case workers (dm_sys d) ! w of Processing s \<Rightarrow> Some s | _ \<Rightarrow> None) = None"
    and "(case pc of Processing s \<Rightarrow> Some s | _ \<Rightarrow> None) = None"
    using assms(5,6) by (auto split: worker_pc.split)
  then have "at_work (at_worker w pc y) = at_work (dm_sys d)"
    using assms(2,3) by (simp add: at_work_def map_update list_update_same_conv)
  from daemon_step.threads [OF assms(1) this] show ?thesis
    by (rule moves) (simp add: at_worker_changes [OF assms(2,4,3)])
qed

lemma worker_moves:
  fixes E :: "'f matheval"
  assumes inv: "daemon_inv cap P S E init n d" and stop: "\<not> running (dm_sys d)"
    and lay: "layout_ok (pr_layout P)" and short: "prints_short E" and T: "turn_ok E T"
    and w: "w < length (workers (dm_sys d))" and stays: "\<forall>s. workers (dm_sys d) ! w \<noteq> Left s"
  shows "\<exists>d'. daemon_step cap P S E d d' \<and> d' \<noteq> d"
proof (cases "workers (dm_sys d) ! w")
  note D = daemon_invD [OF inv]
  { case Waiting
    have "sys_step cap (dm_sys d) (at_worker w (Left None) (dm_sys d))" by (rule sys_step.leave [OF w Waiting stop])
    then show ?thesis
      by (rule thread_moves) (simp_all add: Waiting w) }
  { case (Popped s)
    have s: "s < length init" using sys_inv_holder [OF D(1) w] Popped by simp
    obtain y got where y: "rb_sensor_trylock s (dm_sys d) = (y, got)" by fastforce
    note yf = rb_sensor_trylock_fields [OF y]
    show ?thesis
    proof (cases got)
      case False
      have "sys_step cap (dm_sys d) (at_worker w (Skipped s) y)"
        using sys_step.trylock [OF w Popped y] False by simp
      then show ?thesis
        by (rule thread_moves) (simp_all add: Popped w yf)
    next
      case True
      with y have y: "rb_sensor_trylock s (dm_sys d) = (y, True)" by simp
      have "sensor_ok E (dm_sensors d ! s)"
        using D(6) [OF s free_lock_at_rest [OF D(1) s y]] by (simp add: at_rest_def)
      then obtain W' rp where "start_pass S \<lparr>pm_session = False, pm_ctx = True, pm_current = False\<rparr> (dm_worker d) (dm_sensors d ! s) = Inr (W', rp)"
        using start_pass_under_way [of E _ "\<lparr>pm_session = False, pm_ctx = True, pm_current = False\<rparr>"] by fastforce
      from daemon_step.begins [OF w Popped y _ this] show ?thesis
        by (rule moves) (simp_all add: Popped w yf at_worker_changes)
    qed }
  { case (Processing s)
    then have work: "at_work (dm_sys d) ! w = Some s" using at_work_nth [OF w] by simp
    from D(7) [OF _ work] w D(2) obtain rp s1 out1 PM W' sent
      and ps :: "(pass_mem \<times> (nat \<Rightarrow> 'f turn) \<times> worker_info) list" and turns :: "nat \<Rightarrow> 'f turn"
      where rp: "dm_passes d ! w = Some rp" and way: "under_way P S E s1 PM turns W' rp (dm_sensors d ! s) sent"
      unfolding in_pass_def by auto
    show ?thesis
    proof (cases "pass_over (dm_sensors d ! s) rp")
      case True
      from daemon_step.ends [OF w Processing rp True] show ?thesis
        by (rule moves) (simp add: Processing w at_worker_changes)
    next
      case False
      from turn_pass_under_way [OF way False T lay short] obtain s' rp' now_sent
        where t: "turn_pass P T (dm_sensors d ! s) rp = Inr (s', rp', now_sent)" by blast
      then have "rp' \<noteq> rp" using turn_pass_keeps [OF t] by auto
      then have "(dm_passes d)[w := Some rp'] \<noteq> dm_passes d" using rp w D(2,4) by (auto simp: list_update_same_conv)
      then show ?thesis using moves [OF daemon_step.turn [OF w Processing rp False T t]] by simp
    qed }
  { case (Unlocked s)
    have "sys_step cap (dm_sys d) (at_worker w Waiting (rb_sensor_put s (dm_sys d)))"
      by (rule sys_step.put [OF w]) (simp add: Unlocked)
    then show ?thesis by (rule thread_moves) (simp_all add: Unlocked w) }
  { case (Skipped s)
    have "sys_step cap (dm_sys d) (at_worker w Waiting (rb_sensor_put s (dm_sys d)))"
      by (rule sys_step.put [OF w]) (simp add: Skipped)
    then show ?thesis by (rule thread_moves) (simp_all add: Skipped w) }
  { case (Left s)
    with stays show ?thesis by blast }
qed

lemma someone_moves:
  assumes inv: "daemon_inv cap P S E init n d" and stop: "\<not> running (dm_sys d)"
    and room: "\<forall>i. main_at (dm_sys d) = Main_got i \<longrightarrow> length (queue (dm_sys d)) < cap"
    and lay: "layout_ok (pr_layout P)" and short: "prints_short E" and T: "turn_ok E T"
    and last: "\<forall>d'. daemon_step cap P S E d d' \<longrightarrow> d' = d"
  shows "all_left (dm_sys d)"
proof -
  have "\<exists>s. pc = Left s" if "pc \<in> set (workers (dm_sys d))" for pc
  proof -
    from that obtain w where "w < length (workers (dm_sys d))" "workers (dm_sys d) ! w = pc" by (auto simp: in_set_conv_nth)
    with worker_moves [OF inv stop lay short T this(1)] last show ?thesis by blast
  qed
  moreover have "main_at (dm_sys d) = Main_left"
  proof (cases "main_at (dm_sys d)")
    case (Main_next i)
    from daemon_step.threads [OF sys_step.main_leave [OF Main_next stop], of cap]
    have "daemon_step cap P S E d (d\<lparr>dm_sys := (dm_sys d)\<lparr>main_at := Main_left\<rparr>\<rparr>)" by (simp add: at_work_def)
    with last have "d\<lparr>dm_sys := (dm_sys d)\<lparr>main_at := Main_left\<rparr>\<rparr> = d" by blast
    then have "main_at (dm_sys (d\<lparr>dm_sys := (dm_sys d)\<lparr>main_at := Main_left\<rparr>\<rparr>)) = main_at (dm_sys d)" by metis
    then show ?thesis by simp
  next
    case (Main_got i)
    let ?y = "(dm_sys d)\<lparr>queue := queue (dm_sys d) @ [i], main_at := Main_next (Suc i)\<rparr>"
    from daemon_step.threads [OF sys_step.main_queue [OF Main_got]] room Main_got
    have "daemon_step cap P S E d (d\<lparr>dm_sys := ?y\<rparr>)" by (simp add: at_work_def)
    with last have "d\<lparr>dm_sys := ?y\<rparr> = d" by blast
    then have "main_at (dm_sys (d\<lparr>dm_sys := ?y\<rparr>)) = main_at (dm_sys d)" by metis
    then show ?thesis using Main_got by simp
  qed
  ultimately show ?thesis by (auto simp: all_left_def list_all_iff)
qed

text \<open>The room in the queue is kept.\<close>

lemma daemon_step_room:
  assumes step: "daemon_step cap P S E d d'" and stop: "\<not> running (dm_sys d)"
    and room: "\<forall>i. main_at (dm_sys d) = Main_got i \<longrightarrow> length (queue (dm_sys d)) < cap"
  shows "\<forall>i. main_at (dm_sys d') = Main_got i \<longrightarrow> length (queue (dm_sys d')) < cap"
  using step
proof cases
  case (threads y)
  from sys_step_stopping(3,4) [OF threads(2) stop] room show ?thesis unfolding threads(1)
    by (metis daemon.select_convs(1) daemon.surjective daemon.update_convs(1) le_less_trans)
next
  case (begins w s y PM W' rp)
  then show ?thesis using room rb_sensor_trylock_fields [OF begins(4)] by simp
qed (use room in simp_all)

lemma shutdown_reaches:
  assumes "(daemon_step cap P S E)\<^sup>*\<^sup>* d d'" and "daemon_inv cap P S E init n d" and "\<not> running (dm_sys d)"
    and "\<forall>i. main_at (dm_sys d) = Main_got i \<longrightarrow> length (queue (dm_sys d)) < cap"
    and small: "cap + n + 2 < 2 ^ 32" and lay: "layout_ok (pr_layout P)" and short: "prints_short E"
  shows "daemon_inv cap P S E init n d' \<and> \<not> running (dm_sys d')
     \<and> (\<forall>i. main_at (dm_sys d') = Main_got i \<longrightarrow> length (queue (dm_sys d')) < cap)"
  using assms(1)
proof induction
  case base
  show ?case using assms by simp
next
  case (step x y)
  from step.IH have inv: "daemon_inv cap P S E init n x" and stop: "\<not> running (dm_sys x)"
    and room: "\<forall>i. main_at (dm_sys x) = Main_got i \<longrightarrow> length (queue (dm_sys x)) < cap" by blast+
  from daemon_inv_step [OF inv step.hyps(2) small lay short]
    daemon_step_stopping [OF inv step.hyps(2) stop small lay short] daemon_step_room [OF step.hyps(2) stop room]
  show ?case by blast
qed

lemma shutdown_is_finite:
  assumes inv: "daemon_inv cap P S E init n d" and stop: "\<not> running (dm_sys d)"
    and small: "cap + n + 2 < 2 ^ 32" and lay: "layout_ok (pr_layout P)" and short: "prints_short E"
  shows "\<not> (\<exists>f. f 0 = d \<and> (\<forall>i. daemon_step cap P S E (f i) (f (Suc i)) \<and> f (Suc i) \<noteq> f i))"
proof
  assume "\<exists>f. f 0 = d \<and> (\<forall>i. daemon_step cap P S E (f i) (f (Suc i)) \<and> f (Suc i) \<noteq> f i)"
  then obtain f where f: "f 0 = d" "\<And>i. daemon_step cap P S E (f i) (f (Suc i))" "\<And>i. f (Suc i) \<noteq> f i" by blast
  have "daemon_inv cap P S E init n (f i) \<and> \<not> running (dm_sys (f i))" for i
  proof (induction i)
    case 0
    show ?case using f(1) inv stop by simp
  next
    case (Suc i)
    then show ?case using daemon_inv_step [OF _ f(2) small lay short] daemon_step_stopping [OF _ f(2) _ small lay short]
      by blast
  qed
  then have "(f (Suc i), f i) \<in> nearer" for i
    using daemon_step_stopping [OF _ f(2) _ small lay short] f(3) by blast
  with wf_nearer show False by (metis wf_no_infinite_down_chainE)
qed

text \<open>Every run from there is finite, and one that cannot go on has let every thread leave.\<close>

lemma shutdown_lets_all_leave:
  assumes "reachable_daemon cap P S E W init n d" and "\<forall>s \<in> set init. sensor_ok E s"
    and "cap + n + 2 < 2 ^ 32" and "layout_ok (pr_layout P)" and "prints_short E" and "turn_ok E T"
    and "\<not> running (dm_sys d)" and "\<forall>i. main_at (dm_sys d) = Main_got i \<longrightarrow> length (queue (dm_sys d)) < cap"
  shows "\<not> (\<exists>f. f 0 = d \<and> (\<forall>i. daemon_step cap P S E (f i) (f (Suc i)) \<and> f (Suc i) \<noteq> f i))"
    and "(daemon_step cap P S E)\<^sup>*\<^sup>* d d' \<Longrightarrow> \<forall>x. daemon_step cap P S E d' x \<longrightarrow> x = d' \<Longrightarrow> all_left (dm_sys d')"
proof -
  note inv = daemon_inv_reachable [OF assms(1-5)]
  show "\<not> (\<exists>f. f 0 = d \<and> (\<forall>i. daemon_step cap P S E (f i) (f (Suc i)) \<and> f (Suc i) \<noteq> f i))"
    by (rule shutdown_is_finite [OF inv assms(7,3,4,5)])
  assume steps: "(daemon_step cap P S E)\<^sup>*\<^sup>* d d'" and last: "\<forall>x. daemon_step cap P S E d' x \<longrightarrow> x = d'"
  note d' = shutdown_reaches [OF steps inv assms(7,8,3,4,5)]
  from someone_moves [OF conjunct1 [OF d'] conjunct1 [OF conjunct2 [OF d']] conjunct2 [OF conjunct2 [OF d']]
      assms(4-6) last] show "all_left (dm_sys d')" .
qed

section \<open>The whole program\<close>

definition program_sensors :: "'j program \<Rightarrow> 'j rb_sensor list" where
  "program_sensors p = map the (rb_array_contents (pg_sensors p))"

text \<open>No sensor of the file has a monitor with the empty split token.\<close>

definition splits_ok :: "'j program \<Rightarrow> bool" where
  "splits_ok p \<longleftrightarrow>
     (\<forall>s \<in> set (program_sensors p). \<forall>mons ms.
        sen_monitors s = Some mons \<longrightarrow> rb_array_contents mons = map Some ms \<longrightarrow> split_tokens_ok ms)"

lemma program_sensors_ok:
  assumes "main_start J E V default_config argv = (es, Goes_on p)"
    and deps: "\<And>i. sm_deps (w_sensor_mem V i)" and toks: "splits_ok p"
  shows "\<forall>s \<in> set (program_sensors p). sensor_ok E s"
proof
  fix s assume s: "s \<in> set (program_sensors p)"
  obtain cfg where "parse_sensors J E (w_array_mem V) (w_sensor_mem V) (pg_worker p) cfg = Inr (Some (pg_sensors p))"
    using main_start_goes_on [OF assms(1)] by blast
  from parse_sensors_contents [OF this] obtain a where a: "rb_array_contents (pg_sensors p) =
      map Some (List.map_filter (\<lambda>i. accepted (parse_rb_sensor J E (w_sensor_mem V i) (jc_array_idx J a i) (pg_worker p)))
                 [0..<jc_array_length J a])" by blast
  with s obtain i where "accepted (parse_rb_sensor J E (w_sensor_mem V i) (jc_array_idx J a i) (pg_worker p)) = Some s"
    by (auto simp: program_sensors_def List.map_filter_def)
  then have "parse_rb_sensor J E (w_sensor_mem V i) (jc_array_idx J a i) (pg_worker p) = Inr (Some s)"
    by (auto simp: accepted_def split: sum.splits)
  from parsed_sensor_ok [OF this deps] toks s show "sensor_ok E s" unfolding splits_ok_def by blast
qed

end
