(* ===== verification/Zk_Context.thy ===== *)
theory Zk_Context
  imports Zk_Progress "HOL-Library.Multiset"
begin

text \<open>
  The connection of src/rb_zk.c (\<open>struct rb_zk\<close>): the locks that wait for a connection, the locks that
  were asked for, what is queued for the thread of the connection, and what happens to all of them
  when the connection comes and goes. A lock carries what its user gave as opaque pointer; the user's
  error callback is a parameter, the locks it asks for.
\<close>

section \<open>The state\<close>

text \<open>What \<open>rd_thread_func_call1\<close> hands to the thread.\<close>

datatype thread_call = Do_pending_locks | Reset_context

record 'u zk_context =
  zc_connected_to :: bool                          \<comment> \<open>\<open>handler\<close> is not null\<close>
  zc_pending :: "(zk_mutex \<times> 'u) list"
  zc_leaders :: "(zk_mutex \<times> 'u) list"
  zc_calls :: "thread_call list"

text \<open>What the users of the locks are told: a change of status, or an error, after which the lock is freed.\<close>

datatype 'u lock_event = Lock_status 'u bool | Lock_error 'u string int

definition add_call :: "thread_call \<Rightarrow> 'u zk_context \<Rightarrow> 'u zk_context" where
  "add_call c ctx = ctx\<lparr>zc_calls := zc_calls ctx @ [c]\<rparr>"

section \<open>Operations\<close>

text \<open>\<open>rb_zk_mutex_lock\<close> of a path for a user; its allocations succeed.\<close>

definition rb_zk_mutex_lock :: "string \<times> 'u \<Rightarrow> 'u zk_context \<Rightarrow> 'u zk_context" where
  "rb_zk_mutex_lock request ctx =
     add_call Do_pending_locks
       (ctx\<lparr>zc_pending := zc_pending ctx @ [(rb_zk_mutex_create_entry (fst request), snd request)]\<rparr>)"

text \<open>The requests of an error callback, in order.\<close>

definition lock_all :: "(string \<times> 'u) list \<Rightarrow> 'u zk_context \<Rightarrow> 'u zk_context" where
  "lock_all requests ctx = foldl (\<lambda>c r. rb_zk_mutex_lock r c) ctx requests"

text \<open>
  The loop of \<open>zk_watcher_do_pending_locks\<close>, \<open>n\<close> counting its turns and \<open>zk n\<close> being what the client
  returns in turn \<open>n\<close>. The next element is read before the turn, so the loop ends after the last
  element it saw, whatever an error callback appended meanwhile.
\<close>

partial_function (option) pending_loop ::
    "('u \<Rightarrow> (string \<times> 'u) list) \<Rightarrow> (nat \<Rightarrow> zk_rc) \<Rightarrow> nat \<Rightarrow> 'u zk_context \<Rightarrow> zk_effect list
      \<Rightarrow> ('u zk_context \<times> zk_effect list) option" where
  "pending_loop on_error zk n ctx es =
     (case zc_pending ctx of
        [] \<Rightarrow> Some (ctx, es)
      | i # aux \<Rightarrow>
          let fx = rb_zk_mutex_lock0 (zk n) (fst i);
              ctx' = (if Mutex_freed \<in> set fx
                      then lock_all (on_error (snd i)) (ctx\<lparr>zc_pending := aux\<rparr>)
                      else ctx\<lparr>zc_pending := aux, zc_leaders := zc_leaders ctx @ [i]\<rparr>)
          in if aux = [] then Some (ctx', es @ fx)
             else pending_loop on_error zk (Suc n) ctx' (es @ fx))"

definition zk_watcher_do_pending_locks ::
    "('u \<Rightarrow> (string \<times> 'u) list) \<Rightarrow> bool \<Rightarrow> (nat \<Rightarrow> zk_rc) \<Rightarrow> 'u zk_context
      \<Rightarrow> ('u zk_context \<times> zk_effect list) outcome" where
  "zk_watcher_do_pending_locks on_error connected zk ctx =
     (if \<not> connected then Inr (ctx, []) else returned (pending_loop on_error zk 0 ctx []))"

text \<open>
  \<open>zk_watcher_clean_mutex\<close>: the list is emptied, an expired session is reset, and every lock is told
  that it does not lead, then that it failed, and is freed.
\<close>

definition zk_watcher_clean_mutex ::
    "('u \<Rightarrow> (string \<times> 'u) list) \<Rightarrow> bool \<Rightarrow> string \<Rightarrow> int \<Rightarrow> 'u zk_context
      \<Rightarrow> 'u zk_context \<times> 'u lock_event list" where
  "zk_watcher_clean_mutex on_error expired buf state ctx =
     (let ctx' = (if expired then add_call Reset_context else id) (ctx\<lparr>zc_leaders := []\<rparr>)
      in foldl (\<lambda>(c, evs) (mutex, user).
             (lock_all (on_error user) c, evs @ [Lock_status user False, Lock_error user buf state]))
           (ctx', []) (zc_leaders ctx))"

definition zk_watcher ::
    "('u \<Rightarrow> (string \<times> 'u) list) \<Rightarrow> bool \<Rightarrow> bool \<Rightarrow> string \<Rightarrow> int \<Rightarrow> 'u zk_context
      \<Rightarrow> 'u zk_context \<times> 'u lock_event list" where
  "zk_watcher on_error session_connected expired buf state ctx =
     (if session_connected then (add_call Do_pending_locks ctx, [])
      else zk_watcher_clean_mutex on_error expired buf state ctx)"

text \<open>\<open>zookeeper_init\<close> may return null; the old handle is closed before.\<close>

definition reset_zk_context :: "bool \<Rightarrow> 'u zk_context \<Rightarrow> 'u zk_context" where
  "reset_zk_context init_ok ctx = ctx\<lparr>zc_connected_to := init_ok\<rparr>"

definition rb_zk_init :: "bool \<Rightarrow> bool \<Rightarrow> 'u zk_context option" where
  "rb_zk_init mem init_ok =
     (if \<not> mem then None
      else Some (reset_zk_context init_ok
             \<lparr>zc_connected_to = False, zc_pending = [], zc_leaders = [], zc_calls = []\<rparr>))"

text \<open>A wrapper of the synchronous call, with the path, the value and the flags it is given.\<close>

definition rb_zk_create_node :: "(string \<Rightarrow> string \<Rightarrow> int \<Rightarrow> int) \<Rightarrow> string \<Rightarrow> string \<Rightarrow> int \<Rightarrow> int" where
  "rb_zk_create_node zoo_create path value' flags = zoo_create path value' flags"

text \<open>
  \<open>rb_zk_done\<close>: the thread is joined and the handle closed, then the locks of both lists are freed, without
  telling their users.
\<close>

datatype zk_end = Thread_joined | Handle_closed | Lock_done zk_effect | Tree_destroyed | Context_freed

definition rb_zk_mutex_list_done :: "(zk_mutex \<times> 'u) list \<Rightarrow> zk_effect list" where
  "rb_zk_mutex_list_done ms = concat (map (\<lambda>m. rb_zk_mutex_done (fst m)) ms)"

definition rb_zk_done :: "'u zk_context \<Rightarrow> zk_end list" where
  "rb_zk_done ctx =
     [Thread_joined, Handle_closed] @ map Lock_done (rb_zk_mutex_list_done (zc_leaders ctx))
     @ map Lock_done (rb_zk_mutex_list_done (zc_pending ctx)) @ [Tree_destroyed, Context_freed]"

section \<open>What the operations do to the attempts\<close>

text \<open>Every attempt to get a lock is pending or was asked for.\<close>

definition attempts :: "'u zk_context \<Rightarrow> 'u list" where
  "attempts ctx = map snd (zc_pending ctx @ zc_leaders ctx)"

text \<open>At the end every attempt is freed once, and no error callback is told.\<close>

lemma list_done_frees:
  "count_list (rb_zk_mutex_list_done ms) Mutex_freed = length ms"
  "Mutex_error e rc \<notin> set (rb_zk_mutex_list_done ms)"
  by (induction ms) (simp_all add: rb_zk_mutex_list_done_def rb_zk_mutex_done_def rb_zk_mutex_error_done_def)

lemma rb_zk_done_frees:
  "count_list (rb_zk_done ctx) (Lock_done Mutex_freed) = length (attempts ctx)"
  "Lock_done (Mutex_error e rc) \<notin> set (rb_zk_done ctx)"
proof -
  have "count_list (map Lock_done es) (Lock_done x) = count_list es x" for es x by (induction es) auto
  then show "count_list (rb_zk_done ctx) (Lock_done Mutex_freed) = length (attempts ctx)"
    by (simp add: rb_zk_done_def attempts_def list_done_frees)
  show "Lock_done (Mutex_error e rc) \<notin> set (rb_zk_done ctx)"
    using list_done_frees(2) by (auto simp: rb_zk_done_def)
qed

lemma lock_all_fields [simp]:
  "zc_leaders (lock_all rs ctx) = zc_leaders ctx"
  "zc_pending (lock_all rs ctx)
     = zc_pending ctx @ map (\<lambda>r. (rb_zk_mutex_create_entry (fst r), snd r)) rs"
proof (induction rs arbitrary: ctx)
  case (Cons r rs)
  { case 1 then show ?case using Cons(1) by (simp add: lock_all_def rb_zk_mutex_lock_def add_call_def) }
  { case 2 then show ?case using Cons(2) by (simp add: lock_all_def rb_zk_mutex_lock_def add_call_def) }
qed (simp_all add: lock_all_def)

lemma add_call_fields [simp]:
  "zc_leaders (add_call c ctx) = zc_leaders ctx" "zc_pending (add_call c ctx) = zc_pending ctx"
  by (simp_all add: add_call_def)

lemma clean_fold:
  "foldl (\<lambda>(c, evs) (mutex, user).
       (lock_all (on_error user) c, evs @ [Lock_status user False, Lock_error user buf state])) (c, evs) ls
   = (lock_all (concat (map (\<lambda>l. on_error (snd l)) ls)) c,
      evs @ concat (map (\<lambda>l. [Lock_status (snd l) False, Lock_error (snd l) buf state]) ls))"
proof (induction ls arbitrary: c evs)
  case Nil
  show ?case by (simp add: lock_all_def)
next
  case (Cons l ls)
  have "lock_all ys (lock_all xs c) = lock_all (xs @ ys) c" for xs ys by (simp add: lock_all_def)
  with Cons show ?case by (cases l) simp
qed

lemma clean_fields:
  "zc_leaders (fst (zk_watcher_clean_mutex on_error expired buf state ctx)) = []"
  "zc_pending (fst (zk_watcher_clean_mutex on_error expired buf state ctx)) = zc_pending ctx
     @ map (\<lambda>r. (rb_zk_mutex_create_entry (fst r), snd r)) (concat (map (\<lambda>l. on_error (snd l)) (zc_leaders ctx)))"
  "snd (zk_watcher_clean_mutex on_error expired buf state ctx) =
     concat (map (\<lambda>l. [Lock_status (snd l) False, Lock_error (snd l) buf state]) (zc_leaders ctx))"
  by (simp_all add: zk_watcher_clean_mutex_def clean_fold)

text \<open>While the requests are accepted the loop asks for every pending lock, in order.\<close>

definition accepting :: "(nat \<Rightarrow> zk_rc) \<Rightarrow> bool" where
  "accepting zk \<longleftrightarrow> (\<forall>n p. zk n (Acreate_lock p) = 0)"

lemma lock0_accepted: "accepting zk \<Longrightarrow> rb_zk_mutex_lock0 (zk n) m = [Called (Acreate_lock (mx_path m))]"
  by (simp add: accepting_def rb_zk_mutex_lock0_def)

lemma pending_loop_accepted:
  assumes "accepting zk"
  shows "pending_loop on_error zk n ctx es =
     Some (ctx\<lparr>zc_pending := [], zc_leaders := zc_leaders ctx @ zc_pending ctx\<rparr>,
           es @ map (\<lambda>i. Called (Acreate_lock (mx_path (fst i)))) (zc_pending ctx))"
proof (induction "zc_pending ctx" arbitrary: n ctx es)
  case Nil
  then show ?case by (subst pending_loop.simps) (simp flip: Nil)
next
  case (Cons i aux)
  let ?ctx = "ctx\<lparr>zc_pending := aux, zc_leaders := zc_leaders ctx @ [i]\<rparr>"
  let ?es = "es @ [Called (Acreate_lock (mx_path (fst i)))]"
  have "pending_loop on_error zk n ctx es
      = (if aux = [] then Some (?ctx, ?es) else pending_loop on_error zk (Suc n) ?ctx ?es)"
    by (subst pending_loop.simps) (simp add: lock0_accepted [OF assms] flip: Cons(2))
  also have "\<dots> = Some (ctx\<lparr>zc_pending := [], zc_leaders := zc_leaders ctx @ i # aux\<rparr>,
      ?es @ map (\<lambda>i. Called (Acreate_lock (mx_path (fst i)))) aux)"
    using Cons(1) [of ?ctx "Suc n" ?es] by simp
  finally show ?case by (simp flip: Cons(2))
qed

text \<open>
  When every request is refused, two pending locks are enough for the loop to go on for ever: each
  turn appends the lock the error callback asks for.
\<close>

definition refusing :: "(nat \<Rightarrow> zk_rc) \<Rightarrow> bool" where
  "refusing zk \<longleftrightarrow> (\<forall>n p. zk n (Acreate_lock p) \<noteq> 0)"

lemma pending_loop_refused:
  assumes zk: "refusing zk" and retry: "\<And>u. on_error u \<noteq> []" and two: "2 \<le> length (zc_pending ctx)"
  shows "pending_loop on_error zk n ctx es = None"
proof (rule ccontr)
  assume "pending_loop on_error zk n ctx es \<noteq> None"
  then obtain r where r: "pending_loop on_error zk n ctx es = Some r" by auto
  let ?P = "\<lambda>on_error zk n ctx es r. refusing zk \<and> (\<forall>u. on_error u \<noteq> []) \<longrightarrow> \<not> 2 \<le> length (zc_pending ctx)"
  have "?P on_error zk n ctx es r"
  proof (rule pending_loop.raw_induct [where P = ?P, OF _ r], intro impI notI)
    fix f and on_error :: "'a \<Rightarrow> (string \<times> 'a) list" and zk :: "nat \<Rightarrow> zk_rc" and n
      and ctx :: "'a zk_context" and es r
    assume IH: "\<And>on_error zk n (ctx :: 'a zk_context) es r. f on_error zk n ctx es = Some r \<Longrightarrow>
        refusing zk \<and> (\<forall>u. on_error u \<noteq> []) \<longrightarrow> \<not> 2 \<le> length (zc_pending ctx)"
      and eq: "(case zc_pending ctx of
        [] \<Rightarrow> Some (ctx, es)
      | i # aux \<Rightarrow>
          let fx = rb_zk_mutex_lock0 (zk n) (fst i);
              ctx' = (if Mutex_freed \<in> set fx
                      then lock_all (on_error (snd i)) (ctx\<lparr>zc_pending := aux\<rparr>)
                      else ctx\<lparr>zc_pending := aux, zc_leaders := zc_leaders ctx @ [i]\<rparr>)
          in if aux = [] then Some (ctx', es @ fx) else f on_error zk (Suc n) ctx' (es @ fx)) = Some r"
      and hyp: "refusing zk \<and> (\<forall>u. on_error u \<noteq> [])" and two: "2 \<le> length (zc_pending ctx)"
    from two obtain i aux where i: "zc_pending ctx = i # aux" by (cases "zc_pending ctx") auto
    with two have "aux \<noteq> []" by auto
    note p = i this
    have fx: "Mutex_freed \<in> set (rb_zk_mutex_lock0 (zk n) (fst i))"
      using hyp by (simp add: refusing_def rb_zk_mutex_lock0_def Let_def)
    let ?ctx = "lock_all (on_error (snd i)) (ctx\<lparr>zc_pending := aux\<rparr>)"
    have "f on_error zk (Suc n) ?ctx (es @ rb_zk_mutex_lock0 (zk n) (fst i)) = Some r"
      using eq p fx by (simp add: Let_def)
    from IH [OF this] hyp have "\<not> 2 \<le> length (zc_pending ?ctx)" by simp
    moreover have "0 < length (on_error (snd i))" using hyp by simp
    moreover have "0 < length aux" using p(2) by simp
    ultimately show False by simp
  qed
  then show False using zk retry two by simp
qed

section \<open>A user that tries again\<close>

text \<open>
  Both users of the locks ask again in their error callback, for a lock of the same kind. Then no
  attempt is lost when the connection is, and none is doubled.
\<close>

locale retrying_user =
  fixes on_error :: "'u \<Rightarrow> (string \<times> 'u) list"
    and kind :: "'u \<Rightarrow> 'k"
    and leaf :: "'k \<Rightarrow> string"
  assumes retries: "\<exists>v. on_error u = [(leaf (kind u), v)] \<and> kind v = kind u"
begin

lemma retry_kinds: "map (\<lambda>r. kind (snd r)) (concat (map (\<lambda>l. on_error (snd l)) ls)) = map (\<lambda>l. kind (snd l)) ls"
proof (induction ls)
  case (Cons l ls)
  obtain v where "on_error (snd l) = [(leaf (kind (snd l)), v)]" "kind v = kind (snd l)" using retries by blast
  with Cons show ?case by simp
qed simp

lemma retry_paths:
  "map fst (concat (map (\<lambda>l. on_error (snd l)) ls)) = map (\<lambda>l. leaf (kind (snd l))) ls"
proof (induction ls)
  case (Cons l ls)
  obtain v where "on_error (snd l) = [(leaf (kind (snd l)), v)]" using retries by blast
  with Cons show ?case by simp
qed simp

lemma clean_keeps_attempts:
  "mset (map kind (attempts (fst (zk_watcher_clean_mutex on_error expired buf state ctx))))
     = mset (map kind (attempts ctx))"
  using retry_kinds [of "zc_leaders ctx"] by (simp add: attempts_def clean_fields comp_def)

text \<open>A disconnection and a connection: every lock is asked for again, of the same kind, in its place.\<close>

lemma reconnection:
  assumes "accepting zk" and "zc_pending ctx = []"
  shows "\<exists>ctx'. zk_watcher_do_pending_locks on_error True zk
       (fst (zk_watcher on_error True False buf' state'
         (fst (zk_watcher on_error False expired buf state ctx)))) =
       Inr (ctx', map (\<lambda>l. Called (Acreate_lock (leaf (kind (snd l))))) (zc_leaders ctx))
     \<and> zc_pending ctx' = []
     \<and> map (\<lambda>l. (mx_path (fst l), kind (snd l))) (zc_leaders ctx')
         = map (\<lambda>l. (leaf (kind (snd l)), kind (snd l))) (zc_leaders ctx)"
proof -
  let ?rs = "concat (map (\<lambda>l. on_error (snd l)) (zc_leaders ctx))"
  let ?c = "fst (zk_watcher on_error True False buf' state' (fst (zk_watcher on_error False expired buf state ctx)))"
  have c: "zc_pending ?c = map (\<lambda>r. (rb_zk_mutex_create_entry (fst r), snd r)) ?rs" "zc_leaders ?c = []"
    using assms(2) by (simp_all add: zk_watcher_def clean_fields)
  have paths: "map (\<lambda>i. Called (Acreate_lock (mx_path (fst i)))) (zc_pending ?c)
      = map (\<lambda>l. Called (Acreate_lock (leaf (kind (snd l))))) (zc_leaders ctx)"
    using arg_cong [OF retry_paths, of "map (\<lambda>p. Called (Acreate_lock p))" "zc_leaders ctx"]
    by (simp add: c rb_zk_mutex_create_entry_def comp_def)
  have "map (\<lambda>l. (mx_path (fst l), kind (snd l))) (zc_pending ?c) = zip (map fst ?rs) (map (\<lambda>r. kind (snd r)) ?rs)"
    unfolding c by (simp add: rb_zk_mutex_create_entry_def zip_map_map zip_same_conv_map comp_def)
  also have "\<dots> = map (\<lambda>l. (leaf (kind (snd l)), kind (snd l))) (zc_leaders ctx)"
    unfolding retry_paths retry_kinds by (simp add: zip_map_map zip_same_conv_map comp_def)
  finally have again: "map (\<lambda>l. (mx_path (fst l), kind (snd l))) (zc_pending ?c) = \<dots>" .
  show ?thesis
    using pending_loop_accepted [OF assms(1), of on_error 0 ?c "[]"] paths again c(2)
    by (simp add: zk_watcher_do_pending_locks_def)
qed

end

end
