(* ===== verification/Monitor_Zk.thy ===== *)
theory Monitor_Zk
  imports Zk_Context Json
begin

text \<open>
  The distribution of sensors over ZooKeeper (src/rb_monitor_zk.c): lists of strings, the callbacks of
  the queue that take sensors out, the leader that puts sensors in at every period, and the start.
\<close>

section \<open>Lists of strings\<close>

record string_list_node =
  sn_str :: "char list"
  sn_flags :: nat

definition STRING_LIST_STR_F_COPY :: nat where "STRING_LIST_STR_F_COPY = 1"
definition STRING_LIST_STR_F_FREE :: nat where "STRING_LIST_STR_F_FREE = 2"

type_synonym string_list = "string_list_node list"

definition string_list_init :: string_list where
  "string_list_init = []"

text \<open>
  The \<open>len\<close> bytes at \<open>str\<close>, copied when the flag says so, which every caller does. A negative
  length becomes the greatest \<open>size_t\<close>: the block has no room for the text, and the copy goes on past
  it.
\<close>

definition string_list_append ::
    "bool \<Rightarrow> string_list \<Rightarrow> char list \<Rightarrow> int \<Rightarrow> nat \<Rightarrow> (string_list \<times> bool) outcome" where
  "string_list_append mem l str len flags =
     (if \<not> mem then Inr (l, False)
      else if len < 0 then Inl Buffer_overflow
      else if length str < nat len then Inl Out_of_bounds
      else Inr (l @ [\<lparr>sn_str = take (nat len) str, sn_flags = flags\<rparr>], True))"

definition string_list_append_const ::
    "bool \<Rightarrow> string_list \<Rightarrow> char list \<Rightarrow> int \<Rightarrow> nat \<Rightarrow> (string_list \<times> bool) outcome" where
  "string_list_append_const = string_list_append"

text \<open>The functions are called with every string in order; whether the nodes are freed shows nowhere else.\<close>

definition string_list_foreach_arg0 :: "string_list \<Rightarrow> (char list \<Rightarrow> 'a \<Rightarrow> 'a) \<Rightarrow> 'a \<Rightarrow> 'a" where
  "string_list_foreach_arg0 l f arg = foldl (\<lambda>a n. f (sn_str n) a) arg l"

text \<open>All elements of the second list to the end of the first: both lists afterwards.\<close>

definition string_list_move :: "string_list \<Rightarrow> string_list \<Rightarrow> string_list \<times> string_list" where
  "string_list_move l1 l2 = (l1 @ l2, [])"

section \<open>The state\<close>

definition ZOOKEEPER_TASKS_PATH :: string where "ZOOKEEPER_TASKS_PATH = ''/rb_monitor/sensors''"
definition ZOOKEEPER_TASKS_PATH_LEAF :: string where
  "ZOOKEEPER_TASKS_PATH_LEAF = ''/rb_monitor/sensors/sensor_''"
definition ZOOKEEPER_MUTEX_PATH :: string where "ZOOKEEPER_MUTEX_PATH = ''/rb_monitor/lock''"
definition ZOOKEEPER_MUTEX_PATH_LEAF :: string where
  "ZOOKEEPER_MUTEX_PATH_LEAF = ZOOKEEPER_MUTEX_PATH @ ''/sensors_list_''"
definition ZOOKEEPER_LEADER_PATH :: string where "ZOOKEEPER_LEADER_PATH = ''/rb_monitor/leader''"
definition ZOOKEEPER_LEADER_LEAF_NAME :: string where
  "ZOOKEEPER_LEADER_LEAF_NAME = ZOOKEEPER_LEADER_PATH @ ''/leader_prop_''"

text \<open>The opaque pointer of a lock: the leader's is the monitor, the queue's a queue element.\<close>

datatype lock_user = Leader_lock | Queue_lock queue_element

text \<open>
  What the workers' queue holds: pointers. The main thread puts sensors there, this file JSON objects.
\<close>

datatype 'j queued = Queued_sensor nat | Queued_json 'j

record 'j rb_monitor_zk =
  mz_push_timeout :: "64 word"
  mz_pop_sensors_list :: string_list
  mz_push_sensors_list :: string_list
  mz_i_am_leader :: bool
  mz_timer :: "64 word option"          \<comment> \<open>the interval of the timer while it runs\<close>
  mz_workers_queue :: "'j queued list"
  mz_zk :: "lock_user zk_context"

section \<open>Taking sensors out\<close>

text \<open>\<open>sensors_queue_poll_loop_start\<close>: a new element, and the lock of the queue asked for it.\<close>

definition queue_request :: "string \<times> lock_user" where
  "queue_request =
     (ZOOKEEPER_MUTEX_PATH_LEAF, Queue_lock (rb_zk_queue_pop (new_queue_element ZOOKEEPER_TASKS_PATH_LEAF)))"

definition sensors_queue_poll_loop_start :: "'j rb_monitor_zk \<Rightarrow> 'j rb_monitor_zk" where
  "sensors_queue_poll_loop_start z = z\<lparr>mz_zk := rb_zk_mutex_lock queue_request (mz_zk z)\<rparr>"

definition rb_zk_pop_error_cb :: "'j rb_monitor_zk \<Rightarrow> 'j rb_monitor_zk" where
  "rb_zk_pop_error_cb z = sensors_queue_poll_loop_start z"

text \<open>\<open>parse\<close> stands for \<open>json_tokener_parse_verbose\<close>, which reads up to the terminating zero.\<close>

definition rb_monitor_zk_add_sensor_to_monitor_queue ::
    "(string \<Rightarrow> 'j option) \<Rightarrow> char list \<Rightarrow> 'j queued list \<Rightarrow> 'j queued list" where
  "rb_monitor_zk_add_sensor_to_monitor_queue parse str q =
     (case parse (c_str str) of None \<Rightarrow> q | Some obj \<Rightarrow> q @ [Queued_json obj])"

definition rb_monitor_zk_add_popped_sensors_to_monitor_queue ::
    "(string \<Rightarrow> 'j option) \<Rightarrow> 'j rb_monitor_zk \<Rightarrow> 'j rb_monitor_zk" where
  "rb_monitor_zk_add_popped_sensors_to_monitor_queue parse z =
     (let (laux, popped) = string_list_move string_list_init (mz_pop_sensors_list z)
      in z\<lparr>mz_pop_sensors_list := popped,
           mz_workers_queue := string_list_foreach_arg0 laux
             (rb_monitor_zk_add_sensor_to_monitor_queue parse) (mz_workers_queue z)\<rparr>)"

definition rb_zk_pop_data_cb ::
    "bool \<Rightarrow> char list \<Rightarrow> int \<Rightarrow> 'j rb_monitor_zk \<Rightarrow> 'j rb_monitor_zk outcome" where
  "rb_zk_pop_data_cb mem value' value_len z =
     obind (string_list_append_const mem (mz_pop_sensors_list z) value' value_len STRING_LIST_STR_F_COPY)
       (\<lambda>(l, _). Inr (z\<lparr>mz_pop_sensors_list := l\<rparr>))"

definition rb_zk_pop_delete_completed_cb :: "'j rb_monitor_zk \<Rightarrow> 'j rb_monitor_zk" where
  "rb_zk_pop_delete_completed_cb z = sensors_queue_poll_loop_start z"

section \<open>Putting sensors in\<close>

definition rb_monitor_push_sensor :: "char list \<Rightarrow> zk_effect list \<Rightarrow> zk_effect list" where
  "rb_monitor_push_sensor str es = es @ rb_zk_queue_push ZOOKEEPER_TASKS_PATH_LEAF str"

definition rb_monitor_leader_push_sensors :: "'j rb_monitor_zk \<Rightarrow> zk_effect list" where
  "rb_monitor_leader_push_sensors z =
     string_list_foreach_arg0 (mz_push_sensors_list z) rb_monitor_push_sensor []"

section \<open>The leader\<close>

definition leader_request :: "string \<times> lock_user" where
  "leader_request = (ZOOKEEPER_LEADER_LEAF_NAME, Leader_lock)"

definition try_to_be_master :: "'j rb_monitor_zk \<Rightarrow> 'j rb_monitor_zk" where
  "try_to_be_master z = z\<lparr>mz_zk := rb_zk_mutex_lock leader_request (mz_zk z)\<rparr>"

definition leader_lock_status_chage_cb :: "bool \<Rightarrow> 'j rb_monitor_zk \<Rightarrow> 'j rb_monitor_zk" where
  "leader_lock_status_chage_cb obtained z =
     z\<lparr>mz_i_am_leader := obtained,
       mz_timer := (if obtained then Some (mz_push_timeout z * 1000) else None)\<rparr>"

definition leader_lock_error_cb :: "'j rb_monitor_zk \<Rightarrow> 'j rb_monitor_zk" where
  "leader_lock_error_cb z = try_to_be_master z"

text \<open>The error callback of a lock, by its user; the queue's also drops its element.\<close>

definition lock_error_cb :: "lock_user \<Rightarrow> 'j rb_monitor_zk \<Rightarrow> 'j rb_monitor_zk" where
  "lock_error_cb u z =
     (case u of Leader_lock \<Rightarrow> leader_lock_error_cb z | Queue_lock q \<Rightarrow> rb_zk_pop_error_cb z)"

text \<open>The locks an error callback asks for.\<close>

definition requests_on_error :: "lock_user \<Rightarrow> (string \<times> lock_user) list" where
  "requests_on_error u = (case u of Leader_lock \<Rightarrow> [leader_request] | Queue_lock q \<Rightarrow> [queue_request])"

lemma lock_error_cb_requests:
  "lock_error_cb u z = z\<lparr>mz_zk := lock_all (requests_on_error u) (mz_zk z)\<rparr>"
  by (cases u) (simp_all add: lock_error_cb_def requests_on_error_def lock_all_def leader_lock_error_cb_def
      try_to_be_master_def rb_zk_pop_error_cb_def sensors_queue_poll_loop_start_def)

text \<open>A status callback changes the leader's part only.\<close>

definition lock_told :: "lock_user lock_event \<Rightarrow> 'j rb_monitor_zk \<Rightarrow> 'j rb_monitor_zk" where
  "lock_told e z =
     (case e of Lock_status Leader_lock obtained \<Rightarrow> leader_lock_status_chage_cb obtained z | _ \<Rightarrow> z)"

definition zk_disconnected :: "bool \<Rightarrow> string \<Rightarrow> int \<Rightarrow> 'j rb_monitor_zk \<Rightarrow> 'j rb_monitor_zk" where
  "zk_disconnected expired buf state z =
     (let (ctx, evs) = zk_watcher requests_on_error False expired buf state (mz_zk z)
      in foldl (\<lambda>z e. lock_told e z) (z\<lparr>mz_zk := ctx\<rparr>) evs)"

section \<open>The start\<close>

text \<open>
  The loop over the configured sensors; \<open>to_string\<close> stands for \<open>json_object_to_json_string\<close>. What it
  returns is the number of turns.
\<close>

fun parse_sensors_turns ::
    "('j \<Rightarrow> string option) \<Rightarrow> (nat \<Rightarrow> bool) \<Rightarrow> 'j option list \<Rightarrow> nat \<Rightarrow> string_list \<Rightarrow> (string_list \<times> nat) outcome" where
  "parse_sensors_turns to_string mem [] i l = Inr (l, i)"
| "parse_sensors_turns to_string mem (v # vs) i l =
     (case v of
        None \<Rightarrow> parse_sensors_turns to_string mem vs (Suc i) l
      | Some j \<Rightarrow>
          (case to_string j of
             None \<Rightarrow> parse_sensors_turns to_string mem vs (Suc i) l
           | Some s \<Rightarrow>
               obind (string_list_append_const (mem i) l s (int (length s)) STRING_LIST_STR_F_COPY)
                 (\<lambda>(l', _). parse_sensors_turns to_string mem vs (Suc i) l')))"

definition rb_monitor_zk_parse_sensors ::
    "'j json_c \<Rightarrow> ('j \<Rightarrow> string option) \<Rightarrow> (nat \<Rightarrow> bool) \<Rightarrow> 'j option \<Rightarrow> string_list \<Rightarrow> (string_list \<times> nat) outcome" where
  "rb_monitor_zk_parse_sensors J to_string mem zk_sensors l =
     (case zk_sensors of
        None \<Rightarrow> Inl Null_deref
      | Some a \<Rightarrow> parse_sensors_turns to_string mem
          (map (jc_array_idx J (Some a)) [0..<jc_array_length J (Some a)]) 0 l)"

text \<open>
  \<open>zk_prepare\<close>: the nodes it creates. The copy of \<open>rb_zk_create_recursive_node\<close> needs a byte more than
  its array has; \<open>slack\<close> is what lies unused behind the array.
\<close>

definition zk_prepare :: "nat \<Rightarrow> string list outcome" where
  "zk_prepare slack =
     obind (create_recursive_node (length ZOOKEEPER_TASKS_PATH + slack) ZOOKEEPER_TASKS_PATH) (\<lambda>a.
     obind (create_recursive_node (length ZOOKEEPER_MUTEX_PATH + slack) ZOOKEEPER_MUTEX_PATH) (\<lambda>b.
     obind (create_recursive_node (length ZOOKEEPER_LEADER_PATH + slack) ZOOKEEPER_LEADER_PATH) (\<lambda>c.
       Inr (a @ b @ c))))"

record zk_mem =
  zm_monitor :: bool
  zm_zk :: bool
  zm_node :: "nat \<Rightarrow> bool"

definition init_rbmon_zk ::
    "'j json_c \<Rightarrow> ('j \<Rightarrow> string option) \<Rightarrow> zk_mem \<Rightarrow> bool \<Rightarrow> nat \<Rightarrow> 64 word \<Rightarrow> 'j option \<Rightarrow> 'j queued list
      \<Rightarrow> ('j rb_monitor_zk \<times> string list) option outcome" where
  "init_rbmon_zk J to_string mem init_ok slack push_timeout zk_sensors workers_queue =
     (if \<not> zm_monitor mem then Inr None
      else
        obind (rb_monitor_zk_parse_sensors J to_string (zm_node mem) zk_sensors string_list_init) (\<lambda>(l, _).
          case rb_zk_init (zm_zk mem) init_ok of
            None \<Rightarrow> Inr None
          | Some handler \<Rightarrow>
              obind (zk_prepare slack) (\<lambda>nodes.
                Inr (Some (sensors_queue_poll_loop_start (try_to_be_master
                  \<lparr>mz_push_timeout = push_timeout, mz_pop_sensors_list = string_list_init,
                   mz_push_sensors_list = l, mz_i_am_leader = False, mz_timer = None,
                   mz_workers_queue = workers_queue, mz_zk = handler\<rparr>), nodes)))))"

section \<open>Lemmas\<close>

lemma foreach_append: "string_list_foreach_arg0 l (\<lambda>s a. a @ f s) arg = arg @ concat (map (\<lambda>n. f (sn_str n)) l)"
  by (induction l arbitrary: arg) (simp_all add: string_list_foreach_arg0_def)

text \<open>Every popped text that is JSON is queued, once and in order, as a JSON object.\<close>

definition parsed_texts :: "(string \<Rightarrow> 'j option) \<Rightarrow> string_list \<Rightarrow> 'j list" where
  "parsed_texts parse l = List.map_filter (\<lambda>n. parse (c_str (sn_str n))) l"

lemma add_popped_sensors:
  "rb_monitor_zk_add_popped_sensors_to_monitor_queue parse z =
     z\<lparr>mz_pop_sensors_list := [],
       mz_workers_queue := mz_workers_queue z @ map Queued_json (parsed_texts parse (mz_pop_sensors_list z))\<rparr>"
proof -
  have "rb_monitor_zk_add_sensor_to_monitor_queue parse
      = (\<lambda>s a. a @ (case parse (c_str s) of None \<Rightarrow> [] | Some obj \<Rightarrow> [Queued_json obj]))"
    by (auto simp: rb_monitor_zk_add_sensor_to_monitor_queue_def fun_eq_iff split: option.split)
  moreover have "concat (map (\<lambda>n. case parse (c_str (sn_str n)) of None \<Rightarrow> [] | Some obj \<Rightarrow> [Queued_json obj]) l)
      = map Queued_json (parsed_texts parse l)" for l
    by (induction l) (simp_all add: parsed_texts_def List.map_filter_def split: option.split)
  ultimately show ?thesis
    by (simp add: rb_monitor_zk_add_popped_sensors_to_monitor_queue_def string_list_move_def
        string_list_init_def foreach_append)
qed

lemma push_sensors:
  "rb_monitor_leader_push_sensors z =
     map (\<lambda>n. Called (Acreate ZOOKEEPER_TASKS_PATH_LEAF (sn_str n))) (mz_push_sensors_list z)"
proof -
  have "rb_monitor_push_sensor = (\<lambda>s es. es @ [Called (Acreate ZOOKEEPER_TASKS_PATH_LEAF s)])"
    by (simp add: rb_monitor_push_sensor_def rb_zk_queue_push_def fun_eq_iff)
  moreover have "concat (map (\<lambda>n. [Called (Acreate ZOOKEEPER_TASKS_PATH_LEAF (sn_str n))]) l)
      = map (\<lambda>n. Called (Acreate ZOOKEEPER_TASKS_PATH_LEAF (sn_str n))) l" for l
    by (induction l) simp_all
  ultimately show ?thesis
    unfolding rb_monitor_leader_push_sensors_def
    using foreach_append [of "mz_push_sensors_list z" "\<lambda>s. [Called (Acreate ZOOKEEPER_TASKS_PATH_LEAF s)]" "[]"]
    by simp
qed

lemma parse_sensors_turns_all:
  shows "\<exists>l'. parse_sensors_turns to_string (\<lambda>i. True) vs i l = Inr (l @ l', i + length vs)
     \<and> map sn_str l' = List.map_filter (\<lambda>v. Option.bind v to_string) vs"
proof (induction vs arbitrary: i l)
  case (Cons v vs)
  show ?case
  proof (cases "Option.bind v to_string")
    case None
    then show ?thesis using Cons [of "Suc i" l]
      by (auto simp: List.map_filter_def split: option.split)
  next
    case (Some s)
    then obtain j where j: "v = Some j" "to_string j = Some s" by (cases v) auto
    let ?n = "\<lparr>sn_str = s, sn_flags = STRING_LIST_STR_F_COPY\<rparr>"
    obtain l' where "parse_sensors_turns to_string (\<lambda>i. True) vs (Suc i) (l @ [?n]) = Inr ((l @ [?n]) @ l', Suc i + length vs)"
      "map sn_str l' = List.map_filter (\<lambda>v. Option.bind v to_string) vs" using Cons [of "Suc i" "l @ [?n]"] by blast
    then show ?thesis
      using j by (intro exI [of _ "?n # l'"])
        (simp add: string_list_append_const_def string_list_append_def List.map_filter_def)
  qed
qed (simp add: List.map_filter_def)

text \<open>With room behind the array, all ancestors are created; without, the copy goes past it.\<close>

lemma create_two:
  assumes "CHR ''/'' \<notin> set a" and "CHR ''/'' \<notin> set b" and "0 < slack"
  shows "create_recursive_node (length (CHR ''/'' # a @ CHR ''/'' # b) + slack) (CHR ''/'' # a @ CHR ''/'' # b)
    = Inr [CHR ''/'' # a, CHR ''/'' # a @ CHR ''/'' # b]"
  using create_nodes_segments [of "[a, b]" "''/''"] assms by (simp add: create_recursive_node_def)

lemma zk_prepare_nodes:
  assumes "0 < slack"
  shows "zk_prepare slack = Inr [''/rb_monitor'', ZOOKEEPER_TASKS_PATH, ''/rb_monitor'', ZOOKEEPER_MUTEX_PATH,
     ''/rb_monitor'', ZOOKEEPER_LEADER_PATH]"
  using create_two [OF _ _ assms, of "''rb_monitor''" "''sensors''"] create_two [OF _ _ assms, of "''rb_monitor''" "''lock''"]
    create_two [OF _ _ assms, of "''rb_monitor''" "''leader''"]
  by (simp add: zk_prepare_def ZOOKEEPER_TASKS_PATH_def ZOOKEEPER_MUTEX_PATH_def ZOOKEEPER_LEADER_PATH_def)

lemma zk_prepare_overflows: "zk_prepare 0 = Inl Buffer_overflow"
  by (simp add: zk_prepare_def create_recursive_node_def)

section \<open>The locks are asked for again\<close>

datatype lock_kind = Leader_kind | Queue_kind

fun user_kind :: "lock_user \<Rightarrow> lock_kind" where
  "user_kind Leader_lock = Leader_kind"
| "user_kind (Queue_lock q) = Queue_kind"

fun kind_leaf :: "lock_kind \<Rightarrow> string" where
  "kind_leaf Leader_kind = ZOOKEEPER_LEADER_LEAF_NAME"
| "kind_leaf Queue_kind = ZOOKEEPER_MUTEX_PATH_LEAF"

interpretation mz: retrying_user requests_on_error user_kind kind_leaf
proof unfold_locales
  fix u
  show "\<exists>v. requests_on_error u = [(kind_leaf (user_kind u), v)] \<and> user_kind v = user_kind u"
    by (cases u) (simp_all add: requests_on_error_def leader_request_def queue_request_def)
qed

text \<open>While disconnected nobody leads: the timer of the pushes is stopped.\<close>

lemma lock_told_zk [simp]: "mz_zk (lock_told e z) = mz_zk z"
  by (simp add: lock_told_def leader_lock_status_chage_cb_def split: lock_event.split lock_user.split)

lemma foldl_told_zk [simp]: "mz_zk (foldl (\<lambda>z e. lock_told e z) z evs) = mz_zk z"
  by (induction evs arbitrary: z) simp_all

lemma told_stops:
  assumes "Lock_status Leader_lock False \<in> set evs" and "\<forall>u b. Lock_status u b \<in> set evs \<longrightarrow> \<not> b"
  shows "\<not> mz_i_am_leader (foldl (\<lambda>z e. lock_told e z) z evs) \<and> mz_timer (foldl (\<lambda>z e. lock_told e z) z evs) = None"
proof -
  have keep: "\<not> mz_i_am_leader z \<and> mz_timer z = None \<Longrightarrow> \<forall>u b. Lock_status u b \<in> set evs \<longrightarrow> \<not> b \<Longrightarrow>
      \<not> mz_i_am_leader (foldl (\<lambda>z e. lock_told e z) z evs) \<and> mz_timer (foldl (\<lambda>z e. lock_told e z) z evs) = None"
    for z :: "'a rb_monitor_zk" and evs
  proof (induction evs arbitrary: z)
    case (Cons e evs)
    have "\<not> mz_i_am_leader (lock_told e z) \<and> mz_timer (lock_told e z) = None"
      using Cons.prems by (auto simp: lock_told_def leader_lock_status_chage_cb_def split: lock_event.split lock_user.split)
    from Cons.IH [OF this] Cons.prems(2) show ?case by auto
  qed simp
  obtain xs ys where evs: "evs = xs @ Lock_status Leader_lock False # ys"
    using split_list [OF assms(1)] by blast
  have "\<not> mz_i_am_leader (lock_told (Lock_status Leader_lock False) w)
      \<and> mz_timer (lock_told (Lock_status Leader_lock False) w) = None" for w :: "'a rb_monitor_zk"
    by (simp add: lock_told_def leader_lock_status_chage_cb_def)
  moreover have "\<forall>u b. Lock_status u b \<in> set ys \<longrightarrow> \<not> b" using assms(2) unfolding evs by auto
  ultimately show ?thesis
    unfolding evs using keep [of "lock_told (Lock_status Leader_lock False) (foldl (\<lambda>z e. lock_told e z) z xs)" ys]
    by simp
qed

lemma zk_disconnected_fields:
  "mz_zk (zk_disconnected expired buf state z)
     = fst (zk_watcher requests_on_error False expired buf state (mz_zk z))"
  by (simp add: zk_disconnected_def case_prod_unfold Let_def)

lemma zk_disconnected_stops:
  assumes "Leader_lock \<in> snd ` set (zc_leaders (mz_zk z))"
  shows "\<not> mz_i_am_leader (zk_disconnected expired buf state z) \<and> mz_timer (zk_disconnected expired buf state z) = None"
proof -
  have "Lock_status Leader_lock False \<in> set (snd (zk_watcher requests_on_error False expired buf state (mz_zk z)))"
    using assms by (force simp: zk_watcher_def clean_fields)
  moreover have "\<forall>u b. Lock_status u b \<in> set (snd (zk_watcher requests_on_error False expired buf state (mz_zk z))) \<longrightarrow> \<not> b"
    by (auto simp: zk_watcher_def clean_fields)
  ultimately show ?thesis unfolding zk_disconnected_def case_prod_unfold Let_def by (rule told_stops)
qed

end
