(* ===== verification/Examples.thy ===== *)
theory Examples
  imports Startup Updates Vector_Text Workers Monitor_Zk Pass_Memory Shutdown
begin

text \<open>
  Concrete instances of the parameters, used to show that the hypotheses of the properties can
  hold: an evaluator that adds, a shell that prints a fixed line, an SNMP agent, and a sensor with
  one command and one operation over it.
\<close>

section \<open>Libraries\<close>

text \<open>Expressions are lists of variable names; their value is the sum of the variables.\<close>

definition ex_eval :: "string list matheval" where
  "ex_eval = \<lparr>ev_create = (\<lambda>s. if s = [] then None else Some [s]), ev_variables = (\<lambda>f. f),
              ev_evaluate = (\<lambda>f names vals. fl_of_int 7)\<rparr>"

definition ex_libs :: "string list libs" where
  "ex_libs = \<lparr>lib_shell = (\<lambda>command. Some ''5''),
              lib_snmp = \<lparr>snmp_sess_open = (\<lambda>s. True), snmp_get = (\<lambda>s oid'. Some (Asn_integer 42))\<rparr>,
              lib_eval = ex_eval\<rparr>"

definition ex_printing :: "jv printing" where
  "ex_printing = \<lparr>pr_layout = rdkafka_layout, pr_json = jv_api, pr_dne = (\<lambda>x y. x \<noteq> y)\<rparr>"

definition ex_turn :: "string list turn" where
  "ex_turn = \<lparr>turn_libs = ex_libs, turn_mem = no_oom, turn_now = 1000\<rparr>"

lemma ex_turn_ok [simp]: "turn_ok ex_eval ex_turn"
  by (simp add: turn_ok_def ex_turn_def ex_libs_def)

lemma ex_layout_ok [simp]: "layout_ok (pr_layout ex_printing)"
  by (simp add: ex_printing_def)

lemma ex_short [simp]: "prints_short ex_eval"
proof -
  have "length (print_lf (fl_of_int 7)) < 64" by code_simp
  then show ?thesis by (simp add: prints_short_def ex_eval_def)
qed

section \<open>A monitor and a sensor\<close>

definition ex_monitor :: "monitor_cmd_type \<Rightarrow> string \<Rightarrow> string \<Rightarrow> string option \<Rightarrow> string option \<Rightarrow> bool \<Rightarrow> jv rb_monitor" where
  "ex_monitor ty nm cmd tok op stamped =
     \<lparr>mon_type = ty, mon_name = nm, mon_argument = None, mon_name_split_suffix = None,
      mon_instance_prefix = None, mon_group_id = None, mon_send = True, mon_timestamp_given = stamped,
      mon_integer = True, mon_splittok = tok, mon_splitop = op, mon_cmd_arg = cmd,
      mon_enrichment = JObject []\<rparr>"

definition ex_monitors :: "jv rb_monitor list" where
  "ex_monitors = [ex_monitor RB_MONITOR_T__SYSTEM ''a'' ''load'' None None False,
                  ex_monitor RB_MONITOR_T__OP ''b'' ''a'' None None False]"

definition ex_deps :: "nat list option list" where
  "ex_deps = [None, Some [0]]"

definition ex_session :: snmp_session where
  "ex_session = \<lparr>ss_peername = None, ss_local_port = 0, ss_remote_port = 0, ss_timeout = 0,
                 ss_community = None, ss_flags = 0, ss_version = SNMP_VERSION_1\<rparr>"

definition ex_worker :: worker_info where
  "ex_worker = \<lparr>wi_default_session = ex_session, wi_timeout = 5, wi_kafka_broker = True,
                wi_http_handler = False\<rparr>"

definition ex_params :: snmp_params where
  "ex_params = \<lparr>sp_peername = Some ''10.0.0.1'', sp_community = Some ''public'', sp_timeout = 5,
                sp_version = SNMP_VERSION_2c\<rparr>"

definition ex_pass_mem :: pass_mem where
  "ex_pass_mem = \<lparr>pm_session = True, pm_ctx = True, pm_current = True\<rparr>"

definition ex_sensor :: "jv rb_sensor" where
  "ex_sensor =
     \<lparr>sen_enrichment = Some (JObject []), sen_snmp = ex_params, sen_monitors = Some (filled (map Some ex_monitors)),
      sen_last_vals = Some (filled [None, None]), sen_op_vars = Some (stored_deps ex_deps), sen_refcnt = 1\<rparr>"

lemma ex_deps_fit: "deps_fit ex_eval ex_monitors ex_deps"
  by (auto simp: deps_fit_def ex_monitors_def ex_deps_def ex_eval_def ex_monitor_def less_Suc_eq_0_disj)

lemma ex_split_tokens: "split_tokens_ok ex_monitors"
  by (simp add: split_tokens_ok_def ex_monitors_def ex_monitor_def)

lemma ex_sensor_ok: "sensor_ok ex_eval ex_sensor"
proof -
  have "vals_ok ex_monitors ex_deps (replicate (length ex_monitors) None)" by (rule vals_ok_initial)
  then have "vals_ok ex_monitors ex_deps [None, None]" by (simp add: ex_monitors_def numeral_2_eq_2)
  then show ?thesis
    unfolding sensor_ok_def using ex_deps_fit ex_split_tokens
    by (intro exI [of _ "filled (map Some ex_monitors)"] exI [of _ ex_monitors] exI [of _ ex_deps]
        exI [of _ "[None, None]"]) (simp add: ex_sensor_def)
qed

lemma ex_pass_session:
  "pass_session (lib_snmp ex_libs) ex_pass_mem ex_worker ex_params \<noteq> None"
  by (simp add: pass_session_def open_session_def ex_params_def new_snmp_session_def ex_pass_mem_def
      ex_libs_def Let_def)

text \<open>Two of them in the running program, one in a pass.\<close>

abbreviation ex_daemon :: "jv rb_sensor list \<Rightarrow> jv daemon \<Rightarrow> bool" where
  "ex_daemon sensors \<equiv> reachable_daemon 3 ex_printing (lib_snmp ex_libs) ex_eval ex_worker sensors 2"

lemma ex_run_begins:
  "\<exists>d. ex_daemon [ex_sensor, ex_sensor] d \<and> workers (dm_sys d) ! 0 = Processing 0
     \<and> (\<forall>w < 2. workers (dm_sys d) ! w \<noteq> Processing 1)"
proof -
  have "sensor_ok ex_eval ([ex_sensor, ex_sensor] ! 0)" by (simp add: ex_sensor_ok)
  from first_pass_begins [OF this, of 2 3 ex_pass_mem ex_printing "lib_snmp ex_libs" ex_worker]
  obtain d where "ex_daemon [ex_sensor, ex_sensor] d" "workers (dm_sys d) ! 0 = Processing 0"
    "\<forall>v. 0 < v \<longrightarrow> v < 2 \<longrightarrow> workers (dm_sys d) ! v = Waiting"
    by (auto simp: ex_pass_mem_def)
  then show ?thesis by (intro exI [of _ d]) (auto simp: less_2_cases_iff)
qed

text \<open>One whose first monitor has a value.\<close>

definition ex_valued_sensor :: "monitor_value \<Rightarrow> jv rb_sensor" where
  "ex_valued_sensor mv = ex_sensor\<lparr>sen_last_vals := Some (filled [Some mv, None])\<rparr>"

lemma ex_valued_sensor_ok: "value_wf mv \<Longrightarrow> is_value mv \<Longrightarrow> sensor_ok ex_eval (ex_valued_sensor mv)"
proof -
  assume "value_wf mv" "is_value mv"
  then have "vals_ok ex_monitors ex_deps [Some mv, None]"
    by (auto simp: vals_ok_def kind_fits_def ex_monitors_def ex_deps_def ex_monitor_def less_Suc_eq)
  then show ?thesis
    unfolding sensor_ok_def using ex_deps_fit ex_split_tokens
    by (intro exI [of _ "filled (map Some ex_monitors)"] exI [of _ ex_monitors] exI [of _ ex_deps]
        exI [of _ "[Some mv, None]"]) (simp add: ex_sensor_def ex_valued_sensor_def)
qed

text \<open>The JSON text of a sensor, as a tree.\<close>

definition ex_sensor_json :: jv where
  "ex_sensor_json = JObject
     [(''sensor_name'', Some (JString ''s'')), (''sensor_ip'', Some (JString ''10.0.0.1'')),
      (''community'', Some (JString ''public'')),
      (''monitors'', Some (JArray
         [Some (JObject [(''name'', Some (JString ''a'')), (''system'', Some (JString ''load''))]),
          Some (JObject [(''name'', Some (JString ''b'')), (''op'', Some (JString ''a''))])]))]"

definition ex_sensor_mem :: "bool \<Rightarrow> sensor_mem" where
  "ex_sensor_mem deps =
     \<lparr>sm_sensor = True, sm_key = (\<lambda>k. True), sm_enrichment = True, sm_monitors = True,
      sm_monitor = (\<lambda>i k. True), sm_deps = deps, sm_dep = (\<lambda>i k. True), sm_last_vals = True\<rparr>"

definition ex_parsed :: "bool \<Rightarrow> jv rb_sensor" where
  "ex_parsed deps =
     (case parse_rb_sensor jv_api ex_eval (ex_sensor_mem deps) (Some ex_sensor_json) ex_worker of
        Inr (Some s) \<Rightarrow> s | _ \<Rightarrow> ex_sensor)"

definition ex_parsed_check :: "bool \<Rightarrow> bool" where
  "ex_parsed_check deps =
     (case parse_rb_sensor jv_api ex_eval (ex_sensor_mem deps) (Some ex_sensor_json) ex_worker of
        Inr (Some s) \<Rightarrow>
          (case sen_monitors s of
             None \<Rightarrow> False
           | Some mons \<Rightarrow> arr_count mons = 2
               \<and> list_all (\<lambda>m. case m of None \<Rightarrow> False | Some m \<Rightarrow> mon_splittok m \<noteq> Some []) (rb_array_contents mons))
          \<and> sp_peername (sen_snmp s) = Some ''10.0.0.1'' \<and> sp_community (sen_snmp s) = Some ''public''
      | _ \<Rightarrow> False)"

lemma ex_parsed_checks: "ex_parsed_check deps"
  by (cases deps) (simp_all only:, code_simp+)

section \<open>A configuration\<close>

definition ex_build :: build where
  "ex_build = \<lparr>have_rbhttp = False, chunked_mode = 1\<rparr>"

definition ex_conf :: jv where
  "ex_conf = JObject [(''threads'', Some (JInt 3)), (''sleep_main_thread'', Some (JInt 1)), (''timeout'', Some (JInt 7))]"

definition ex_default :: jv where
  "ex_default = JObject (map (\<lambda>(k, i). (k, Some (JInt i))) str_default_config)"

lemma ex_default_ok: "default_config_ok jv_api ex_default"
proof -
  have "map (\<lambda>(k, i). (k, Some (JInt i))) str_default_config
      = AList.clearjunk (map (\<lambda>(k, i). (k, Some (JInt i))) str_default_config)"
    by (subst distinct_clearjunk_id) (simp_all add: str_default_config_def)
  then show ?thesis by (simp add: default_config_ok_def ex_default_def jv_api_def jv_int64_def)
qed

definition ex_zk :: jv where
  "ex_zk = JObject [(''host'', Some (JString ''h'')), (''push_timeout'', Some (JInt 5)),
                    (''sensors'', Some (JArray [Some (JString ''s''), None]))]"

definition ex_file :: jv where
  "ex_file = JObject [(''conf'', Some ex_conf), (''sensors'', Some (JArray [Some ex_sensor_json]))]"

lemma ex_parsed_eq:
  "parse_rb_sensor jv_api ex_eval (ex_sensor_mem deps) (Some ex_sensor_json) ex_worker = Inr (Some (ex_parsed deps))"
  using ex_parsed_checks [of deps]
  by (auto simp: ex_parsed_check_def ex_parsed_def split: sum.splits option.splits)

lemma ex_parsed_tokens:
  "sen_monitors (ex_parsed deps) = Some mons \<Longrightarrow> rb_array_contents mons = map Some ms \<Longrightarrow> split_tokens_ok ms"
  using ex_parsed_checks [of deps]
  by (auto simp: ex_parsed_check_def ex_parsed_def split_tokens_ok_def list_all_iff split: sum.splits option.splits)

lemma ex_file_sensors:
  "\<exists>r. parse_sensors jv_api ex_eval True (\<lambda>i. ex_sensor_mem True) ex_worker ex_file = Inr (Some r)
     \<and> rb_array_contents r = [Some (ex_parsed True)]"
proof -
  let ?J = "JArray [Some ex_sensor_json]"
  have get: "jc_get jv_api (Some ex_file) CONFIG_SENSORS_KEY = Some (Some ?J)"
    and ty: "jc_type jv_api (Some ?J) = Json_array" and len: "jc_array_length jv_api (Some ?J) = 1"
    and idx: "jc_array_idx jv_api (Some ?J) 0 = Some ex_sensor_json"
    by (simp_all add: jv_api_def jv_get_def ex_file_def CONFIG_SENSORS_KEY_def)
  show ?thesis
    by (simp add: parse_sensors_def get ty len Let_def rb_array_new_def rb_array_fresh_def rb_array_full_def idx
        ex_parsed_eq rb_array_add_def rb_array_contents_def)
qed

section \<open>A run of the program\<close>

definition ex_run_file :: jv where
  "ex_run_file =
     JObject [(''conf'', Some (JObject [(''threads'', Some (JInt 3)), (''kafka_broker'', Some (JString ''b'')),
                                       (''kafka_topic'', Some (JString ''t''))])),
              (''sensors'', Some (JArray [Some ex_sensor_json]))]"

definition ex_world :: "jv world" where
  "ex_world =
     \<lparr>w_build = ex_build, w_zookeeper = False, w_file = (\<lambda>path. if path = ''rb.json'' then Some ex_run_file else None),
      w_known = (\<lambda>k v. True), w_zk_mem = True, w_zk_errno = False, w_session = ex_session, w_kafka_new = True,
      w_brokers_add = (\<lambda>b. 1), w_http_create = (\<lambda>e. True), w_report_thread = True, w_array_mem = True,
      w_sensor_mem = (\<lambda>i. ex_sensor_mem True), w_malloc = (\<lambda>n. True), w_thread = (\<lambda>i. True)\<rparr>"

lemma ex_getopt: "getopt [''-d'', ''7'', ''-crb.json''] = [(CHR ''d'', ''7''), (CHR ''c'', ''rb.json'')]"
  by code_simp

lemma ex_run_conf:
  "\<exists>st. configure ex_build jv_api (\<lambda>k v. True) ex_default sev ex_run_file = Inr st
     \<and> mi_threads (cs_main st) = 3 \<and> wc_timeout (cs_worker st) = 5 \<and> wc_kafka_broker (cs_worker st) = Some ''b''"
proof -
  let ?conf = "JObject [(''threads'', Some (JInt 3)), (''kafka_broker'', Some (JString ''b'')), (''kafka_topic'', Some (JString ''t''))]"
  let ?st = "(parse_json_config ex_build jv_api (\<lambda>k v. True) ex_default zero_config)\<lparr>cs_severity := Some sev\<rparr>"
  have "configure ex_build jv_api (\<lambda>k v. True) ex_default sev ex_run_file =
      Inr (parse_json_config ex_build jv_api (\<lambda>k v. True) ?conf ?st)"
    by (simp add: configure_def ex_run_file_def jv_api_fields jv_get_def Let_def)
  moreover have mem: "jc_members jv_api ?conf = [(''threads'', Some (JInt 3)), (''kafka_broker'', Some (JString ''b'')), (''kafka_topic'', Some (JString ''t''))]"
    by (simp add: jv_api_fields)
  have "parse_json_config ex_build jv_api (\<lambda>k v. True) ?conf ?st
      = settings_of ex_build jv_api (\<lambda>k v. True) (jc_members jv_api ?conf) (?st\<lparr>cs_ok := True\<rparr>)"
    by (rule parse_json_config_settings) (simp add: mem)
  ultimately show ?thesis
    using default_config_settings [OF ex_default_ok, of ex_build "\<lambda>k v. True"]
    by (auto simp: mem settings_of_def setting_def accept_defs Let_def jv_api_fields jv_int64_def jv_string_def)
qed

lemma ex_run_sensors:
  "\<exists>r. parse_sensors jv_api ex_eval True (\<lambda>i. ex_sensor_mem True) ex_worker ex_run_file = Inr (Some r)
     \<and> rb_array_contents r = [Some (ex_parsed True)]"
proof -
  have "parse_sensors jv_api ex_eval True (\<lambda>i. ex_sensor_mem True) ex_worker ex_run_file
      = parse_sensors jv_api ex_eval True (\<lambda>i. ex_sensor_mem True) ex_worker ex_file"
    by (simp add: parse_sensors_def jv_api_fields jv_get_def ex_file_def ex_run_file_def CONFIG_SENSORS_KEY_def)
  with ex_file_sensors show ?thesis by simp
qed

lemma ex_start_goes_on:
  "\<exists>es p. main_start jv_api ex_eval ex_world ex_default [''-d'', ''7'', ''-crb.json''] = (es, Goes_on p)
     \<and> program_sensors p = [ex_parsed True] \<and> pg_threads p = [0, 1, 2] \<and> pg_worker p = ex_worker
     \<and> pg_ret p \<and> asked_threads p = 3 \<and> uses_kafka p \<and> \<not> uses_http ex_world p"
proof -
  obtain r where r: "parse_sensors jv_api ex_eval True (\<lambda>i. ex_sensor_mem True) ex_worker ex_run_file = Inr (Some r)"
     "rb_array_contents r = [Some (ex_parsed True)]" using ex_run_sensors by blast
  obtain st where st: "configure ex_build jv_api (\<lambda>k v. True) ex_default (atoi ''7'') ex_run_file = Inr st"
     "mi_threads (cs_main st) = 3" "wc_timeout (cs_worker st) = 5" "wc_kafka_broker (cs_worker st) = Some ''b''"
    using ex_run_conf by blast
  have W: "pass_worker (ex_session\<lparr>ss_version := SNMP_VERSION_1\<rparr>) False st = ex_worker"
    by (simp add: pass_worker_def ex_worker_def ex_session_def st)
  have ok: "cs_ok (parse_json_config ex_build jv_api (\<lambda>k v. True) ex_default zero_config)"
    using default_config_settings [OF ex_default_ok, of ex_build "\<lambda>k v. True"] by simp
  have zk: "jc_get jv_api (Some ex_run_file) ''zookeeper'' = None"
    by (simp add: jv_api_fields jv_get_def ex_run_file_def)
  have "[0..<3] = [0, 1, 2::nat]" by code_simp
  then show ?thesis
    by (simp add: main_start_def ex_getopt main_config_def ex_world_def default_options_def st zk main_kafka_def
        main_http_def ex_build_def [THEN arg_cong [where f = have_rbhttp], simplified]
        W r(1) main_workers_def worker_table_bytes_def program_sensors_def r(2) ok Let_def)
qed

text \<open>The same with the signal given before the first step.\<close>

definition ex_stopped :: "jv daemon" where
  "ex_stopped = (initial_daemon ex_worker [ex_sensor] 2)\<lparr>dm_sys := (initial_sys 1 2)\<lparr>running := False\<rparr>\<rparr>"

lemma ex_stopped_reachable: "ex_daemon [ex_sensor] ex_stopped"
proof -
  let ?d = "initial_daemon ex_worker [ex_sensor] 2"
  have "daemon_step 3 ex_printing (lib_snmp ex_libs) ex_eval ?d (?d\<lparr>dm_sys := (dm_sys ?d)\<lparr>running := False\<rparr>\<rparr>)"
    by (rule daemon_step.threads [OF sys_step.signal]) (simp add: at_work_def)
  then have "daemon_step 3 ex_printing (lib_snmp ex_libs) ex_eval ?d ex_stopped"
    by (simp add: ex_stopped_def initial_daemon_def)
  then show ?thesis by (rule reachable_daemon.step [OF reachable_daemon.init])
qed

definition ex_mz :: "jv rb_monitor_zk" where
  "ex_mz =
     \<lparr>mz_push_timeout = 5, mz_pop_sensors_list = [\<lparr>sn_str = ''a'', sn_flags = STRING_LIST_STR_F_COPY\<rparr>],
      mz_push_sensors_list = [], mz_i_am_leader = True, mz_timer = Some 5000, mz_workers_queue = [],
      mz_zk = \<lparr>zc_connected_to = True, zc_pending = [],
        zc_leaders = [(rb_zk_mutex_create_entry ''l'', Leader_lock),
                      (rb_zk_mutex_create_entry ''q'', Queue_lock (new_queue_element ''q''))], zc_calls = []\<rparr>\<rparr>"

section \<open>Memory\<close>

text \<open>An allocator that numbers blocks upwards.\<close>

fun place_value :: "nat \<Rightarrow> monitor_value \<Rightarrow> owned_value \<times> nat"
and place_children :: "nat \<Rightarrow> monitor_value option list \<Rightarrow> owned_value option list \<times> nat" where
  "place_value n (MV_value s) = (OV_value n s, Suc n)"
| "place_value n (MV_array cs sp) =
     (let (cs', n1) = place_children (Suc (Suc n)) cs;
          (sp', n2) = (case sp of None \<Rightarrow> (None, n1) | Some v \<Rightarrow> let (v', m) = place_value n1 v in (Some v', m))
      in (OV_array n (Suc n) cs' sp', n2))"
| "place_children n [] = ([], n)"
| "place_children n (c # cs) =
     (let (c', n1) = (case c of None \<Rightarrow> (None, n) | Some v \<Rightarrow> let (v', m) = place_value n v in (Some v', m));
          (cs', n2) = place_children n1 cs
      in (c' # cs', n2))"

fun block_number :: "resource \<Rightarrow> nat" where
  "block_number (Block b) = b"
| "block_number (Json_ref j) = 0"

definition next_block :: "heap \<Rightarrow> nat" where
  "next_block H = Suc (Max (insert 0 (block_number ` set_mset H)))"

definition ex_allocator :: allocator where
  "ex_allocator = \<lparr>al_block = next_block, al_value = (\<lambda>H v. fst (place_value (next_block H) v))\<rparr>"

definition fresh_range :: "nat \<Rightarrow> nat \<Rightarrow> resource list \<Rightarrow> bool" where
  "fresh_range n m rs \<longleftrightarrow> n \<le> m \<and> distinct rs \<and> set rs \<subseteq> Block ` {n..<m}"

lemma fresh_range_append:
  "fresh_range n k xs \<Longrightarrow> fresh_range k m ys \<Longrightarrow> fresh_range n m (xs @ ys)"
  by (force simp: fresh_range_def)

lemma fresh_range_snoc:
  "fresh_range (Suc (Suc n)) m xs \<Longrightarrow> fresh_range n m (xs @ [Block (Suc n), Block n])"
  by (force simp: fresh_range_def)

lemma place_ok:
  "fresh_range n (snd (place_value n v)) (value_blocks (fst (place_value n v)))
     \<and> stored (fst (place_value n v)) = v"
  "fresh_range n (snd (place_children n cs)) (children_blocks (fst (place_children n cs)))
     \<and> map (map_option stored) (fst (place_children n cs)) = cs"
proof (induction n v and n cs rule: place_value_place_children.induct)
  case (1 n s)
  then show ?case by (simp add: fresh_range_def)
next
  case (2 n cs sp)
  obtain cs' n1 where c: "place_children (Suc (Suc n)) cs = (cs', n1)" by fastforce
  with 2(1) have I: "fresh_range (Suc (Suc n)) n1 (children_blocks cs')" "map (map_option stored) cs' = cs"
    by simp_all
  show ?case
  proof (cases sp)
    case None
    then show ?thesis using fresh_range_snoc [OF I(1)] I(2) c by simp
  next
    case (Some v)
    obtain v' m where v: "place_value n1 v = (v', m)" by fastforce
    have "fresh_range n1 m (value_blocks v') \<and> stored v' = v"
      using 2(2) [of "(cs', n1)" cs' n1 v] c v Some by simp
    then show ?thesis
      using fresh_range_snoc [OF fresh_range_append [OF I(1)], of m "value_blocks v'"] I(2) c v Some by simp
  qed
next
  case (3 n)
  then show ?case by (simp add: fresh_range_def)
next
  case (4 n c cs)
  then show ?case by (cases c) (auto simp: Let_def intro: fresh_range_append split: prod.splits)
qed

lemma next_block_fresh:
  assumes "next_block H \<le> b"
  shows "Block b \<notin># H"
proof
  assume "Block b \<in># H"
  then have "b \<in> insert 0 (block_number ` set_mset H)" by force
  then have "b \<le> Max (insert 0 (block_number ` set_mset H))" by (intro Max_ge) simp_all
  with assms show False by (simp add: next_block_def)
qed

lemma fresh_heap_ok:
  assumes "heap_ok H" and "fresh_range (next_block H) m rs"
  shows "heap_ok (H + mset rs)"
  unfolding heap_ok_def
proof
  fix b
  show "count (H + mset rs) (Block b) \<le> 1"
  proof (cases "Block b \<in> set rs")
    case True
    then have "Block b \<in> Block ` {next_block H..<m}" using assms(2) unfolding fresh_range_def by blast
    then have "next_block H \<le> b" by auto
    then have "count H (Block b) = 0" using next_block_fresh by (simp add: count_eq_zero_iff)
    moreover have "count (mset rs) (Block b) \<le> 1"
      using assms(2) unfolding fresh_range_def distinct_count_atmost_1 by (metis order_refl zero_le)
    ultimately show ?thesis by simp
  next
    case False
    then have "count (mset rs) (Block b) = 0" by (simp add: count_eq_zero_iff)
    then show ?thesis using assms(1) by (metis add.right_neutral count_union heap_ok_def)
  qed
qed

lemma ex_allocator_ok: "allocator_ok ex_allocator"
  unfolding allocator_ok_def
proof (intro conjI allI impI)
  fix H v assume "heap_ok H"
  then show "heap_ok (add_mset (Block (al_block ex_allocator H)) H)"
    using fresh_heap_ok [of H "Suc (next_block H)" "[Block (next_block H)]"]
    by (simp add: ex_allocator_def fresh_range_def)
  show "heap_ok (H + mset (value_blocks (al_value ex_allocator H v)))"
    using fresh_heap_ok [OF \<open>heap_ok H\<close> conjunct1 [OF place_ok(1)]] by (simp add: ex_allocator_def)
qed (simp add: ex_allocator_def place_ok(1))


text \<open>A sensor with two values stored, and a rejected one: its community is missing.\<close>

definition ex_owned_sensor :: owned_sensor where
  "ex_owned_sensor =
     \<lparr>os_block = Block 1, os_peername = Some (Block 2), os_community = Some (Block 3),
      os_op_vars = Some (Block 4, []), os_monitors = Some (Block 6, []),
      os_last_vals = Some (Block 7, [None, None]), os_enrichment = Some (Json_ref 0)\<rparr>"

definition ex_rejected :: sensor_allocs where
  "ex_rejected =
     \<lparr>sa_sensor = Some (Block 1), sa_name = True, sa_monitors_given = True, sa_peername = Some (Block 2),
      sa_community = None, sa_snmp_version = Some (Block 3), sa_config_enrichment = Some (Json_ref 0),
      sa_new_enrichment = None, sa_created = True, sa_monitors = Some (Block 4, []),
      sa_op_vars = Some (Block 5, []), sa_last_vals = Some (Block 6)\<rparr>"

end
