(* ===== verification/Spec2Isabelle.thy ===== *)
theory Spec2Isabelle
  imports Sensor Updates Vector_Text Message_Json Pass_Resources Workers Zk Zk_Fifo Zk_Queue_Runs Shutdown Examples
begin

text \<open>
  A verification library for rb_monitor, a daemon that asks sensors for values (shell commands, SNMP
  objects, operations over them), keeps the last value of every monitor and sends what is new as
  JSON messages to Kafka or HTTP. The sources are the C files of src/src, built with \<open>NDEBUG\<close>, so
  that \<open>assert\<close> does nothing.

  \<^bold>\<open>The program.\<close> \<open>main\<close> reads its settings (\<open>parse_json_config\<close>), starts the ZooKeeper part if the
  file asks for it (\<open>parse_zookeeper_json\<close>, \<open>init_rbmon_zk\<close>), parses the sensors, each with an array of
  monitors (\<open>parse_sensors\<close>, \<open>parse_rb_sensor\<close>, \<open>parse_rb_monitors\<close>), resolves the variables of the operation monitors to
  positions (\<open>get_monitors_dependencies\<close>), starts the workers, and queues every sensor over and over.
  A worker pops a sensor, tries its lock and makes a pass over its monitors
  (\<open>process_monitors_array\<close>): for each monitor it gets a value (\<open>process_sensor_monitor\<close>), compares it
  with the last one (\<open>process_monitor_value\<close>), prints what changed (\<open>print_monitor_value\<close>) and hands
  the messages to the outputs (\<open>worker_process_sensor_send_array\<close>). With ZooKeeper, the clients elect a
  leader, which puts every sensor of its file into a shared queue once a period, and every client takes
  sensors out of that queue into its own.

  \<^bold>\<open>The theories\<close>, each importing the ones it uses:
  \<^item> Prelude: outcomes (a value, or a fault: a hang, a write or read outside an object, a null
    pointer, the wrong member of a union, a use after release, a read before any write), C strings,
    splitting at a separator.
  \<^item> CDouble and CStdio: IEEE doubles and the functions of the C library the program calls, with the
    exactness of small integers and the round trip of printed integers through \<open>strtod\<close>.
  \<^item> Containers: \<open>rb_array\<close> and the \<open>TAILQ\<close> of \<open>rb_message_list\<close>, each behind a locale with the
    lemmas about the loops that use it.
  \<^item> Json, Values, Monitor, Messages, Acquire, Evaluate, Monitor_Array and Sensor: the code of
    rb_json, rb_value, rb_sensor_monitor, rb_message_list, rb_system and rb_snmp, rb_sensor_monitor,
    rb_sensor_monitor_array with the sending function of main, and rb_sensor, in this order. A C
    function is a definition of the same name; a loop inside it is a recursive function of its own.
    Acquire has the locale \<open>value_source\<close>, the contract of the callbacks that get external values,
    interpreted on shell commands and on SNMP.
  \<^item> Vectors, Vector_Text, Operations, Dependencies, Passes, Safety, Updates: the lemmas about them:
    what splitting a text computes, what operations compute, which monitors the variables of an
    operation resolve to, the pass as a fold, the invariant that makes every pass safe, the rule
    by which values are sent.
  \<^item> Message_Json: what the consumers rely on, a reader of flat JSON objects after RFC 8259 and the members
    a message should have (\<open>message_members\<close>). Printed messages are read back member for member when no text
    needs an escape (\<open>printable\<close>), and what happens when one does.
  \<^item> Release and Pass_Memory: what the program allocates and frees, as a multiset of live blocks and
    references: the release of values, monitors and sensors (the locale \<open>releaser\<close>, interpreted on each
    of them), what the parsers allocate and free on every exit, and the pass with every allocation and
    free of its values written out, against the pass without memory.
  \<^item> Pass_Resources: what a pass allocates besides values: arrays and buffers of messages, the evaluator and
    the variables of an operation, the session of SNMP. All but the last are given back on every path.
  \<^item> Config and Startup: the configuration part of main: the loop over the \<open>conf\<close> object with its
    settings, \<open>configure\<close> (which ends the program on values it cannot use), the HTTP options and the
    pause between sensors; then the \<open>zookeeper\<close> object and the array of sensors. \<open>settings_of\<close> reads
    each setting by its key alone, and the loop is proved to compute that.
  \<^item> Zk: the parts of rb_zk that decide who leads, which element of a queue is popped and which nodes
    are created, and the life of a queue element as a step relation over the client's callbacks.
  \<^item> Zk_Lock and Zk_Progress: the lock among many clients, as a step relation whose steps run the
    handlers of Zk against a directory of nodes; its invariant; that one attempt leads, that the
    lowest can, and what an attempt that gives up leaves behind.
  \<^item> Zk_Fifo: what the lock promises, a line of tickets that are served in the order of their arrival
    (\<open>fifo_step\<close>), and the simulation that carries every step of the clients to a step of it.
  \<^item> Zk_Queue, Zk_Queue_Order and Zk_Queue_Runs: the distribution among many clients: pops with their
    locks and elements against a directory that answers at one moment and is read at a later one
    (\<open>dist_step\<close>). Nothing is lost through any failure; without failures it is a queue, in which one pop
    works at a time and can always go on; and what a session that ends too early does to it.
  \<^item> Zk_Context: the connection (\<open>struct rb_zk\<close>): waiting and asked-for locks, what is queued for the
    thread, and what the watcher does when a session begins, expires or is reset. Its locale
    \<open>retrying_user\<close> is the contract of a user that asks for its lock again after every error.
  \<^item> Monitor_Zk: rb_monitor_zk: lists of strings, the callbacks that take sensors out of the queue, the
    leader that puts them in, and the start. It interprets \<open>retrying_user\<close> on its own callbacks.
  \<^item> Workers: the threads as a step relation with the reference counters and locks of the sensors.
  \<^item> Daemon: the running program: those threads with what their sensors hold, the passes of different
    workers interleaved monitor by monitor (\<open>start_pass\<close> and \<open>turn_pass\<close> are the pieces of
    \<open>process_monitors_array\<close> before its loop and of one turn). Its invariant says that a sensor at rest is
    what whole passes, one after the other (\<open>serial\<close>), give.
  \<^item> Program and Shutdown: \<open>main\<close> around its loop: the command line, the stages with their exits, the
    creation of the workers; the joins and the flush of the messages; that after the signal the threads
    leave; and the whole from the command line to the exit status.
  \<^item> Examples: concrete instances of all parameters, for the witnesses.

  \<^bold>\<open>What stands for the outside.\<close> json-c, libmatheval, net-snmp, \<open>popen\<close>, librd's comparison of
  doubles and the layout of librdkafka's message are parameters: records of functions, or functions.
  What the proofs need of them is named: \<open>json_objects_ok\<close>, \<open>printbuf_appends\<close>, \<open>layout_ok\<close>,
  \<open>prints_short\<close>, and of the allocator, which returns blocks that are not live, \<open>allocator_ok\<close>. Every allocation of the value layer is named by an \<open>alloc_site\<close> and may fail;
  \<open>mem\<close> says which do. Every monitor of a pass has its own answers, allocations and time (a
  \<open>turn\<close>).
  Of ZooKeeper, documented behaviour only: a sequential node gets a name above every earlier one, a
  listing is of one moment, \<open>zoo_wexists\<close> returns 0 only for a node that exists, an ephemeral node
  goes when it is deleted or its session expires. Answers are in flight until their callback runs,
  and may be old by then.

  \<^bold>\<open>Loops.\<close> Loops over an array are structural; the two loops over the tokens of a text may not end
  and are \<open>partial_function\<close>s, with the theorem that they end exactly for a non-empty token; draining
  the message list is a \<open>while_option\<close>, with the theorem that it ends. The loop over the locks that
  wait for a connection is a \<open>partial_function\<close> too: it follows the list its own turns rebuild, and it
  never ends when ZooKeeper refuses every lock and two of them are asked for again
  (\<open>pending_loop_refused\<close>), and so are the loops of \<open>main\<close> and its helper threads that wait
  (\<open>wait_until\<close>): they end exactly when what they wait for comes. No fuel is used.

  \<^bold>\<open>Not modelled.\<close> What the libraries allocate inside, beyond a block for each session and evaluator
  they return; the reference counts of JSON objects other than the enrichments; logging, with the names
  of states and events that are only logged; the HTTP and Kafka producers and their reports beyond the
  calls \<open>main\<close> makes; the timers of rb_zk and the mutexes around its lists; \<open>assert\<close> and the magic numbers it
  looks at. The bound of \<open>references_are_counted\<close> is the number of queue elements memory can hold.
\<close>

section \<open>Sensors and passes\<close>





text \<open>
  C11: The pass refines a fold over the list of values. The loop's copy of the last values, its
  message list and the draining of that list can be forgotten: monitor by monitor, a value is
  computed from the values so far, the stored value is replaced, and its messages go to the outputs.
\<close>

theorem pass_is_a_fold:
  assumes "rb_array_wf mons" and "rb_array_contents mons = map Some ms" and "in_range (length ms) deps"
    and "length vals = length ms" and "pass_session S PM W params = Some s"
  shows "process_monitors_array P S PM turns W mons (filled vals) (Some (stored_deps deps)) params [] out =
     obind (pass_fold P (fst (open_session S (pm_session PM) W params)) ms deps
              (if pm_ctx PM then Some (Some s) else None) turns [0..<length ms] (vals, out))
       (\<lambda>r. Inr (pass_finished (fst (open_session S (pm_session PM) W params)) r))"
  using assms by (rule process_monitors_array_eq)

theorem pass_is_a_fold_witness:
  "\<exists>s. process_monitors_array ex_printing (lib_snmp ex_libs) ex_pass_mem (\<lambda>i. ex_turn) ex_worker
       (filled (map Some ex_monitors)) (filled [None, None]) (Some (stored_deps ex_deps)) ex_params [] [] =
     obind (pass_fold ex_printing (fst (open_session (lib_snmp ex_libs) True ex_worker ex_params))
              ex_monitors ex_deps (Some (Some s)) (\<lambda>i. ex_turn) [0..<2] ([None, None], []))
       (\<lambda>r. Inr (pass_finished (fst (open_session (lib_snmp ex_libs) True ex_worker ex_params)) r))"
proof -
  obtain s where s: "pass_session (lib_snmp ex_libs) ex_pass_mem ex_worker ex_params = Some s"
    using ex_pass_session by auto
  have two: "length ex_monitors = 2" by (simp add: ex_monitors_def)
  have "length [None, None :: monitor_value option] = length ex_monitors" by (simp add: two)
  from pass_is_a_fold [OF _ _ deps_fit_in_range [OF ex_deps_fit] _ s,
      of "filled (map Some ex_monitors)" "[None, None]" ex_printing "\<lambda>i. ex_turn" "[]"] this
  show ?thesis by (auto simp: two ex_pass_mem_def)
qed

text \<open>
  A pass without a session has no effect on the values and the outputs and returns false: the
  peer or the community is missing, or the session or the copy of the values could not be made.
\<close>

theorem no_session_no_effect:
  assumes "pass_session S PM W params = None" and "arr_count mons \<le> length (elms last_known)"
  shows "process_monitors_array P S PM turns W mons last_known deps params ret out =
     Inr \<lparr>pr_aok = False, pr_worker = fst (open_session S (pm_session PM) W params),
          pr_last = last_known, pr_queue = ret, pr_out = out\<rparr>"
  using assms by (rule process_monitors_array_no_session)

theorem no_session_no_effect_witness:
  "process_monitors_array ex_printing (lib_snmp ex_libs) ex_pass_mem (\<lambda>i. ex_turn) ex_worker
     (filled (map Some ex_monitors)) (filled [None, None]) None (ex_params\<lparr>sp_community := None\<rparr>) [] []
   = Inr \<lparr>pr_aok = False, pr_worker = ex_worker, pr_last = filled [None, None], pr_queue = [], pr_out = []\<rparr>"
  using no_session_no_effect [of "lib_snmp ex_libs" ex_pass_mem ex_worker "ex_params\<lparr>sp_community := None\<rparr>"
      "filled (map Some ex_monitors)" "filled [None, None]" ex_printing "\<lambda>i. ex_turn" None "[]" "[]"]
  by (simp add: pass_session_def open_session_def ex_params_def ex_monitors_def)

text \<open>
  C33: The parser does not check that the array of dependencies was allocated. A sensor accepted
  without it, with at least one monitor, makes the first pass read through a null pointer.
\<close>

theorem unchecked_dependencies_crash:
  assumes "parse_rb_sensor J E mem sensor_info W0 = Inr (Some s)" and "\<not> sm_deps mem"
    and "sen_monitors s = Some mons" and "0 < arr_count mons"
    and "pass_session S PM W (sen_snmp s) = Some se"
  shows "process_rb_sensor P S PM turns W s [] out = Inl Null_deref"
  using assms by (rule process_rb_sensor_no_deps)

theorem unchecked_dependencies_crash_witness:
  "process_rb_sensor ex_printing (lib_snmp ex_libs) ex_pass_mem (\<lambda>i. ex_turn) ex_worker (ex_parsed False) [] []
     = Inl Null_deref"
proof -
  have parsed: "parse_rb_sensor jv_api ex_eval (ex_sensor_mem False) (Some ex_sensor_json) ex_worker
      = Inr (Some (ex_parsed False))"
    using ex_parsed_checks [of False]
    by (auto simp: ex_parsed_check_def ex_parsed_def split: sum.splits option.splits)
  obtain mons where mons: "sen_monitors (ex_parsed False) = Some mons" "arr_count mons = 2"
    and addr: "sp_peername (sen_snmp (ex_parsed False)) = Some ''10.0.0.1''"
      "sp_community (sen_snmp (ex_parsed False)) = Some ''public''"
    using ex_parsed_checks [of False]
    by (auto simp: ex_parsed_check_def ex_parsed_def split: sum.splits option.splits)
  have "\<not> sm_deps (ex_sensor_mem False)" by (simp add: ex_sensor_mem_def)
  moreover obtain se where "pass_session (lib_snmp ex_libs) ex_pass_mem ex_worker (sen_snmp (ex_parsed False)) = Some se"
    by (simp add: pass_session_def open_session_def addr new_snmp_session_def ex_pass_mem_def ex_libs_def Let_def)
  ultimately show ?thesis
    using unchecked_dependencies_crash [OF parsed _ mons(1)] mons(2) by simp
qed

section \<open>Memory\<close>





text \<open>
  C30: A sensor that is rejected after it took the \<open>enrichment\<close> of its configuration gives up a
  reference it never took, and the copy of its SNMP version is lost: if the configuration held the
  only reference, releasing the configuration uses the object after its release.
\<close>

theorem rejected_sensor_drops_its_enrichment:
  assumes "sensor_allocs_wf a" and "sa_sensor a \<noteq> None" and "sa_name a" and "sa_monitors_given a"
    and "sa_config_enrichment a = Some j" and "count H j = 1" and "sa_snmp_version a \<noteq> Some j"
    and "owned_parse_rb_sensor a H = Inr (None, H')"
  shows "H' = H - {#j#} + ptr_mem (sa_snmp_version a) \<and> release j H' = Inl Use_after_free"
  using assms by (rule rejected_sensor_memory)

theorem rejected_sensor_drops_its_enrichment_witness:
  "owned_parse_rb_sensor ex_rejected {#Json_ref 0#} = Inr (None, {#Block 3#})
     \<and> release (Json_ref 0) {#Block 3#} = Inl Use_after_free"
proof -
  have run: "owned_parse_rb_sensor ex_rejected {#Json_ref 0#} = Inr (None, {#Block 3#})"
    by code_simp
  have "sensor_allocs_wf ex_rejected" and "sa_sensor ex_rejected \<noteq> None" and "sa_name ex_rejected"
    and "sa_monitors_given ex_rejected" and "sa_config_enrichment ex_rejected = Some (Json_ref 0)"
    and "count {#Json_ref 0#} (Json_ref 0) = 1" and "sa_snmp_version ex_rejected \<noteq> Some (Json_ref 0)"
    by (simp_all add: ex_rejected_def sensor_allocs_wf_def)
  from run rejected_sensor_drops_its_enrichment [OF this run, THEN conjunct2] show ?thesis by (rule conjI)
qed

section \<open>Vectors\<close>



text \<open>
  With timestamps, a token is a timestamp, a colon and an integer; every child gets its own
  timestamp.
\<close>

theorem vector_reads_timestamped_samples:
  assumes "good_sep sep" and "ss \<noteq> []" and "(\<Sum>(t, z) \<leftarrow> ss. \<bar>z\<bar>) < 2 ^ 53"
    and "\<forall>(t, z) \<in> set ss. 0 < t \<and> t < 2 ^ 64" and "mon_timestamp_given monitor"
    and "mon_splittok monitor = Some sep"
  shows "\<exists>mv. process_vector_monitor no_oom monitor (join sep (map sample_text ss)) now = Inr (Some mv)
     \<and> readings mv = map (\<lambda>(t, z). Some (of_nat t, fl_of_int z)) ss"
proof -
  have "sep \<noteq> []" using assms(1) by (simp add: good_sep_def)
  from process_vector_monitor_eq [OF assms(6) this, of no_oom _ now] vector_of_samples [OF assms(1-5), of now]
  show ?thesis by simp
qed

theorem vector_reads_timestamped_samples_witness:
  "\<exists>mv. process_vector_monitor no_oom (ex_monitor RB_MONITOR_T__SYSTEM ''a'' ''load'' (Some '';'') None True)
        ''1469184315:1;1469184316:2'' 1000 = Inr (Some mv)
     \<and> readings mv = [Some (1469184315, fl_of_int 1), Some (1469184316, fl_of_int 2)]"
proof -
  have sep: "good_sep '';''" by code_simp
  have eq: "join '';'' (map sample_text [(1469184315, 1), (1469184316, 2)]) = ''1469184315:1;1469184316:2''"
    by code_simp
  from vector_reads_timestamped_samples [OF sep, of "[(1469184315, 1), (1469184316, 2)]"
      "ex_monitor RB_MONITOR_T__SYSTEM ''a'' ''load'' (Some '';'') None True" 1000]
  show ?thesis unfolding eq by (simp add: ex_monitor_def)
qed

text \<open>
  With a non-empty split token the vector loops end, on any text, and leave one child per
  token, the tokens being cut at the occurrences of the split token from left to right.
\<close>

theorem vector_loop_ends:
  assumes "mon_splittok monitor = Some sep" and "sep \<noteq> []"
  shows "\<exists>mv. process_vector_monitor no_oom monitor buf now = Inr (Some mv)
     \<and> value_wf mv \<and> \<not> is_value mv \<and> children_count mv = length (token_starts sep buf)"
  using process_vector_monitor_eq [OF assms, of no_oom buf now] vector_result_wf [of no_oom monitor sep now buf]
  by (simp add: vector_result_def Let_def children_count_def)

theorem vector_loop_ends_witness:
  "\<exists>mv. process_vector_monitor no_oom (ex_monitor RB_MONITOR_T__SYSTEM ''a'' ''load'' (Some ''--'') None False)
        ''x---'' 1000 = Inr (Some mv) \<and> children_count mv = 2"
proof -
  have "length (token_starts ''--'' ''x---'') = 2" by code_simp
  then show ?thesis
    using vector_loop_ends [of "ex_monitor RB_MONITOR_T__SYSTEM ''a'' ''load'' (Some ''--'') None False" "''--''"
        "''x---''" 1000] by (auto simp: ex_monitor_def)
qed

text \<open>C34: With the empty split token, which the parser accepts, processing never returns.\<close>

theorem empty_split_token_hangs:
  assumes "mon_splittok monitor = Some []"
  shows "process_vector_monitor mem monitor buf now = Inl Hangs"
  using assms by (simp add: process_vector_monitor_def vector_elements_empty)

theorem empty_split_token_hangs_witness:
  "process_vector_monitor no_oom (ex_monitor RB_MONITOR_T__SYSTEM ''a'' ''load'' (Some []) None False) ''1'' 1000
     = Inl Hangs"
  by (rule empty_split_token_hangs) (simp add: ex_monitor_def)

text \<open>
  Blank tokens of a vector, with a separator no number starts with: a blank token counts as
  a child of value 0, the last one included, but one that only a final separator follows is left
  out.
\<close>

theorem blank_tokens_of_a_vector:
  assumes "no_number c" and "\<not> mon_timestamp_given monitor" and "u \<noteq> []"
  shows "reading (vector_child no_oom monitor (c # cs) now i []) = Some (now, fl_zero)
     \<and> reading (vector_child no_oom monitor (c # cs) now i ((c # cs) @ u)) = Some (now, fl_zero)
     \<and> reading (vector_child no_oom monitor (c # cs) now i (c # cs)) = None"
  using vector_child_blank [OF refl assms(1,2), of no_oom i] assms(3) by blast

theorem blank_tokens_of_a_vector_witness:
  "reading (vector_child no_oom (ex_monitor RB_MONITOR_T__SYSTEM ''a'' ''load'' (Some '';'') None False)
      '';'' 1000 1 '';2'') = Some (1000, fl_zero)"
proof -
  have "no_number (CHR '';'')" by code_simp
  from blank_tokens_of_a_vector [OF this, of "ex_monitor RB_MONITOR_T__SYSTEM ''a'' ''load'' (Some '';'') None False"
      "''2''" "[]" 1000 1]
  show ?thesis by (simp add: ex_monitor_def)
qed

section \<open>Updates and messages\<close>

text \<open>
  C19: For a vector with timestamps, a new value sends one array of messages: one per child that
  is new, later or different, each with the position of its child, then the split operation's. The
  stored value takes all the new children and keeps its old split operation.
\<close>

theorem vector_update_sends_what_changed:
  assumes "layout_ok (pr_layout P)" and "ns \<noteq> []" and "mon_send monitor" and "mon_timestamp_given monitor"
  shows "\<exists>a ch. process_monitor_value P no_oom monitor (MV_scalars ns sp) (Some (MV_scalars olds osp)) q
         = Inr (Some (MV_scalars ns osp), q @ [a])
     \<and> messages_of a = value_messages (pr_json P) monitor ch sp
     \<and> length ch = length ns
     \<and> (\<forall>i < length ns. ch ! i
          = (if i < length olds \<and> unchanged (pr_dne P) (olds ! i) (ns ! i) then None else ns ! i))"
  using assms by (rule process_monitor_value_vector)

definition ex_scalar :: "time_t \<Rightarrow> int \<Rightarrow> scalar" where
  "ex_scalar t z = \<lparr>timestamp = t, val = fl_of_int z, bad_value = False, string_value = show_int z\<rparr>"

theorem vector_update_sends_what_changed_witness:
  "\<exists>a. process_monitor_value ex_printing no_oom
         (ex_monitor RB_MONITOR_T__SYSTEM ''a'' ''load'' (Some '';'') None True)
         (MV_scalars [Some (ex_scalar 5 1), Some (ex_scalar 6 2)] None)
         (Some (MV_scalars [Some (ex_scalar 5 1)] None)) []
       = Inr (Some (MV_scalars [Some (ex_scalar 5 1), Some (ex_scalar 6 2)] None), [a])
     \<and> length (messages_of a) = 1"
proof -
  let ?m = "ex_monitor RB_MONITOR_T__SYSTEM ''a'' ''load'' (Some '';'') None True"
  let ?ns = "[Some (ex_scalar 5 1), Some (ex_scalar 6 2)]"
  have same: "unchanged (pr_dne ex_printing) (Some (ex_scalar 5 1)) (Some (ex_scalar 5 1))"
    by (simp add: unchanged_def ex_printing_def older_def rb_monitor_value_cmp_timestamp_def)
  from vector_update_sends_what_changed [OF ex_layout_ok, of ?ns ?m None "[Some (ex_scalar 5 1)]" None "[]"]
  obtain a ch where r: "process_monitor_value ex_printing no_oom ?m (MV_scalars ?ns None)
        (Some (MV_scalars [Some (ex_scalar 5 1)] None)) [] = Inr (Some (MV_scalars ?ns None), [a])"
    and msgs: "messages_of a = value_messages (pr_json ex_printing) ?m ch None" "length ch = 2"
    and ch: "\<forall>i < 2. ch ! i = (if i < 1 \<and> unchanged (pr_dne ex_printing) ([Some (ex_scalar 5 1)] ! i) (?ns ! i)
        then None else ?ns ! i)"
    by (auto simp: ex_monitor_def numeral_2_eq_2)
  have "ch = [ch ! 0, ch ! 1]" using msgs(2) by (cases ch; cases "tl ch") auto
  moreover have "ch ! 0 = None" "ch ! 1 = Some (ex_scalar 6 2)" using ch same by simp_all
  ultimately have "ch = [None, Some (ex_scalar 6 2)]" by simp
  with r msgs show ?thesis by (simp add: value_messages_def)
qed

text \<open>
  For a scalar, a monitor with timestamps sends and stores the new value when there was none,
  when it is later or when it differs, and otherwise keeps the old value and sends nothing; a
  monitor without timestamps always sends.
\<close>

theorem scalar_update_rule:
  assumes "layout_ok (pr_layout P)" and "mon_send monitor"
  shows "\<exists>a. messages_of a = [value_message (pr_json P) monitor s NO_INSTANCE]
     \<and> process_monitor_value P no_oom monitor (MV_value s) (map_option MV_value old) q
         = Inr (if mon_timestamp_given monitor \<and> unchanged (pr_dne P) old (Some s)
                then (map_option MV_value old, q) else (Some (MV_value s), q @ [a]))"
  using assms by (rule process_monitor_value_scalar)

theorem scalar_update_rule_witness:
  "process_monitor_value ex_printing no_oom (ex_monitor RB_MONITOR_T__SYSTEM ''a'' ''load'' None None True)
     (MV_value (ex_scalar 5 1)) (Some (MV_value (ex_scalar 5 1))) [] = Inr (Some (MV_value (ex_scalar 5 1)), [])"
proof -
  have same: "unchanged (pr_dne ex_printing) (Some (ex_scalar 5 1)) (Some (ex_scalar 5 1))"
    by (simp add: unchanged_def ex_printing_def older_def rb_monitor_value_cmp_timestamp_def)
  from scalar_update_rule [OF ex_layout_ok, of "ex_monitor RB_MONITOR_T__SYSTEM ''a'' ''load'' None None True"
      "ex_scalar 5 1" "Some (ex_scalar 5 1)" "[]"] same
  show ?thesis by (simp add: ex_monitor_def)
qed

text \<open>A monitor that is not to be sent queues no message, and its values are still stored.\<close>

theorem unsent_monitor_is_silent:
  assumes "\<not> mon_send monitor" and "value_wf mv" and "layout_ok (pr_layout P)"
    and "\<And>o'. old = Some o' \<Longrightarrow> value_wf o' \<and> is_value o' = is_value mv"
  shows "\<exists>mv'. process_monitor_value P mem monitor mv old q = Inr (Some mv', q)"
  using assms by (rule process_monitor_value_silent)

theorem unsent_monitor_is_silent_witness:
  "\<exists>mv'. process_monitor_value ex_printing no_oom
      ((ex_monitor RB_MONITOR_T__SYSTEM ''a'' ''load'' None None True)\<lparr>mon_send := False\<rparr>)
      (MV_value (ex_scalar 5 1)) None [] = Inr (Some mv', [])"
  by (rule unsent_monitor_is_silent) simp_all

text \<open>
  Printing a vector writes one message per child it has, in order and with the position of
  the child, then one for the split operation, and none outside the array it allocated.
\<close>

theorem printing_a_vector:
  assumes "layout_ok L" and "cs \<noteq> []"
  shows "\<exists>a. print_monitor_value L J no_oom (MV_scalars cs sp) monitor = Inr (Some a)
     \<and> messages_of a = value_messages J monitor cs sp"
  using assms by (rule print_monitor_value_array_ok)

theorem printing_a_vector_witness:
  "\<exists>a. print_monitor_value rdkafka_layout jv_api no_oom
         (MV_scalars [Some (ex_scalar 5 1), None, Some (ex_scalar 5 3)] (Some (ex_scalar 9 4)))
         (ex_monitor RB_MONITOR_T__SYSTEM ''a'' ''load'' (Some '';'') (Some ''sum'') False) = Inr (Some a)
     \<and> length (messages_of a) = 3"
  using printing_a_vector [OF layout_ok_rdkafka, of "[Some (ex_scalar 5 1), None, Some (ex_scalar 5 3)]" jv_api
      "Some (ex_scalar 9 4)" "ex_monitor RB_MONITOR_T__SYSTEM ''a'' ''load'' (Some '';'') (Some ''sum'') False"]
  by (auto simp: value_messages_def)

text \<open>
  C25: What the outputs get is JSON. When no text needs an escape, the group is a number and no
  enrichment is infinite, every message of a vector, read back as a JSON object, has exactly the members
  that belong to its child: the timestamp, the name with its suffix, the instance, the value, the group
  and the enrichment, in this order; and there is one message per child that is there, in the order of
  the children, then the split operation's.
\<close>

theorem messages_read_back:
  assumes "layout_ok L" and "cs \<noteq> []" and "printbuf_appends J" and "printable J monitor"
  shows "\<exists>a. print_monitor_value L J no_oom (MV_scalars cs sp) monitor = Inr (Some a)
     \<and> map read_message (messages_of a) = map Some (vector_members J monitor cs sp)"
  using print_monitor_value_array_ok [OF assms(1,2)] read_value_messages [OF assms(3,4)] by metis

theorem messages_read_back_witness:
  "\<exists>a. print_monitor_value rdkafka_layout jv_api no_oom
         (MV_scalars [Some (ex_scalar 5 1), None, Some (ex_scalar 6 3)] None)
         ((ex_monitor RB_MONITOR_T__SYSTEM ''a'' ''load'' (Some '';'') None False)
            \<lparr>mon_instance_prefix := Some ''cpu'', mon_group_id := Some ''7''\<rparr>) = Inr (Some a)
     \<and> map read_message (messages_of a) =
        [Some [(''timestamp'', J_number ''5''), (''monitor'', J_string ''a''), (''instance'', J_string ''cpu0''),
               (''value'', J_number ''1''), (''group_id'', J_number ''7'')],
         Some [(''timestamp'', J_number ''6''), (''monitor'', J_string ''a''), (''instance'', J_string ''cpu2''),
               (''value'', J_number ''3''), (''group_id'', J_number ''7'')]]"
proof -
  let ?m = "(ex_monitor RB_MONITOR_T__SYSTEM ''a'' ''load'' (Some '';'') None False)
      \<lparr>mon_instance_prefix := Some ''cpu'', mon_group_id := Some ''7''\<rparr>"
  let ?cs = "[Some (ex_scalar 5 1), None, Some (ex_scalar 6 3)]"
  have printed: "print_ld (fl_to_int64 (fl_of_int 1)) = ''1''" "print_ld (fl_to_int64 (fl_of_int 3)) = ''3''"
    "print_lu 5 = ''5''" "print_lu 6 = ''6''" "show_int (int_of_size 0) = ''0''" "show_int (int_of_size 2) = ''2''"
    "int_of_size 0 = 0" "int_of_size 2 = 2" "number_ok ''7''" by code_simp+
  have two: "Suc (Suc 0) = 2" by simp
  have "printable jv_api ?m" using printed(9) by (simp add: printable_def ex_monitor_def jv_api_def)
  moreover have "vector_members jv_api ?m ?cs None =
        [[(''timestamp'', J_number ''5''), (''monitor'', J_string ''a''), (''instance'', J_string ''cpu0''),
          (''value'', J_number ''1''), (''group_id'', J_number ''7'')],
         [(''timestamp'', J_number ''6''), (''monitor'', J_string ''a''), (''instance'', J_string ''cpu2''),
          (''value'', J_number ''3''), (''group_id'', J_number ''7'')]]"
    using printed(1-4) printed(5,6) [unfolded printed(7,8)]
    by (simp add: vector_members_def message_members_def name_member_def value_members_def group_members_def
        enrichment_members_def ex_monitor_def ex_scalar_def NO_INSTANCE_def jv_api_def printed(7,8) two)
  ultimately show ?thesis
    using messages_read_back [OF layout_ok_rdkafka _ jv_printbuf_appends, of ?cs ?m None] by simp
qed

text \<open>
  C31: Nothing is escaped. A monitor whose name holds a quote sends a message that is read as JSON
  all the same, but with a member of its own making: from the name \<open>a","k":"b\<close> the reader gets the name
  \<open>a\<close> and then a member \<open>k\<close> of value \<open>b\<close>, so that a second \<open>value\<close> or \<open>timestamp\<close> can be forged.
\<close>

theorem quote_in_a_name_forges_a_member:
  assumes "printbuf_appends J" and "printable J (monitor\<lparr>mon_name := []\<rparr>)"
    and "mon_name monitor = a @ ''\",\"'' @ k @ ''\":\"'' @ b" and "plain a" "plain k" "plain b"
  shows "read_object (monitor_value_text J v monitor NO_INSTANCE) =
    Some ((''timestamp'', J_number (print_lu (timestamp v))) # (''monitor'', J_string a) # (k, J_string b)
            # rest_members J v monitor NO_INSTANCE)"
  using assms by (rule quote_in_name)

theorem quote_in_a_name_forges_a_member_witness:
  "read_object (monitor_value_text jv_api (ex_scalar 5 1)
       (ex_monitor RB_MONITOR_T__SYSTEM ''a\",\"value\":\"9'' ''load'' None None False) NO_INSTANCE) =
     Some [(''timestamp'', J_number ''5''), (''monitor'', J_string ''a''), (''value'', J_string ''9''),
           (''value'', J_number ''1'')]"
proof -
  let ?m = "ex_monitor RB_MONITOR_T__SYSTEM ''a\",\"value\":\"9'' ''load'' None None False"
  have "printable jv_api (?m\<lparr>mon_name := []\<rparr>)" by (simp add: printable_def ex_monitor_def jv_api_def)
  moreover have "mon_name ?m = ''a'' @ ''\",\"'' @ ''value'' @ ''\":\"'' @ ''9''" by (simp add: ex_monitor_def)
  moreover have "plain ''a''" "plain ''value''" "plain ''9''" by code_simp+
  moreover have "print_ld (fl_to_int64 (fl_of_int 1)) = ''1''" by code_simp
  then have "rest_members jv_api (ex_scalar 5 1) ?m NO_INSTANCE = [(''value'', J_number ''1'')]"
    by (simp add: rest_members_def value_members_def group_members_def enrichment_members_def ex_monitor_def
        ex_scalar_def NO_INSTANCE_def jv_api_def)
  moreover have "print_lu 5 = ''5''" by code_simp
  then have "print_lu (timestamp (ex_scalar 5 1)) = ''5''" by (simp add: ex_scalar_def)
  ultimately show ?thesis
    using quote_in_a_name_forges_a_member [OF jv_printbuf_appends, of ?m "''a''" "''value''" "''9''" "ex_scalar 5 1"]
    by simp
qed

text \<open>
  The group is printed without quotes: when it is a text, which the parser accepts, nobody can read
  the message.
\<close>

theorem text_in_a_group_breaks_the_message:
  assumes "printbuf_appends J" and "printable J (monitor\<lparr>mon_group_id := None\<rparr>)"
    and "mon_group_id monitor = Some (c # g)"
    and "\<not> number_char c" and "c \<notin> {quote_char, CHR ''t'', CHR ''f'', CHR ''n''}"
  shows "read_object (monitor_value_text J v monitor n) = None"
  using assms by (rule text_in_group)

text \<open>
  The message array is allocated with the size of a pointer in place of its header, 16 bytes
  short. Writing its last message stays inside exactly when the message type ends in 16 bytes the
  program does not use.
\<close>

theorem short_message_array:
  assumes "new_messages_array L True s = Inr (Some a)" and "0 < s"
  shows "set_message L a (s - 1) m = Inl Buffer_overflow \<longleftrightarrow> \<not> layout_ok L"
  using assms by (rule set_last_message)

theorem short_message_array_witness:
  "\<exists>a. new_messages_array \<lparr>msg_size = 40, payload_off = 24, len_off = 32\<rparr> True 1 = Inr (Some a)
     \<and> set_message \<lparr>msg_size = 40, payload_off = 24, len_off = 32\<rparr> a 0 no_message = Inl Buffer_overflow"
proof -
  let ?L = "\<lparr>msg_size = 40, payload_off = 24, len_off = 32\<rparr>"
  obtain a where a: "new_messages_array ?L True 1 = Inr (Some a)"
    by (simp add: new_messages_array_def Let_def header_bytes_def)
  with short_message_array [OF a, of no_message] show ?thesis by (simp add: layout_ok_def)
qed

text \<open>
  Draining the message list hands every message of every array to each configured output,
  once and in order, Kafka before HTTP, and leaves the list empty.
\<close>

theorem draining_sends_every_message_once:
  "msg_list.drain (worker_process_sensor_send_array W) (q, outs) =
     Some ([], outs @ concat (map (to_outputs W) (concat (map messages_of q))))"
  by (simp add: msg_list.drain_eq rb_message_list_init_def send_all_eq)

text \<open>
  C35: An SNMP integer below \<open>2^53\<close> in magnitude reaches the message of an integer monitor digit
  for digit, through the text buffer, the double and the conversion back to an integer.
\<close>

theorem snmp_integer_reaches_the_message:
  assumes "snmp_get S session (mon_cmd_arg monitor) = Some (Asn_integer w)" and "mon_splittok monitor = None"
    and "\<bar>sint w\<bar> < 2 ^ 53" and "mon_integer monitor" and "printbuf_appends J"
    and "mon_group_id monitor = None" and "jc_members J (mon_enrichment monitor) = []"
  shows "\<exists>v. rb_monitor_get_external_value no_oom monitor (snmp_solve_response S session) now = Inr (Some (MV_value v))
     \<and> monitor_value_text J v monitor NO_INSTANCE =
         ''{'' @ ''\"timestamp\":'' @ print_lu now @ '',\"monitor\":\"'' @ mon_name monitor @ ''\"''
         @ '',\"value\":'' @ print_ld w @ ''}''"
  using snmp_integer_value [OF assms(1,2), of now] monitor_value_text_plain [OF assms(5-7)]
    integer_text_exact [OF assms(3)] assms(4)
  by simp

theorem snmp_integer_reaches_the_message_witness:
  "\<exists>v. rb_monitor_get_external_value no_oom (ex_monitor RB_MONITOR_T__OID ''a'' ''1.3'' None None False)
        (snmp_solve_response (lib_snmp ex_libs) ex_session) 1000 = Inr (Some (MV_value v))
     \<and> monitor_value_text jv_api v (ex_monitor RB_MONITOR_T__OID ''a'' ''1.3'' None None False) NO_INSTANCE
         = ''{\"timestamp\":1000,\"monitor\":\"a\",\"value\":42}''"
proof -
  let ?m = "ex_monitor RB_MONITOR_T__OID ''a'' ''1.3'' None None False"
  have "print_lu 1000 = ''1000''" and "print_ld 42 = ''42''" by code_simp+
  note eq = this
  have "jc_members jv_api (mon_enrichment ?m) = []" by (simp add: ex_monitor_def jv_api_def)
  from snmp_integer_reaches_the_message [OF _ _ _ _ jv_printbuf_appends _ this,
      of "lib_snmp ex_libs" ex_session 42 1000] eq
  show ?thesis by (simp add: ex_monitor_def ex_libs_def)
qed

section \<open>What a pass allocates\<close>

text \<open>
  C26: Printing and sending are free of leaks. Whatever allocations fail, what
  \<open>print_monitor_value\<close> returns is the array of the model without memory; when the array was handed over,
  the memory is what it was before the value was printed: every payload, the buffers' structures and the
  array are freed once, and no message is read after its release.
\<close>

theorem messages_are_released:
  assumes "allocator_ok A" and "heap_ok H" and "print_monitor_value L J mem mv monitor = Inr (Some a)"
  shows "\<exists>om H'. owned_print_monitor_value A L J mem mv monitor H = Inr (Some om, H') \<and> om_array om = a \<and> heap_ok H'
     \<and> (\<forall>W outs. owned_send_array W om (outs, H') = Inr (worker_process_sensor_send_array W outs a, H))"
  using assms by (rule messages_are_given_back)

theorem messages_are_released_witness:
  "\<exists>a om H'. owned_print_monitor_value ex_allocator rdkafka_layout jv_api (\<lambda>site. site \<noteq> At_printbuf 0)
         (MV_scalars [Some (ex_scalar 5 1), Some (ex_scalar 6 3)] None)
         (ex_monitor RB_MONITOR_T__SYSTEM ''a'' ''load'' (Some '';'') None False) {#Block 7#} = Inr (Some om, H')
     \<and> owned_send_array ex_worker om ([], H') = Inr (worker_process_sensor_send_array ex_worker [] a, {#Block 7#})"
proof -
  let ?mem = "\<lambda>site. site \<noteq> At_printbuf 0"
  let ?mv = "MV_scalars [Some (ex_scalar 5 1), Some (ex_scalar 6 3)] None"
  let ?m = "ex_monitor RB_MONITOR_T__SYSTEM ''a'' ''load'' (Some '';'') None False"
  have "\<exists>a. print_monitor_value rdkafka_layout jv_api ?mem ?mv ?m = Inr (Some a)"
    by (simp add: print_monitor_value_def MV_scalars_def new_messages_array_def rdkafka_layout_def header_bytes_def
        print_monitor_value0_def set_message_def Let_def)
  then obtain a where "print_monitor_value rdkafka_layout jv_api ?mem ?mv ?m = Inr (Some a)" ..
  moreover have "heap_ok {#Block 7#}" by (simp add: heap_ok_def)
  ultimately show ?thesis using messages_are_released [OF ex_allocator_ok] by blast
qed

text \<open>An operation frees its evaluator and its variables on every path.\<close>

theorem operations_give_back_their_temporaries:
  "owned_op_result A E mem monitor op_vars now H =
     obind (rb_monitor_get_op_result E mem monitor op_vars now) (\<lambda>v. Inr (v, H))"
  by (rule owned_op_result_eq)

text \<open>
  C32: Sessions leak. \<open>new_snmp_session\<close> puts a duplicate of the community into the initial session that
  all passes share and loses the one that was there: after any number of passes, whether their sessions
  open or not, there is exactly one block more for every pass.
\<close>

theorem every_session_leaks_a_community:
  assumes "allocator_ok A" and "heap_ok H"
  shows "\<exists>community' G. owned_sessions A S initial_session configs community H = Inr (community', H + G)
     \<and> size G = length configs \<and> heap_ok (H + G)"
  using assms by (rule sessions_leak)

theorem every_session_leaks_a_community_witness:
  "\<exists>community' G. owned_sessions ex_allocator (lib_snmp ex_libs) ex_session
       (replicate 3 \<lparr>cfg_community = ''public'', cfg_timeout = 5, cfg_flags = 0, cfg_version = SNMP_VERSION_1\<rparr>)
       None {#} = Inr (community', G) \<and> size G = 3"
  using every_session_leaks_a_community [OF ex_allocator_ok, of "{#}" "lib_snmp ex_libs" ex_session
      "replicate 3 \<lparr>cfg_community = ''public'', cfg_timeout = 5, cfg_flags = 0, cfg_version = SNMP_VERSION_1\<rparr>" None]
  by (auto simp: heap_ok_def)

section \<open>Sources of values\<close>

text \<open>
  A scalar value that comes from a command or from SNMP has a non-empty text shorter than the
  buffer, and its number is what \<open>strtod\<close> reads in that text, whatever the command printed or the
  agent answered.
\<close>

theorem external_scalar_is_coherent:
  assumes "mon_splittok monitor = None"
    and "cb = system_solve_response popen \<or> cb = snmp_solve_response S session"
  shows "\<exists>s. rb_monitor_get_external_value no_oom monitor cb now = Inr (Some (MV_value s))
     \<and> string_value s \<noteq> [] \<and> length (string_value s) < BUFSIZ
     \<and> val s = fst (strtod (string_value s)) \<and> timestamp s = now"
proof -
  obtain rc buf num where cb: "cb BUFSIZ (mon_cmd_arg monitor) = (rc, buf, num)" by (metis prod_cases3)
  have len: "length buf < BUFSIZ" and num: "buf \<noteq> [] \<Longrightarrow> num = fst (strtod buf)"
    using assms(2) cb system_source.fits system_source.coherent snmp_source.fits snmp_source.coherent by metis+
  have "Suc 0 < BUFSIZ" by (simp add: BUFSIZ_def)
  then show ?thesis
    using assms(1) cb len num
    by (cases "buf = []")
      (auto simp: rb_monitor_get_external_value_def process_novector_monitor_def snprintf_0)
qed

theorem external_scalar_is_coherent_witness:
  "\<exists>s. rb_monitor_get_external_value no_oom (ex_monitor RB_MONITOR_T__SYSTEM ''a'' ''load'' None None False)
        (system_solve_response (lib_shell ex_libs)) 1000 = Inr (Some (MV_value s))
     \<and> val s = fst (strtod (string_value s))"
  using external_scalar_is_coherent [of "ex_monitor RB_MONITOR_T__SYSTEM ''a'' ''load'' None None False"
      "system_solve_response (lib_shell ex_libs)" "lib_shell ex_libs" "lib_snmp ex_libs" ex_session 1000]
  by (auto simp: ex_monitor_def)

section \<open>Monitors\<close>

text \<open>
  C36: The enrichment of a parsed monitor: the sensor's members, overridden by the monitor's own,
  and then the type of the monitor under \<open>type\<close>.
\<close>

theorem monitor_enrichment_precedence:
  assumes "json_objects_ok J"
    and "parse_rb_monitor0 J mem ty cmd_arg json_monitor (Some sensor_enrichment) = Inr (Some m)"
    and "mem ''enrichment:type''" and "k \<notin> {''type'', ''unit'', ''group_name''}"
  shows "lookup J (mon_enrichment m) ''type'' = Some (Some (jc_new_string J (rb_monitor_type_str ty)))
     \<and> lookup J (mon_enrichment m) k =
        (lookup J sensor_enrichment
          ++ (case jc_get J json_monitor ''enrichment'' of Some (Some e) \<Rightarrow> lookup J e | _ \<Rightarrow> Map.empty)) k"
  using parse_rb_monitor0_enrichment [OF assms(1,2,4)] assms(3) by blast

definition ex_monitor_json :: jv where
  "ex_monitor_json = JObject [(''name'', Some (JString ''a'')), (''oid'', Some (JString ''1.3'')),
     (''enrichment'', Some (JObject [(''site'', Some (JString ''x''))]))]"

theorem monitor_enrichment_precedence_witness:
  "\<exists>m. parse_rb_monitor0 jv_api (\<lambda>k. True) RB_MONITOR_T__OID ''1.3'' (Some ex_monitor_json)
         (Some (JObject [(''site'', Some (JString ''y''))])) = Inr (Some m)
     \<and> lookup jv_api (mon_enrichment m) ''type'' = Some (Some (JString ''snmp''))
     \<and> lookup jv_api (mon_enrichment m) ''site'' = Some (Some (JString ''x''))"
proof -
  let ?r = "parse_rb_monitor0 jv_api (\<lambda>k. True) RB_MONITOR_T__OID ''1.3'' (Some ex_monitor_json)
         (Some (JObject [(''site'', Some (JString ''y''))]))"
  have "case ?r of Inr (Some m) \<Rightarrow> True | _ \<Rightarrow> False" by code_simp
  then obtain m where m: "?r = Inr (Some m)" by (auto split: sum.splits option.splits)
  from monitor_enrichment_precedence [OF jv_objects_ok m, of "''site''"]
  have type: "lookup jv_api (mon_enrichment m) ''type'' = Some (Some (jc_new_string jv_api ''snmp''))"
    and site: "lookup jv_api (mon_enrichment m) ''site'' =
        (lookup jv_api (JObject [(''site'', Some (JString ''y''))])
          ++ (case jc_get jv_api (Some ex_monitor_json) ''enrichment'' of Some (Some e) \<Rightarrow> lookup jv_api e | _ \<Rightarrow> Map.empty)) ''site''"
    by simp_all
  have "jc_get jv_api (Some ex_monitor_json) ''enrichment'' = Some (Some (JObject [(''site'', Some (JString ''x''))]))"
    by (simp add: jv_api_def jv_get_def ex_monitor_json_def)
  then have "lookup jv_api (mon_enrichment m) ''site'' = Some (Some (JString ''x''))"
    using site by (simp add: lookup_def jv_api_def)
  with m type show ?thesis by (simp add: jv_api_def)
qed



text \<open>
  Selecting the operands of an operation by a list of positions that are all inside gives
  exactly the values at those positions, in order.
\<close>

theorem selecting_operands:
  assumes "\<forall>p \<in> set ps. p < length (elms a)"
  shows "rb_monitor_value_array_select mem (Some a) (Some (pos_list ps)) =
     Inr (if mem then Some (filled (map (\<lambda>p. elms a ! p) ps)) else None)"
  using assms by (rule select_filled)

theorem selecting_operands_witness:
  "rb_monitor_value_array_select True (Some (filled [None, Some (MV_value (ex_scalar 5 1))])) (Some [1, 0, - 1]) =
     Inr (Some (filled [Some (MV_value (ex_scalar 5 1)), None]))"
  using selecting_operands [of "[1, 0]" "filled [None, Some (MV_value (ex_scalar 5 1))]" True]
  by (simp add: pos_list_def)

section \<open>Operations\<close>

text \<open>
  C38: An operation over scalars evaluates its expression once, with each variable bound to the
  operand at its position; the result is dropped when it is not a normal number.
\<close>

theorem operation_over_scalars:
  assumes "rb_array_contents a = scalars_of ss" and "rb_array_wf a" and "ss \<noteq> []"
    and "ev_create E (mon_cmd_arg monitor) = Some f" and "mem At_evaluator" and "mem At_matheval_vars"
    and "length (ev_variables E f) = length ss"
  shows "rb_monitor_get_op_result E mem monitor (Some a) now =
     op_result E (mem At_scalar) f (ev_variables E f) (map val ss) now"
  using assms by (rule get_op_result_scalars)

theorem operation_over_scalars_witness:
  "rb_monitor_get_op_result ex_eval no_oom (ex_monitor RB_MONITOR_T__OP ''b'' ''a'' None None False)
     (Some (filled [Some (MV_value (ex_scalar 5 1))])) 1000 =
   op_result ex_eval True [''a''] [''a''] [fl_of_int 1] 1000"
  using operation_over_scalars [of "filled [Some (MV_value (ex_scalar 5 1))]" "[ex_scalar 5 1]" ex_eval
      "ex_monitor RB_MONITOR_T__OP ''b'' ''a'' None None False" "[''a'']" no_oom 1000]
  by (simp add: scalars_of_def ex_monitor_def ex_eval_def ex_scalar_def)

text \<open>
  An operation whose first operand is a vector never computes a child: its result has as many
  children as that vector, all missing, and no split operation. The test on the kind of an operand
  in \<open>rb_monitor_op_vector_i\<close> is the wrong way round.
\<close>

theorem operation_over_vectors_is_empty:
  assumes "rb_array_contents a = Some (MV_array cs sp) # mvs"
  shows "rb_monitor_op_vector E no_oom f a lm monitor (length cs) now =
     Inr (Some (MV_array (replicate (length cs) None) None))"
  using op_vector_array [OF assms, of E no_oom f lm monitor "length cs" now] by simp

theorem operation_over_vectors_is_empty_witness:
  "rb_monitor_op_vector ex_eval no_oom [''a'']
     (filled [Some (MV_scalars [Some (ex_scalar 5 1), Some (ex_scalar 5 2)] None)])
     \<lparr>lm_names = [Some ''a''], lm_values = [fl_zero], lm_count = 1\<rparr>
     (ex_monitor RB_MONITOR_T__OP ''b'' ''a'' None (Some ''sum'') False) 2 1000 =
   Inr (Some (MV_array [None, None] None))"
  using operation_over_vectors_is_empty [of
      "filled [Some (MV_scalars [Some (ex_scalar 5 1), Some (ex_scalar 5 2)] None)]"
      "children_scalars [Some (ex_scalar 5 1), Some (ex_scalar 5 2)]" None "[]" ex_eval "[''a'']"
      "\<lparr>lm_names = [Some ''a''], lm_values = [fl_zero], lm_count = 1\<rparr>"
      "ex_monitor RB_MONITOR_T__OP ''b'' ''a'' None (Some ''sum'') False" 1000]
  by (simp add: MV_scalars_children numeral_2_eq_2)

text \<open>
  The 64 bytes an operation's result is printed into hold the whole numbers below \<open>10^56\<close> and
  no other: from there on the print writes past the end.
\<close>

theorem operation_result_buffer:
  assumes "ev_evaluate E f (take (lm_count lm) (lm_names lm)) (take (lm_count lm) (lm_values lm)) = Fin False m e"
    and "0 \<le> e" and "isnormal (Fin False m e)"
  shows "rb_monitor_op_value0 E mem f lm now = Inl Buffer_overflow \<longleftrightarrow> 10 ^ 56 \<le> m * 2 ^ nat e"
  using assms by (rule op_value0_whole)

theorem operation_result_buffer_witness:
  "rb_monitor_op_value0 (ex_eval\<lparr>ev_evaluate := (\<lambda>f ns vs. Fin False (2 ^ 52) 135)\<rparr>) True [''a'']
     \<lparr>lm_names = [Some ''a''], lm_values = [fl_zero], lm_count = 1\<rparr> 1000 = Inl Buffer_overflow"
  using operation_result_buffer [of "ex_eval\<lparr>ev_evaluate := (\<lambda>f ns vs. Fin False (2 ^ 52) 135)\<rparr>" "[''a'']"
      "\<lparr>lm_names = [Some ''a''], lm_values = [fl_zero], lm_count = 1\<rparr>" "2 ^ 52" 135 True 1000]
  by simp

section \<open>Timestamps\<close>

text \<open>
  Comparing timestamps by their difference orders them as the numbers they are, for
  timestamps that are not negative as a \<open>time_t\<close>.
\<close>

theorem timestamp_order:
  assumes "0 \<le> sint (timestamp m1)" and "0 \<le> sint (timestamp m2)"
  shows "sint (rb_monitor_value_cmp_timestamp m1 m2) < 0 \<longleftrightarrow> sint (timestamp m1) < sint (timestamp m2)"
  using older_iff [OF assms] by (simp add: older_def)

theorem timestamp_order_witness:
  "sint (rb_monitor_value_cmp_timestamp (ex_scalar 5 1) (ex_scalar 6 1)) < 0"
  using timestamp_order [of "ex_scalar 5 1" "ex_scalar 6 1"] by (simp add: ex_scalar_def)

section \<open>Threads\<close>

text \<open>
  C10: In every reachable state of the main thread and the workers, no freed sensor was ever
  touched, no sensor is freed, and the reference counter of each is exactly the number of its
  references: the array's, the queue's, the workers' and the main thread's. The bound says the
  queue and the workers are too few for the 32-bit counter to wrap.
\<close>

theorem references_are_counted:
  assumes "reachable_sys cap sensors n st" and "cap + n + 2 < 2 ^ 32"
  shows "\<not> touched_freed st \<and>
     (\<forall>s < sensors. refcnt (cells st ! s) = of_nat (refs st s) \<and> \<not> freed (cells st ! s))"
  using reachable_sys_inv [OF assms] by (simp add: sys_inv_def)

theorem references_are_counted_witness:
  "refcnt (cells (initial_sys 2 3) ! 1) = of_nat (refs (initial_sys 2 3) 1)"
  using references_are_counted [OF reachable_sys.init, of 10 3 2] by simp

text \<open>
  C12: No two workers process the same sensor at the same time, so the last known values and the
  dependencies of a sensor are used by one thread at a time.
\<close>

theorem one_worker_per_sensor:
  assumes "reachable_sys cap sensors n st" and "cap + n + 2 < 2 ^ 32"
    and "v < length (workers st)" and "w < length (workers st)"
    and "workers st ! v = Processing s" and "workers st ! w = Processing s"
  shows "v = w"
  using sys_inv_one_lock [OF reachable_sys_inv [OF assms(1,2)] assms(3-6)] .

theorem one_worker_per_sensor_witness:
  "\<exists>st. reachable_sys 10 1 2 st \<and> workers st ! 0 = Processing 0 \<and> workers st ! 1 \<noteq> Processing 0"
proof -
  define s1 where "s1 = (rb_sensor_get 0 (initial_sys 1 2))\<lparr>main_at := Main_got 0\<rparr>"
  define s2 where "s2 = s1\<lparr>queue := queue s1 @ [0], main_at := Main_next 1\<rparr>"
  define s3 where "s3 = at_worker 0 (Popped 0) (s2\<lparr>queue := []\<rparr>)"
  define s4 where "s4 = at_worker 0 (Processing 0) (fst (rb_sensor_trylock 0 s3))"
  note defs = s1_def s2_def s3_def s4_def rb_sensor_get_def touch_def initial_sys_def
  have a: "sys_step 10 (initial_sys 1 2) s1"
    unfolding s1_def by (rule sys_step.main_get) (simp_all add: initial_sys_def)
  have b: "sys_step 10 s1 s2"
    using sys_step.main_queue [of s1 0 10] by (simp add: defs)
  have c: "sys_step 10 s2 s3"
    unfolding s3_def by (rule sys_step.pop) (simp_all add: defs)
  have d: "sys_step 10 s3 s4"
    using sys_step.trylock [of 0 s3 0 "fst (rb_sensor_trylock 0 s3)" True 10]
    by (simp add: defs rb_sensor_trylock_def)
  have r: "reachable_sys 10 1 2 s4"
    by (rule reachable_sys.step [OF reachable_sys.step [OF reachable_sys.step
        [OF reachable_sys.step [OF reachable_sys.init a] b] c] d])
  have w: "workers s4 = [Processing 0, Waiting]"
    by (simp add: defs rb_sensor_trylock_def numeral_2_eq_2)
  have "workers s4 ! 1 \<noteq> Processing 0"
  proof
    assume "workers s4 ! 1 = Processing 0"
    with one_worker_per_sensor [OF r, of 0 1 0] w show False by simp
  qed
  with r w show ?thesis by auto
qed

section \<open>The running program\<close>







section \<open>From start to end\<close>



text \<open>
  What the command line says: options are read up to the first that is not \<open>-g\<close>, \<open>-c\<close> or \<open>-d\<close>;
  if there is one, the help is printed and the program ends, with 0 after \<open>-h\<close> and 1 after any other,
  \<open>-v\<close> of the help text among them. Otherwise the last \<open>-c\<close> gives the path and the last \<open>-d\<close> the severity.
\<close>

theorem command_line_is_read:
  "main_options opts default_options =
     (case dropWhile (\<lambda>opt. fst opt \<in> {CHR ''g'', CHR ''c'', CHR ''d''}) opts of
        [] \<Rightarrow> ([], Goes_on \<lparr>config_path = map_of (rev opts) (CHR ''c''),
                     debug_severity = (case map_of (rev opts) (CHR ''d'') of None \<Rightarrow> 6 | Some s \<Rightarrow> atoi s)\<rparr>)
      | opt # _ \<Rightarrow> ([Help_printed], Exited (if fst opt = CHR ''h'' then 0 else 1)))"
proof -
  have eta: "(case x of None \<Rightarrow> None | Some a \<Rightarrow> Some a) = x" for x :: "string option" by (cases x) simp_all
  show ?thesis
    using main_options_reading [of opts default_options]
    by (simp add: eta goes_on_option_def [abs_def] last_argument_def default_options_def
      del: dropWhile_eq_Nil_conv cong: list.case_cong option.case_cong split del: if_split)
qed

text \<open>
  \<open>main\<close> ends early only before a worker runs: with 1, whatever failed, except with 0 when \<open>-h\<close> is
  the first option that is not \<open>-g\<close>, \<open>-c\<close> or \<open>-d\<close>.
\<close>

theorem early_exits_start_no_worker:
  assumes "main_start J E V default_config argv = (es, Exited c)"
  shows "(\<forall>i. Worker_started i \<notin> set es)
     \<and> c = (case dropWhile (\<lambda>opt. fst opt \<in> {CHR ''g'', CHR ''c'', CHR ''d''}) (getopt argv) of
              [] \<Rightarrow> 1 | opt # _ \<Rightarrow> if fst opt = CHR ''h'' then 0 else 1)"
  using main_start_exited [OF assms] by (simp add: goes_on_option_def [abs_def])

theorem early_exits_start_no_worker_witness:
  "main_start jv_api ex_eval ex_world ex_default [''-g'', ''file'', ''-v''] = ([Help_printed], Exited 1)
   \<and> (1 :: nat) = (case dropWhile (\<lambda>opt. fst opt \<in> {CHR ''g'', CHR ''c'', CHR ''d''}) (getopt [''-g'', ''file'', ''-v'']) of
              [] \<Rightarrow> 1 | opt # _ \<Rightarrow> if fst opt = CHR ''h'' then 0 else 1)"
proof -
  have "getopt [''-g'', ''file'', ''-v''] = [(CHR ''g'', []), (CHR ''v'', [])]" by code_simp
  then have run: "main_start jv_api ex_eval ex_world ex_default [''-g'', ''file'', ''-v''] = ([Help_printed], Exited 1)"
    by (simp add: main_start_def)
  with early_exits_start_no_worker [OF run] show ?thesis by blast
qed

text \<open>
  C24: The table of threads. Below \<open>2 ^ 61\<close> threads the array has room for all of them and every thread
  that can be created is started, in order; from there on the size of the array wraps around in 64 bits
  and the loop writes past its end.
\<close>

theorem thread_table_overflows:
  assumes "default_config_ok J default_config"
    and "configure B J known default_config severity file' = Inr st"
    and "w_malloc V (worker_table_bytes (mi_threads (cs_main st)))"
  shows "if unat (mi_threads (cs_main st)) < 2 ^ 61
     then main_workers V (cs_main st) =
            (map Worker_started (filter (w_thread V) [0..<unat (mi_threads (cs_main st))]),
             Goes_on (filter (w_thread V) [0..<unat (mi_threads (cs_main st))]))
     else \<exists>es. main_workers V (cs_main st) = (es, Crashed Buffer_overflow)"
proof -
  have "0 < unat (mi_threads (cs_main st))"
    using configure_ready [OF assms(1,2)] by (cases "mi_threads (cs_main st) = 0") (auto simp: daemon_ready_def unat_gt_0)
  from main_workers_eq [OF this assms(3)] show ?thesis by simp
qed

theorem thread_table_overflows_witness:
  "\<exists>st. configure ex_build jv_api (\<lambda>k v. True) ex_default 6 ex_run_file = Inr st
     \<and> main_workers ex_world (cs_main st) = ([Worker_started 0, Worker_started 1, Worker_started 2], Goes_on [0, 1, 2])"
proof -
  obtain st where st: "configure ex_build jv_api (\<lambda>k v. True) ex_default 6 ex_run_file = Inr st" "mi_threads (cs_main st) = 3"
    using ex_run_conf by blast
  have "[0..<3] = [0, 1, 2::nat]" by code_simp
  with thread_table_overflows [OF ex_default_ok st(1), of ex_world] st show ?thesis by (simp add: ex_world_def)
qed





section \<open>Containers\<close>

text \<open>
  Filling an \<open>rb_array\<close> of capacity \<open>n\<close> never writes outside it: the first \<open>n\<close> elements are
  kept in order and the rest are dropped.
\<close>

theorem filling_an_array:
  "\<exists>b. rb_arr.add_all (Inr (rb_array_fresh n)) es = Inr b \<and> rb_array_wf b \<and> arr_size b = n
     \<and> rb_array_contents b = take n es"
  using rb_arr.add_all_contents [OF rb_arr.wf_fresh, of n es]
  by (simp add: rb_arr.contents_fresh rb_arr.capacity_fresh)

section \<open>ZooKeeper\<close>

text \<open>
  Who leads: a client whose node has the lowest name of the directory becomes the leader, and
  any other watches the node with the greatest name below its own, and is not made leader. The
  paths are assumed to fit the 8192-byte buffers, and the watch to be accepted.
\<close>

theorem lowest_node_leads:
  assumes "CHR ''/'' \<notin> set nm" and "mx_path mutex = dir @ CHR ''/'' # nm"
    and "length (mx_path mutex) < BUFSIZ - 1"
    and "\<forall>s \<in> names_of strings. length dir + length s + 1 < BUFSIZ - 1"
    and "\<And>c. zk c = 0"
  shows "(\<forall>s \<in> names_of strings. nm \<le> s) \<and>
           leader_get_children_complete zk 0 strings mutex = (mutex\<lparr>mx_leader := True\<rparr>, [Mutex_status True])
       \<or> (\<exists>b \<in> names_of strings. b < nm \<and> (\<forall>s \<in> names_of strings. s < nm \<longrightarrow> s \<le> b) \<and>
           leader_get_children_complete zk 0 strings mutex =
             (mutex, [Called (Wexists (dir @ CHR ''/'' # b))]))"
  using assms by (rule leader_get_children_decides)

theorem lowest_node_leads_witness:
  "leader_get_children_complete (\<lambda>c. 0) 0 [Some ''p3'', Some ''p1'', Some ''p2''] \<lparr>mx_path = ''/l/p1'', mx_leader = False, mx_error_cb = True\<rparr>
     = (\<lparr>mx_path = ''/l/p1'', mx_leader = True, mx_error_cb = True\<rparr>, [Mutex_status True])"
proof -
  have "\<not> (''p2'' < ''p1'')" "\<not> (''p3'' < ''p1'')" "\<not> (''p1'' < ''p1'')" by code_simp+
  then show ?thesis
    using lowest_node_leads [of "''p1''" "\<lparr>mx_path = ''/l/p1'', mx_leader = False, mx_error_cb = True\<rparr>" "''/l''"
        "[Some ''p3'', Some ''p1'', Some ''p2'']" "\<lambda>c. 0"]
    by (auto simp: BUFSIZ_def)
qed

text \<open>Popping a queue that is not empty asks for the element with the lowest name.\<close>

theorem lowest_element_is_popped:
  assumes "names_of strings \<noteq> {}" and "zk = (\<lambda>c. 0)"
  shows "\<exists>m \<in> names_of strings. (\<forall>s \<in> names_of strings. m \<le> s) \<and>
     rb_zk_queue_pop_minimum0 zk 0 strings w q =
       (q\<lparr>q_element_path := Some (directory_of (q_path q) @ ''/'' @ m),
          q_ignore_watcher := w \<or> q_ignore_watcher q\<rparr>,
        [Called (Aget (Some (directory_of (q_path q) @ ''/'' @ m)))])"
  using assms by (rule pop_minimum_takes_least)

theorem lowest_element_is_popped_witness:
  "snd (rb_zk_queue_pop_minimum0 (\<lambda>c. 0) 0 [None, Some ''s2''] False (new_queue_element ''/q/s''))
     = [Called (Aget (Some (directory_of ''/q/s'' @ ''/s2'')))]"
  using lowest_element_is_popped [of "[None, Some ''s2'']" "\<lambda>c. 0" False "new_queue_element ''/q/s''"]
  by (auto simp: new_queue_element_def)

text \<open>
  With room for the copy, creating a path recursively creates its ancestors from the root
  down and then the path itself, each once. The array of the code, of as many bytes as the path
  has characters, has no room for it: the copy writes past its end.
\<close>

theorem ancestors_are_created_in_order:
  assumes "segs \<noteq> []" and "\<forall>s \<in> set segs. CHR ''/'' \<notin> set s"
    and "length (CHR ''/'' # join ''/'' segs) < buf_size"
  shows "create_recursive_node buf_size (CHR ''/'' # join ''/'' segs) =
       Inr (map (\<lambda>k. CHR ''/'' # join ''/'' (take k segs)) [1..<Suc (length segs)])
     \<and> rb_zk_create_recursive_node (CHR ''/'' # join ''/'' segs) = Inl Buffer_overflow"
  using create_nodes_segments [OF assms(1,2), of "''/''"] assms(3)
  by (simp add: create_recursive_node_def rb_zk_create_recursive_node_def)

theorem ancestors_are_created_in_order_witness:
  "create_recursive_node 30 ''/rb_monitor/sensors'' = Inr [''/rb_monitor'', ''/rb_monitor/sensors'']
   \<and> rb_zk_create_recursive_node ''/rb_monitor/sensors'' = Inl Buffer_overflow"
  using ancestors_are_created_in_order [of "[''rb_monitor'', ''sensors'']" 30] by (simp add: upt_rec)

text \<open>
  As long as the session lives and a left-over watch fires in time, no callback touches a
  queue element after its release, whatever the answers and the errors: an element that is not
  released has exactly one reference, and nothing is awaited for a released one.
\<close>

theorem queue_element_is_not_used_after_release:
  assumes "pop_reachable False path st"
  shows "\<not> pr_touched_freed st \<and>
     (if q_freed (pr_element st) then pr_awaiting st = Await_nothing else q_refcnt (pr_element st) = 1)"
  using pop_inv_reachable [OF assms] by (simp add: pop_inv_def)

theorem queue_element_is_not_used_after_release_witness:
  "q_refcnt (pr_element (pop_started ''/q/s'')) = 1"
  using queue_element_is_not_used_after_release [OF pop_reachable.start, of "''/q/s''"]
  by (simp add: pop_started_def rb_zk_queue_pop_def new_queue_element_def)

text \<open>
  If the session is lost while the data of an element are awaited, the error callback of its
  lock releases the element, and the answer that still comes uses it.
\<close>

theorem session_loss_uses_released_element:
  "\<exists>st. pop_reachable True path st \<and> pr_touched_freed st"
  by (rule session_loss_touches_freed)

text \<open>
  The lock of a queue is unlocked only when the popped element was deleted. Whatever else
  releases the element reports an error and leaves the lock taken: the retry of the error callback
  waits for it.
\<close>

theorem failed_pop_keeps_the_lock:
  assumes "h \<in> {rb_zk_queue_mutex_status_change zk got, rb_zk_queue_mutex_error_cb cause rc,
      rb_zk_queue_pop_minimum0 zk rc strings w, rb_zk_queue_child_watcher zk child,
      rb_zk_queue_get_element zk rc value'}"
    and "q_refcnt q = 1" and "q_mutex q"
  shows "Unlock_mutex \<notin> set (snd (h q)) \<and>
     (q_freed (fst (h q)) \<and> \<not> q_freed q \<longrightarrow> (\<exists>why code. Queue_error why code \<in> set (snd (h q)))) \<and>
     snd (rb_zk_queue_delete_completed rc q) = [Queue_deleted rc, Unlock_mutex, Element_freed]"
  using pop_handlers_keep_lock [OF assms(1)] pop_handlers_report [OF assms(1)] assms(2,3)
  by (simp add: rb_zk_queue_delete_completed_def rb_zk_queue_element_decref_def)

theorem failed_pop_keeps_the_lock_witness:
  "Unlock_mutex \<notin> set (snd (rb_zk_queue_get_element (\<lambda>c. 0) (- 101) [] (rb_zk_queue_pop (new_queue_element ''/q/s''))))"
  using failed_pop_keeps_the_lock [of "rb_zk_queue_get_element (\<lambda>c. 0) (- 101) []" "\<lambda>c. 0" True "[]" "- 101" "[]" True True "[]"
      "rb_zk_queue_pop (new_queue_element ''/q/s'')"]
  by (simp add: rb_zk_queue_pop_def new_queue_element_def)

section \<open>The configuration\<close>

text \<open>
  C17: Parsing the \<open>conf\<close> object is reading every setting by its key: each one is the value of its
  key when that is acceptable and the old one otherwise, whatever the order of the members, and the
  result is false exactly when an integer could not be read. Keys that are not listed change nothing:
  among them \<open>sleep_main_thread\<close> of the README and every option of librdkafka,
  because \<open>rdkafka.\<close> is compared as a whole key and not as a prefix.
\<close>

theorem configuration_is_read_by_key:
  assumes "json_objects_ok J" and "jc_type J (Some config) = Json_object"
  shows "parse_json_config B J known config st = settings_of B J known (jc_members J config) (st\<lparr>cs_ok := True\<rparr>)
     \<and> parse_config_member B J known st (''sleep_main_thread'', v) = st
     \<and> (opt \<noteq> [] \<longrightarrow> parse_config_member B J known st (''rdkafka.'' @ opt, v) = st)"
proof -
  have "distinct (map fst (jc_members J config))" using assms by (simp add: json_objects_ok_def)
  moreover have "''sleep_main_thread'' \<notin> set config_keys" by (simp add: config_keys_def CONFIG_RDKAFKA_KEY_def)
  moreover have "opt \<noteq> [] \<Longrightarrow> ''rdkafka.'' @ opt \<notin> set config_keys"
    by (simp add: config_keys_def CONFIG_RDKAFKA_KEY_def)
  ultimately show ?thesis
    by (simp add: parse_json_config_settings parse_config_member_def parse_config_key_unknown)
qed

theorem configuration_is_read_by_key_witness:
  "mi_threads (cs_main (parse_json_config ex_build jv_api (\<lambda>n v. False) ex_conf zero_config)) = 3
   \<and> mi_sleep_main (cs_main (parse_json_config ex_build jv_api (\<lambda>n v. False) ex_conf zero_config)) = 0"
  using configuration_is_read_by_key [of jv_api ex_conf ex_build "\<lambda>n v. False" zero_config]
  by (simp add: ex_conf_def jv_api_fields settings_of_def setting_def Let_def accept_defs jv_int64_def zero_config_def)

text \<open>
  Whatever the configuration file says, at least one worker runs and the main thread pauses:
  \<open>threads\<close> and \<open>sleep_main\<close> stay positive. When the pause of one sensor fits its 32 bits, a
  round over \<open>n\<close> sensors pauses for \<open>sleep_main\<close> seconds in all, less than a microsecond a sensor.
\<close>

theorem some_worker_always_runs:
  assumes "default_config_ok J d" and "configure B J known d sev file = Inr st"
    and "n \<noteq> 0" and "unat (mi_sleep_main (cs_main st)) * 1000000 < 2 ^ 64"
    and "unat (mi_sleep_main (cs_main st)) * 1000000 div unat n < 2 ^ 32"
  shows "0 < sint (mi_threads (cs_main st)) \<and> 0 < sint (mi_sleep_main (cs_main st))
     \<and> unat n * unat (main_pause (mi_sleep_main (cs_main st)) n) \<le> unat (mi_sleep_main (cs_main st)) * 1000000
     \<and> unat (mi_sleep_main (cs_main st)) * 1000000
         < unat n * unat (main_pause (mi_sleep_main (cs_main st)) n) + unat n"
proof -
  have "0 < unat n" using assms(3) by (simp add: unat_gt_0)
  then have "unat n * (x div unat n) \<le> x \<and> x < unat n * (x div unat n) + unat n" for x
    using mod_less_divisor [of "unat n" x] mult_div_mod_eq [of "unat n" x] by (metis add_less_cancel_left le_add1)
  then show ?thesis
    unfolding main_pause_exact [OF assms(4,5)]
    using configure_ready [OF assms(1,2)] unfolding daemon_ready_def by blast
qed

theorem some_worker_always_runs_witness:
  "\<exists>st. configure ex_build jv_api (\<lambda>n v. False) ex_default 6 ex_file = Inr st
     \<and> unat (main_pause (mi_sleep_main (cs_main st)) 4) * 4 \<le> 10000000"
proof -
  let ?st = "parse_json_config ex_build jv_api (\<lambda>n v. False) ex_conf
    ((parse_json_config ex_build jv_api (\<lambda>n v. False) ex_default zero_config)\<lparr>cs_severity := Some 6\<rparr>)"
  have c: "configure ex_build jv_api (\<lambda>n v. False) ex_default 6 ex_file = Inr ?st"
    by (simp add: configure_def ex_file_def jv_api_def jv_get_def Let_def)
  have d: "distinct (map fst (jc_members jv_api ex_conf))" by (simp add: jv_api_def ex_conf_def)
  have s: "mi_sleep_main (cs_main ?st) = 10"
    using default_config_settings [OF ex_default_ok, of ex_build "\<lambda>n v. False"]
    by (simp add: parse_json_config_settings [OF d] settings_of_def Let_def)
      (simp add: jv_api_def ex_conf_def setting_def)
  have "unat (mi_sleep_main (cs_main ?st)) * 1000000 < 2 ^ 64"
    "unat (mi_sleep_main (cs_main ?st)) * 1000000 div unat (4 :: 64 word) < 2 ^ 32" by (simp_all add: s)
  from some_worker_always_runs [OF ex_default_ok c _ this] show ?thesis
    using c s by (intro exI [of _ ?st]) (simp add: mult.commute)
qed

text \<open>
  ZooKeeper is started exactly when a host and a positive push timeout are given, with the pop
  timeout as given: a negative one is logged and used. Without a push timeout this client does not
  take sensors either, although the log says only that it will never be master.
\<close>

theorem zookeeper_is_started_with_a_push_period:
  assumes "json_objects_ok J" and "jc_type J (Some c) = Json_object" and "zk_readable J (jc_members J c)"
  shows "parse_zookeeper_json J True False (Some c) =
     Inr (case setting (jc_members J c) ''host'' (a_string J) None of
            None \<Rightarrow> None
          | Some host \<Rightarrow>
              if 0 < sint (setting (jc_members J c) ''push_timeout'' (an_int J) 0)
              then Some \<lparr>zk_host_arg = host,
                     zk_pop_arg = setting (jc_members J c) ''pop_watcher_timeout'' (an_int J) 0,
                     zk_push_arg = setting (jc_members J c) ''push_timeout'' (an_int J) 0,
                     zk_sensors_arg = setting (jc_members J c) ''sensors'' Some None\<rparr>
              else None)"
  by (rule parse_zookeeper_json_eq [OF _ assms(3)]) (use assms(1,2) in \<open>simp add: json_objects_ok_def\<close>)

theorem zookeeper_is_started_with_a_push_period_witness:
  "\<exists>z. parse_zookeeper_json jv_api True False (Some ex_zk) = Inr (Some z) \<and> zk_host_arg z = ''h'' \<and> zk_pop_arg z = 0"
  using zookeeper_is_started_with_a_push_period [of jv_api ex_zk]
  by (simp add: ex_zk_def jv_api_fields zk_readable_def setting_def accept_defs jv_string_def jv_int64_def)

text \<open>
  C28: The array of sensors holds the sensors the parser accepts, in the order of the file, and
  every one of them can be processed, provided the dependencies of its monitors were allocated and
  no monitor has the empty split token.
\<close>

theorem configured_sensors_are_processable:
  assumes "parse_sensors J E mem_array mem W config = Inr (Some r)"
    and "jc_get J (Some config) CONFIG_SENSORS_KEY = Some a" and "\<And>i. sm_deps (mem i)"
    and "\<And>i s mons ms. i < jc_array_length J a \<Longrightarrow>
      parse_rb_sensor J E (mem i) (jc_array_idx J a i) W = Inr (Some s) \<Longrightarrow>
      sen_monitors s = Some mons \<Longrightarrow> rb_array_contents mons = map Some ms \<Longrightarrow> split_tokens_ok ms"
  shows "rb_array_wf r \<and> rb_array_contents r =
       map Some (List.map_filter (\<lambda>i. accepted (parse_rb_sensor J E (mem i) (jc_array_idx J a i) W))
                   [0..<jc_array_length J a])
     \<and> (\<forall>s \<in> set (rb_array_contents r). \<exists>s'. s = Some s' \<and> sensor_ok E s')"
  using parse_sensors_contents [OF assms(1)] assms(2) parse_sensors_ok [OF assms] by simp

theorem configured_sensors_are_processable_witness:
  "\<exists>r. parse_sensors jv_api ex_eval True (\<lambda>i. ex_sensor_mem True) ex_worker ex_file = Inr (Some r)
     \<and> rb_array_contents r = [Some (ex_parsed True)] \<and> sensor_ok ex_eval (ex_parsed True)"
proof -
  obtain r where r: "parse_sensors jv_api ex_eval True (\<lambda>i. ex_sensor_mem True) ex_worker ex_file = Inr (Some r)"
    "rb_array_contents r = [Some (ex_parsed True)]" using ex_file_sensors by blast
  have "jc_get jv_api (Some ex_file) CONFIG_SENSORS_KEY = Some (Some (JArray [Some ex_sensor_json]))"
    by (simp add: jv_api_def jv_get_def ex_file_def CONFIG_SENSORS_KEY_def)
  from configured_sensors_are_processable [OF r(1) this] show ?thesis
    using r ex_parsed_eq [of True] ex_parsed_tokens [of True]
    by (simp add: jv_api_fields ex_sensor_mem_def)
qed

section \<open>ZooKeeper: the lock and the distribution of sensors\<close>





text \<open>
  The lock is passed on in the order of arrival: whoever leads later has a node that was created later,
  however the answers of the directory are delayed and whatever fails in between.
\<close>

theorem lock_is_passed_in_order:
  assumes "lock_reach faulty dir leaf lock_start s" and "lock_reach faulty dir leaf s t"
    and "ls_phase s i = Leading" "own s i = Some n" "n \<in> ls_nodes s"
    and "ls_phase t j = Leading" "own t j = Some m" "m \<in> ls_nodes t"
  shows "n \<le> m"
proof -
  have "holds s n" "holds t m" using assms(3-8) by (auto simp: holds_def has_lock_def)
  from locked_in_order [OF assms(1) this(1) assms(2) this(2)] show ?thesis .
qed

theorem lock_is_passed_in_order_witness:
  "\<exists>t. lock_reach False ''/l'' ''p'' led t \<and> ls_phase t 1 = Leading \<and> own t 1 = Some ''b'' \<and> ''a'' \<le> ''b''"
proof -
  obtain t where t: "lock_reach False ''/l'' ''p'' led t" "ls_phase t 1 = Leading" "own t 1 = Some ''b''" "''b'' \<in> ls_nodes t"
    using next_leads by blast
  have led: "ls_phase led 0 = Leading" "''a'' \<in> ls_nodes led" by (simp_all add: led_def)
  from lock_is_passed_in_order [OF led_reachable t(1) led(1) own_led led(2) t(2-4)] t show ?thesis by blast
qed

text \<open>
  C20: Progress. The attempt with the lowest node goes on to lead by its own callbacks, the server
  answering and nobody else moving, unless a failed request left it without a callback to come,
  or it holds an old answer with a lower name in it.
\<close>

theorem lowest_attempt_can_lead:
  assumes "lock_reach faulty dir leaf lock_start s" and "own s i = Some nm" and "nm \<in> ls_nodes s"
    and "\<forall>n \<in> ls_nodes s. nm \<le> n"
    and "ls_phase s i \<noteq> Stuck" and "ls_phase s i \<noteq> Unlocking"
    and "\<And>strings. ls_phase s i = Listed strings \<Longrightarrow> \<forall>n \<in> names_of strings. nm \<le> n"
  shows "\<exists>t. lock_reach False dir leaf s t \<and> ls_phase t i = Leading \<and> ls_nodes t = ls_nodes s
     \<and> (\<forall>j. j \<noteq> i \<longrightarrow> ls_phase t j = ls_phase s j)"
  using assms(2-7) by (intro lowest_attempt_leads [OF lock_inv_reach [OF assms(1) lock_inv_start]])

theorem lowest_attempt_can_lead_witness:
  "\<exists>t. lock_reach False ''/l'' ''p'' (after_listing ''/l'' 0 ''a'' [Some ''a''] lock_start) t \<and> ls_phase t 0 = Leading"
proof -
  let ?s = "after_listing ''/l'' 0 ''a'' [Some ''a''] lock_start"
  have "lock_reach False ''/l'' ''p'' lock_start ?s"
    by (rule attempt_to_listing) (use run_names in \<open>simp_all add: lock_start_def\<close>)
  moreover have "own ?s 0 = Some ''a''"
    using last_separator_node_path [OF run_names(2)] by (simp add: after_listing_def own_def attempt_mutex_def)
  ultimately show ?thesis
    using lowest_attempt_can_lead [of False "''/l''" "''p''" ?s 0 "''a''"]
    by (auto simp: after_listing_def lock_start_def)
qed

text \<open>
  C27: The race between listing and watching. When the attempt with the lowest node holds an old
  answer, its callback finds the node it should watch gone, gives the attempt up and leaves its
  node behind; from then on nobody leads any more while that session lasts, in any run without faults.
\<close>

theorem lost_race_blocks_the_lock:
  assumes "lock_reach faulty dir leaf lock_start s" and "ls_phase s i = Listed strings"
    and "own s i = Some nm" and "nm \<in> ls_nodes s" and "\<forall>n \<in> ls_nodes s. nm \<le> n"
    and "\<forall>j m. j \<noteq> i \<longrightarrow> own s j = Some m \<longrightarrow> nm < m"
    and "n \<in> names_of strings" and "n < nm" and "lawful False dir (ls_nodes s) zk"
    and "lock_reach False dir leaf (acts i (leader_get_children_complete zk 0 strings (ls_mutex s i)) s) t"
  shows "nm \<in> ls_nodes t \<and> ls_phase t j \<noteq> Leading"
proof -
  let ?u = "acts i (leader_get_children_complete zk 0 strings (ls_mutex s i)) s"
  have inv: "lock_inv dir s" by (rule lock_inv_reach [OF assms(1) lock_inv_start])
  have "orphaned nm ?u" using lost_race_orphans [OF inv assms(2-9)] by simp
  moreover have "lock_inv dir ?u" by (rule lock_inv_list_done [OF inv assms(2)])
  ultimately show ?thesis using orphaned_blocks [OF assms(10)] by (simp add: orphaned_def)
qed

theorem lost_race_blocks_the_lock_witness:
  "lock_reach False ''/l'' ''p'' lock_start raced
   \<and> ''b'' \<in> ls_nodes (acts 1 (leader_get_children_complete (answers ''/l'' (ls_nodes raced)) 0
       [Some ''a'', Some ''b''] (ls_mutex raced 1)) raced)"
proof -
  let ?zk = "answers ''/l'' (ls_nodes raced)"
  have others: "\<forall>j m. j \<noteq> 1 \<longrightarrow> own raced j = Some m \<longrightarrow> ''b'' < m" by (simp add: own_raced)
  have b: "own raced 1 = Some ''b''" by (simp add: own_raced)
  have at: "ls_phase raced 1 = Listed [Some ''a'', Some ''b'']" "''b'' \<in> ls_nodes raced"
    "\<forall>n \<in> ls_nodes raced. ''b'' \<le> n" by (simp_all add: raced_def)
  have "''a'' \<in> names_of [Some ''a'', Some ''b'']" by simp
  from lost_race_blocks_the_lock [OF raced_reachable at(1) b at(2,3) others this run_names(1) lawful_answers lock_reach.here]
  show ?thesis using raced_reachable by blast
qed



text \<open>
  C8: The distribution is a queue. As long as nothing fails, whatever the order of the callbacks of any
  number of clients, what was handed to them is a first part of what was pushed, in order and each sensor
  once; the rest is in the directory, with the last one handed over as long as its deletion is on its way.
\<close>

theorem sensors_are_handed_out_in_order:
  assumes "dist_reach False dir leaf path dist_start d"
  shows "\<exists>front rest. dq_pushed d = front @ rest
     \<and> map snd (dq_handed d) = map (\<lambda>(nm, v). (Some (node_path (directory_of path) nm), v)) front
     \<and> (dq_queue d = map_of rest \<or> front \<noteq> [] \<and> dq_queue d = map_of (last front # rest))"
proof -
  obtain front rest where "queue_splits path (deleting d) (dq_queue d) (dq_pushed d) (map snd (dq_handed d)) front rest"
    using dist_invs [OF assms] by (auto simp: queue_inv_def)
  moreover have "as_handed path = (\<lambda>(nm, v). (Some (node_path (directory_of path) nm), v))"
    by (auto simp: as_handed_def)
  ultimately show ?thesis unfolding queue_splits_def
    by (intro exI [of _ front] exI [of _ rest]) (cases "deleting d"; simp)
qed

theorem sensors_are_handed_out_in_order_witness:
  "\<exists>front rest. dq_pushed one_handed = front @ rest \<and> front = [(''x'', ''s'')] \<and> map fst (dq_handed one_handed) = [0]"
proof -
  obtain front rest where f: "dq_pushed one_handed = front @ rest"
    "map snd (dq_handed one_handed) = map (\<lambda>(nm, v). (Some (node_path (directory_of ''/q/e'') nm), v)) front"
    using sensors_are_handed_out_in_order [OF one_handed_reachable] by blast
  have h: "dq_pushed one_handed = [(''x'', ''s'')]" "length (dq_handed one_handed) = 1" "map fst (dq_handed one_handed) = [0]"
    by (simp_all add: one_handed_def one_leads_def)
  then have "length front = 1" using arg_cong [OF f(2), of length] by simp
  with f(1) h show ?thesis by (intro exI [of _ front] exI [of _ rest]) (cases front; simp)
qed

text \<open>
  C9: No sensor is lost. Through every failure, a sensor that was pushed is still in the directory or was
  handed to a client, as long as no released memory was used.
\<close>

theorem no_sensor_is_lost:
  assumes "dist_reach faulty dir leaf path dist_start d" and "\<forall>i. \<not> pr_touched_freed (dq_pop d i)"
    and "(nm, v) \<in> set (dq_pushed d)"
  shows "dq_queue d nm = Some v \<or> (\<exists>i. (i, Some (node_path (directory_of path) nm), v) \<in> set (dq_handed d))"
  using dist_inv_reach [OF assms(1) dist_inv_start] assms(3) by (force simp: dist_inv_def)

theorem no_sensor_is_lost_witness:
  "(''x'', ''s'') \<in> set (dq_pushed one_popped) \<and>
   (dq_queue one_popped ''x'' = Some ''s''
    \<or> (\<exists>i. (i, Some (node_path (directory_of ''/q/e'') ''x''), ''s'') \<in> set (dq_handed one_popped)))"
proof -
  have "(''x'', ''s'') \<in> set (dq_pushed one_popped)" by (simp add: one_popped_def one_handed_def one_leads_def)
  with no_sensor_is_lost [OF one_popped_reachable _ this] one_popped_untouched show ?thesis by blast
qed

text \<open>
  C21: A pop that works can always hand over the next sensor by its own callbacks, the server answering and
  nobody else moving, when there is one; it does not stop between the lock and the data.
\<close>

theorem a_pop_hands_the_next_sensor_over:
  assumes "dist_reach False dir leaf path dist_start d" and "busy (waits_for d i)" "waits_for d i \<noteq> Await_delete"
    and "dom (dq_queue d) \<noteq> {}"
  shows "\<exists>e. dist_reach False dir leaf path d e \<and> waits_for e i = Await_delete \<and>
     dq_pushed e = dq_pushed d \<and> length (dq_handed e) = Suc (length (dq_handed d))"
  using pop_hands_next [OF dist_sound_reach [OF assms(1)] assms(2-4), of leaf] by (simp add: hands_next_def)

theorem a_pop_hands_the_next_sensor_over_witness:
  "waits_for one_leads 0 = Await_children False \<and>
   (\<exists>e. dist_reach False ''/l'' ''p'' ''/q/e'' one_leads e \<and> length (dq_handed e) = Suc 0)"
proof -
  have f: "waits_for one_leads 0 = Await_children False" "dom (dq_queue one_leads) \<noteq> {}" "dq_handed one_leads = []"
    by (simp_all add: one_leads_def)
  have "busy (waits_for one_leads 0)" "waits_for one_leads 0 \<noteq> Await_delete" by (simp_all add: f)
  from a_pop_hands_the_next_sensor_over [OF one_leads_reachable this f(2)] f show ?thesis by auto
qed



text \<open>
  What is popped reaches the workers' queue once, in order, and only there: every text that is
  JSON is queued, as a JSON object. None of the new entries is a sensor, which is what the workers
  take every entry for.
\<close>

theorem popped_sensors_are_queued_as_json:
  "rb_monitor_zk_add_popped_sensors_to_monitor_queue parse z =
     z\<lparr>mz_pop_sensors_list := [],
       mz_workers_queue := mz_workers_queue z @ map Queued_json (parsed_texts parse (mz_pop_sensors_list z))\<rparr>
   \<and> (\<forall>s. Queued_sensor s \<notin> set (map Queued_json (parsed_texts parse (mz_pop_sensors_list z))))"
  using add_popped_sensors [of parse z] by auto



end
